(* ===== verification/Prelude.thy ===== *)
theory Prelude
  imports Main "HOL-Library.Word"
begin

section \<open>Prelude: machine types, raw memory and generic lemmas\<close>

text \<open>
  Shared by every component: the names of the machine types, the little-endian encodings
  (\<open>to_le_bytes\<close> / \<open>from_le_bytes\<close>), raw memory with its bounds
  (\<open>copy_nonoverlapping\<close>, a byte load), the outcome of an operation that may return an
  error or fault, and the generic lemmas about lists read modulo a capacity.
\<close>

subsection \<open>Collections of facts\<close>

named_theorems ring_simps "equations that evaluate the ring buffer in terms of natural numbers"
named_theorems step_defs "definitions of the handlers of a transport"

subsection \<open>Machine types\<close>

type_synonym u8 = "8 word"
type_synonym u32 = "32 word"
type_synonym u64 = "64 word"
type_synonym usize = "64 word"
type_synonym bytes = "8 word list"

text \<open>The length of a slice as a \<open>usize\<close>. The language keeps it below \<open>2 ^ 63\<close>.\<close>

definition isize_max :: nat where
  "isize_max = 2 ^ 63 - 1"

definition len_usize :: "'a list \<Rightarrow> usize" where
  "len_usize xs = of_nat (length xs)"

lemma unat_len_usize [simp]:
  "length xs \<le> isize_max \<Longrightarrow> unat (len_usize xs) = length xs"
  by (simp add: len_usize_def isize_max_def unat_of_nat)

lemma unat_of_nat_small: "n < 2 ^ 64 \<Longrightarrow> unat (of_nat n :: u64) = n"
  by (simp add: unat_of_nat)

subsection \<open>Little-endian encodings\<close>

text \<open>\<open>le_encode n x\<close> is the \<open>n\<close> low bytes of \<open>x\<close>, least significant first.\<close>

fun le_encode :: "nat \<Rightarrow> nat \<Rightarrow> bytes" where
  "le_encode 0 x = []"
| "le_encode (Suc n) x = of_nat (x mod 256) # le_encode n (x div 256)"

fun le_decode :: "bytes \<Rightarrow> nat" where
  "le_decode [] = 0"
| "le_decode (b # bs) = unat b + 256 * le_decode bs"

lemma unat_u8_less: "unat (b :: u8) < 256"
  using unsigned_less [of b, where ?'a = nat] by simp

lemma length_le_encode [simp]: "length (le_encode n x) = n"
  by (induction n arbitrary: x) auto

lemma le_encode_4:
  "le_encode 4 x = [of_nat (x mod 256), of_nat (x div 256 mod 256),
     of_nat (x div 256 div 256 mod 256), of_nat (x div 256 div 256 div 256 mod 256)]"
proof -
  have "le_encode 4 x = le_encode (Suc (Suc (Suc (Suc 0)))) x"
    by (rule arg_cong [where f = "\<lambda>n. le_encode n x"]) simp
  then show ?thesis by (simp only: le_encode.simps)
qed

lemma le_decode_encode: "le_decode (le_encode n x) = x mod 256 ^ n"
proof (induction n arbitrary: x)
  case 0
  then show ?case by simp
next
  case (Suc n)
  have "unat (of_nat (x mod 256) :: u8) = x mod 256"
    by (simp add: unat_of_nat)
  with Suc show ?case
    by (simp add: mod_mult2_eq)
qed

lemma le_decode_bound: "le_decode bs < 256 ^ length bs"
proof (induction bs)
  case Nil
  then show ?case by simp
next
  case (Cons b bs)
  have "unat b < 256" by (rule unat_u8_less)
  with Cons show ?case by simp
qed

lemma le_encode_decode: "le_encode (length bs) (le_decode bs) = bs"
proof (induction bs)
  case Nil
  then show ?case by simp
next
  case (Cons b bs)
  have "unat b < 256" by (rule unat_u8_less)
  with Cons show ?case by simp
qed

definition u32_to_le_bytes :: "u32 \<Rightarrow> bytes" where
  "u32_to_le_bytes w = le_encode 4 (unat w)"

definition u32_from_le_bytes :: "bytes \<Rightarrow> u32" where
  "u32_from_le_bytes bs = of_nat (le_decode bs)"

definition u64_to_ne_bytes :: "u64 \<Rightarrow> bytes" where
  \<comment> \<open>native endianness of the supported targets: little-endian\<close>
  "u64_to_ne_bytes w = le_encode 8 (unat w)"

definition u64_from_ne_bytes :: "bytes \<Rightarrow> u64" where
  "u64_from_ne_bytes bs = of_nat (le_decode bs)"

lemma length_u32_to_le_bytes [simp]: "length (u32_to_le_bytes w) = 4"
  by (simp add: u32_to_le_bytes_def)

lemma length_u64_to_ne_bytes [simp]: "length (u64_to_ne_bytes w) = 8"
  by (simp add: u64_to_ne_bytes_def)

lemma u32_le_roundtrip [simp]: "u32_from_le_bytes (u32_to_le_bytes w) = w"
proof -
  have "unat w < 256 ^ 4" using unsigned_less [of w, where ?'a = nat] by simp
  then show ?thesis
    by (simp add: u32_from_le_bytes_def u32_to_le_bytes_def le_decode_encode)
qed

lemma u64_ne_roundtrip [simp]: "u64_from_ne_bytes (u64_to_ne_bytes w) = w"
proof -
  have "unat w < 256 ^ 8" using unsigned_less [of w, where ?'a = nat] by simp
  then show ?thesis
    by (simp add: u64_from_ne_bytes_def u64_to_ne_bytes_def le_decode_encode)
qed

subsection \<open>Outcomes\<close>

text \<open>
  What stops an operation without a value of its \<open>Result\<close> type: an access outside the
  mapped memory (undefined behaviour in the unsafe blocks) or a panic. The release profile
  is compiled with \<open>panic = "abort"\<close> and without overflow checks, so arithmetic wraps.
\<close>

datatype fault = OutOfBounds | RemByZero | IndexOutOfRange

datatype ('e, 'a) outcome = Ok 'a | Err 'e | Fault fault

subsection \<open>Raw memory\<close>

definition copy_nonoverlapping ::
  "bytes \<Rightarrow> nat \<Rightarrow> bytes \<Rightarrow> nat \<Rightarrow> nat \<Rightarrow> bytes option" where
  "copy_nonoverlapping src s dst d n =
     (if s + n \<le> length src \<and> d + n \<le> length dst
      then Some (take d dst @ take n (drop s src) @ drop (d + n) dst)
      else None)"

definition load_byte :: "bytes \<Rightarrow> nat \<Rightarrow> u8 option" where
  "load_byte m i = (if i < length m then Some (m ! i) else None)"

lemma copy_nonoverlapping_Some:
  "s + n \<le> length src \<Longrightarrow> d + n \<le> length dst \<Longrightarrow>
     \<exists>m. copy_nonoverlapping src s dst d n = Some m"
  by (simp add: copy_nonoverlapping_def)

lemma copy_nonoverlapping_length:
  "copy_nonoverlapping src s dst d n = Some m \<Longrightarrow> length m = length dst"
  by (auto simp: copy_nonoverlapping_def split: if_splits)

lemma copy_nonoverlapping_nth:
  assumes "copy_nonoverlapping src s dst d n = Some m" and "k < length dst"
  shows "m ! k = (if d \<le> k \<and> k < d + n then src ! (s + (k - d)) else dst ! k)"
  using assms
  by (auto simp: copy_nonoverlapping_def nth_append split: if_splits)

subsection \<open>Reading and writing a list modulo a capacity\<close>

text \<open>
  \<open>cyc_read m cap p n\<close> are the \<open>n\<close> bytes from position \<open>p\<close> of the circular area
  formed by the first \<open>cap\<close> bytes of \<open>m\<close>; \<open>cyc_write m cap p bs\<close> stores \<open>bs\<close> there.
\<close>

definition cyc_read :: "'a list \<Rightarrow> nat \<Rightarrow> nat \<Rightarrow> nat \<Rightarrow> 'a list" where
  "cyc_read m cap p n = map (\<lambda>i. m ! ((p + i) mod cap)) [0..<n]"

definition cyc_write :: "'a list \<Rightarrow> nat \<Rightarrow> nat \<Rightarrow> 'a list \<Rightarrow> 'a list" where
  "cyc_write m cap p bs =
     map (\<lambda>k. if k < cap \<and> (k + cap - p) mod cap < length bs
              then bs ! ((k + cap - p) mod cap) else m ! k) [0..<length m]"

lemma length_cyc_read [simp]: "length (cyc_read m cap p n) = n"
  by (simp add: cyc_read_def)

lemma length_cyc_write [simp]: "length (cyc_write m cap p bs) = length m"
  by (simp add: cyc_write_def)

lemma cyc_read_nth [simp]: "i < n \<Longrightarrow> cyc_read m cap p n ! i = m ! ((p + i) mod cap)"
  by (simp add: cyc_read_def)

lemma cyc_read_0 [simp]: "cyc_read m cap p 0 = []"
  by (simp add: cyc_read_def)

lemma cyc_read_mod: "cyc_read m cap (p mod cap) n = cyc_read m cap p n"
  by (simp add: cyc_read_def mod_add_left_eq)

lemma cyc_read_add:
  "cyc_read m cap p (n + k) = cyc_read m cap p n @ cyc_read m cap (p + n) k"
  by (rule nth_equalityI) (auto simp: nth_append add.assoc)

text \<open>Distinct offsets below the capacity are distinct positions.\<close>

lemma mod_offset_inj:
  fixes p i j cap :: nat
  assumes "i < cap" "j < cap" "(p + i) mod cap = (p + j) mod cap"
  shows "i = j"
proof -
  have "int (p + i) mod int cap = int (p + j) mod int cap"
    using assms(3) by (metis zmod_int)
  then have "int cap dvd int (p + i) - int (p + j)"
    by (simp add: mod_eq_dvd_iff)
  then have "int cap dvd int i - int j" by simp
  moreover have "\<bar>int i - int j\<bar> < int cap" using assms(1,2) by linarith
  ultimately have "int i - int j = 0"
    using dvd_imp_le_int [of "int i - int j" "int cap"] by linarith
  then show ?thesis by simp
qed

lemma cyc_offset:
  fixes p i cap :: nat
  assumes "p < cap" "i < cap"
  shows "((p + i) mod cap + cap - p) mod cap = i"
proof (cases "p + i < cap")
  case True
  with assms show ?thesis by simp
next
  case False
  with assms have "(p + i) mod cap = p + i - cap"
    by (simp add: le_mod_geq)
  with assms False show ?thesis by simp
qed

lemma cyc_position:
  fixes p k cap :: nat
  assumes "p < cap" "k < cap"
  shows "(p + (k + cap - p) mod cap) mod cap = k"
proof (cases "p \<le> k")
  case True
  with assms have "(k + cap - p) mod cap = k - p"
    by (simp add: le_mod_geq)
  with True assms show ?thesis by simp
next
  case False
  with assms show ?thesis by simp
qed

text \<open>The difference of two positions, as a distance from the first.\<close>

lemma cyc_dist:
  fixes p k cap :: nat
  assumes "p < cap" "k < cap"
  shows "(k + cap - p) mod cap = (if p \<le> k then k - p else k + cap - p)"
proof (cases "p \<le> k")
  case True
  then have "k + cap - p = (k - p) + cap" by simp
  then have "(k + cap - p) mod cap = (k - p) mod cap" by (simp only: mod_add_self2)
  with True assms show ?thesis by simp
next
  case False
  with assms show ?thesis by simp
qed

lemma cyc_write_nth:
  "k < length m \<Longrightarrow> cyc_write m cap p bs ! k =
     (if k < cap \<and> (k + cap - p) mod cap < length bs
      then bs ! ((k + cap - p) mod cap) else m ! k)"
  by (simp add: cyc_write_def)

lemma cyc_read_write_same:
  assumes "p < cap" "cap \<le> length m" "length bs \<le> cap"
  shows "cyc_read (cyc_write m cap p bs) cap p (length bs) = bs"
proof (rule nth_equalityI)
  fix i assume "i < length (cyc_read (cyc_write m cap p bs) cap p (length bs))"
  then have i: "i < length bs" by simp
  let ?k = "(p + i) mod cap"
  have pos: "?k < cap" using assms(1) by simp
  then have "?k < length m" using assms(2) by (rule less_le_trans)
  moreover have "(?k + cap - p) mod cap = i"
    using assms(1,3) i by (intro cyc_offset) auto
  ultimately show "cyc_read (cyc_write m cap p bs) cap p (length bs) ! i = bs ! i"
    using i pos by (simp add: cyc_write_nth)
qed simp

lemma cyc_read_write_other:
  assumes "q < cap" "cap \<le> length m" "n + length bs \<le> cap"
  shows "cyc_read (cyc_write m cap ((q + n) mod cap) bs) cap q n = cyc_read m cap q n"
proof (rule nth_equalityI)
  fix i assume "i < length (cyc_read (cyc_write m cap ((q + n) mod cap) bs) cap q n)"
  then have i: "i < n" by simp
  define k where "k = (q + i) mod cap"
  define p where "p = (q + n) mod cap"
  define j where "j = (k + cap - p) mod cap"
  have k: "k < cap" and p: "p < cap" using assms(1) by (simp_all add: k_def p_def)
  have "\<not> j < length bs"
  proof
    assume j: "j < length bs"
    have "(q + n + j) mod cap = (p + j) mod cap"
      unfolding p_def by (rule mod_add_left_eq [symmetric])
    also have "\<dots> = k" unfolding j_def by (rule cyc_position [OF p k])
    finally have "(q + (n + j)) mod cap = (q + i) mod cap" by (simp only: add.assoc k_def)
    then have "n + j = i"
      using assms(3) i j mod_offset_inj [of "n + j" cap i q] by simp
    with i show False by simp
  qed
  moreover have "k < length m" using k assms(2) by (rule less_le_trans)
  ultimately have "cyc_write m cap p bs ! k = m ! k"
    by (simp add: cyc_write_nth j_def)
  with i show "cyc_read (cyc_write m cap ((q + n) mod cap) bs) cap q n ! i = cyc_read m cap q n ! i"
    by (simp add: k_def p_def)
qed simp

lemma cyc_write_append:
  assumes "p < cap" "cap \<le> length m" "length xs + length ys \<le> cap"
  shows "cyc_write (cyc_write m cap p xs) cap ((p + length xs) mod cap) ys
       = cyc_write m cap p (xs @ ys)"
proof (rule nth_equalityI)
  fix k assume "k < length (cyc_write (cyc_write m cap p xs) cap ((p + length xs) mod cap) ys)"
  then have k: "k < length m" by simp
  show "cyc_write (cyc_write m cap p xs) cap ((p + length xs) mod cap) ys ! k
      = cyc_write m cap p (xs @ ys) ! k"
  proof (cases "k < cap")
    case True
    let ?p' = "(p + length xs) mod cap"
    define j where "j = (k + cap - p) mod cap"
    have pos: "(p + j) mod cap = k" unfolding j_def using assms(1) True by (rule cyc_position)
    have j: "j < cap" unfolding j_def using assms(1) by simp
    have p': "?p' < cap" using assms(1) by simp
    have j': "(k + cap - ?p') mod cap = (if length xs \<le> j then j - length xs else j + cap - length xs)"
    proof (cases "length xs \<le> j")
      case True
      then have "k = (p + length xs + (j - length xs)) mod cap"
        using pos by simp
      then have "k = (?p' + (j - length xs)) mod cap"
        by (simp only: mod_add_left_eq)
      moreover have "((?p' + (j - length xs)) mod cap + cap - ?p') mod cap = j - length xs"
        using p' j by (intro cyc_offset) auto
      ultimately show ?thesis using True by simp
    next
      case False
      then have "p + length xs + (j + cap - length xs) = p + j + cap"
        using assms(3) by simp
      then have "(p + length xs + (j + cap - length xs)) mod cap = (p + j) mod cap"
        by (simp only: mod_add_self2)
      then have "k = (p + length xs + (j + cap - length xs)) mod cap"
        using pos by (simp only:)
      then have "k = (?p' + (j + cap - length xs)) mod cap"
        by (simp only: mod_add_left_eq)
      moreover have "((?p' + (j + cap - length xs)) mod cap + cap - ?p') mod cap = j + cap - length xs"
        using p' False by (intro cyc_offset) auto
      ultimately show ?thesis using False by simp
    qed
    show ?thesis
      using k True j assms(3)
      by (auto simp: cyc_write_nth j' j_def [symmetric] nth_append)
  next
    case False
    with k show ?thesis by (simp add: cyc_write_nth)
  qed
qed simp

text \<open>Straight copies into the circular area.\<close>

lemma copy_is_cyc_write:
  assumes "d + length src \<le> cap" "cap \<le> length m"
  shows "copy_nonoverlapping src 0 m d (length src) = Some (cyc_write m cap d src)"
proof -
  obtain m' where m': "copy_nonoverlapping src 0 m d (length src) = Some m'"
    using assms by (auto simp: copy_nonoverlapping_def)
  have "m' = cyc_write m cap d src"
  proof (rule nth_equalityI)
    show "length m' = length (cyc_write m cap d src)"
      using m' by (simp add: copy_nonoverlapping_length)
    fix k assume "k < length m'"
    then have k: "k < length m" using m' by (simp add: copy_nonoverlapping_length)
    show "m' ! k = cyc_write m cap d src ! k"
    proof (cases "k < cap \<and> d < cap")
      case True
      then show ?thesis
        using k assms(1)
        by (auto simp: copy_nonoverlapping_nth [OF m' k] cyc_write_nth cyc_dist)
    next
      case False
      with assms(1) have "\<not> (k < cap \<and> src \<noteq> [])" by (cases src) auto
      with k assms(1) show ?thesis
        by (auto simp: copy_nonoverlapping_nth [OF m' k] cyc_write_nth)
    qed
  qed
  with m' show ?thesis by simp
qed

lemma copy_split_is_cyc_write:
  assumes "d < cap" "cap < d + length src" "length src \<le> cap" "cap \<le> length m"
  shows "Option.bind (copy_nonoverlapping src 0 m d (cap - d))
           (\<lambda>m'. copy_nonoverlapping src (cap - d) m' 0 (length src - (cap - d)))
       = Some (cyc_write m cap d src)"
proof -
  obtain m1 where m1: "copy_nonoverlapping src 0 m d (cap - d) = Some m1"
    using assms copy_nonoverlapping_Some [of 0 "cap - d" src d m] by fastforce
  have len1: "length m1 = length m" using m1 by (rule copy_nonoverlapping_length)
  obtain m2 where m2: "copy_nonoverlapping src (cap - d) m1 0 (length src - (cap - d)) = Some m2"
    using assms len1
      copy_nonoverlapping_Some [of "cap - d" "length src - (cap - d)" src 0 m1] by fastforce
  have len2: "length m2 = length m" using m2 len1 by (simp add: copy_nonoverlapping_length)
  have "m2 = cyc_write m cap d src"
  proof (rule nth_equalityI)
    fix k assume "k < length m2"
    then have k: "k < length m" using len2 by simp
    with len1 have k1: "k < length m1" by simp
    show "m2 ! k = cyc_write m cap d src ! k"
    proof (cases "k < cap")
      case True
      then show ?thesis
      proof (cases "d \<le> k")
        case True
        then have "\<not> k < length src - (cap - d)" using assms(1,2,3) by simp
        with True \<open>k < cap\<close> assms(1,2,3) show ?thesis
          by (auto simp: copy_nonoverlapping_nth [OF m2 k1] copy_nonoverlapping_nth [OF m1 k]
                cyc_write_nth [OF k] cyc_dist)
      next
        case False
        then have "cap - d + k = k + cap - d" using assms(1) by simp
        with False \<open>k < cap\<close> assms(1,2,3) show ?thesis
          by (auto simp: copy_nonoverlapping_nth [OF m2 k1] copy_nonoverlapping_nth [OF m1 k]
                cyc_write_nth [OF k] cyc_dist)
      qed
    next
      case False
      with assms(1,2,3) show ?thesis
        by (auto simp: copy_nonoverlapping_nth [OF m2 k1] copy_nonoverlapping_nth [OF m1 k]
              cyc_write_nth [OF k])
    qed
  qed (simp add: len2)
  with m1 m2 show ?thesis by simp
qed

text \<open>Straight copies out of the circular area.\<close>

lemma cyc_read_straight:
  assumes "p + n \<le> cap" "cap \<le> length m"
  shows "cyc_read m cap p n = take n (drop p m)"
  using assms by (intro nth_equalityI) auto

lemma copy_out_straight:
  assumes "p + n \<le> cap" "cap \<le> length m" "n \<le> length buf"
  shows "copy_nonoverlapping m p buf 0 n = Some (cyc_read m cap p n @ drop n buf)"
  using assms by (simp add: copy_nonoverlapping_def cyc_read_straight)

lemma copy_out_split:
  assumes "p < cap" "cap < p + n" "n \<le> cap" "cap \<le> length m" "n \<le> length buf"
  shows "Option.bind (copy_nonoverlapping m p buf 0 (cap - p))
           (\<lambda>b. copy_nonoverlapping m 0 b (cap - p) (n - (cap - p)))
       = Some (cyc_read m cap p n @ drop n buf)"
proof -
  have "cyc_read m cap p n = cyc_read m cap p (cap - p) @ cyc_read m cap (p + (cap - p)) (n - (cap - p))"
    using assms cyc_read_add [of m cap p "cap - p" "n - (cap - p)"] by simp
  also have "cyc_read m cap (p + (cap - p)) (n - (cap - p)) = cyc_read m cap 0 (n - (cap - p))"
    using assms cyc_read_mod [of m cap cap] by simp
  also have "cyc_read m cap p (cap - p) = take (cap - p) (drop p m)"
    using assms by (simp add: cyc_read_straight)
  also have "cyc_read m cap 0 (n - (cap - p)) = take (n - (cap - p)) m"
    using assms by (simp add: cyc_read_straight)
  finally have out: "cyc_read m cap p n
      = take (cap - p) (drop p m) @ take (n - (cap - p)) m" .
  define b where "b = take (cap - p) (drop p m) @ drop (cap - p) buf"
  have first: "copy_nonoverlapping m p buf 0 (cap - p) = Some b"
    using assms by (simp add: copy_nonoverlapping_def b_def)
  have len: "length (take (cap - p) (drop p m)) = cap - p" using assms by simp
  have lb: "length b = length buf" using first by (rule copy_nonoverlapping_length)
  have "take (cap - p) b = take (cap - p) (drop p m)" using len by (simp add: b_def)
  moreover have "drop n b = drop n buf" using len assms by (simp add: b_def)
  moreover have "cap - p + (n - (cap - p)) = n" using assms by simp
  moreover have "n - (cap - p) \<le> length m" using assms by simp
  ultimately have "copy_nonoverlapping m 0 b (cap - p) (n - (cap - p))
      = Some (cyc_read m cap p n @ drop n buf)"
    using assms(5) lb by (simp add: copy_nonoverlapping_def out)
  with first show ?thesis by simp
qed

subsection \<open>Counting in a list that is updated\<close>

lemma filter_update_length:
  assumes "k < length xs"
  shows "length (filter P (xs[k := y])) + (if P (xs ! k) then 1 else 0)
       = length (filter P xs) + (if P y then 1 else 0)"
proof -
  have "length (filter P xs) = length (filter P (take k xs @ xs ! k # drop (Suc k) xs))"
    using id_take_nth_drop [OF assms] by simp
  with assms show ?thesis by (simp add: upd_conv_take_nth_drop)
qed

end
