(* ===== verification/Shm_Lib.thy ===== *)
theory Shm_Lib
  imports Prelude
begin

section \<open>The crate root of shared-memory\<close>

text \<open>
  \<^verbatim>\<open>shared-memory/src/lib.rs\<close>: the error enumeration and the configuration.
  \<open>errno\<close> stands for \<^verbatim>\<open>nix::Error\<close> with the codes the source and the manual pages of
  the calls it makes mention; an I/O error carries its raw code.
\<close>

datatype errno = EAGAIN | EBADF | EEXIST | ENOENT | OtherErrno int

datatype shm_error =
    Io errno
  | Nix errno
  | Serialization string
  | BufferFull
  | BufferEmpty
  | InvalidState
  | Timeout

record ShmConfig =
  buffer_size :: usize
  max_message_size :: usize
  timeout_ms :: u64

definition ShmConfig_default :: ShmConfig where
  "ShmConfig_default =
     \<lparr>buffer_size = 64 * 1024 * 1024, max_message_size = 64 * 1024, timeout_ms = 5000\<rparr>"

lemma ShmConfig_default_values:
  "unat (buffer_size ShmConfig_default) = 67108864"
  "unat (max_message_size ShmConfig_default) = 65536"
  by (simp_all add: ShmConfig_default_def)

end
