(* ===== verification/Ring_Buffer.thy ===== *)
theory Ring_Buffer
  imports Shm_Lib
begin

section \<open>The shared-memory ring buffer: data and operations\<close>

text \<open>
  \<^verbatim>\<open>shared-memory/src/shm.rs\<close>. The mapping is its header (the first 32 bytes, read
  through a typed pointer) and the data area that follows; the area has as many bytes as are
  accessible behind \<open>data_ptr\<close>, at least the capacity in a well-formed ring. The two mutexes
  make each operation atomic for the threads of one process and carry no data; theory
  \<open>Ring_Concurrent\<close> interleaves the writer and the reader process. Positions and sizes are
  64-bit words and wrap as in the release profile.
\<close>

subsection \<open>Header\<close>

record RingBufferHeader =
  write_pos :: u64
  read_pos :: u64
  capacity :: u64
  magic :: u64

definition MAGIC :: u64 where
  "MAGIC = 0x53484D5242554621"

definition RingBufferHeader_new :: "usize \<Rightarrow> RingBufferHeader" where
  "RingBufferHeader_new cap = \<lparr>write_pos = 0, read_pos = 0, capacity = cap, magic = MAGIC\<rparr>"

definition is_valid :: "RingBufferHeader \<Rightarrow> bool" where
  "is_valid h \<longleftrightarrow> magic h = MAGIC"

text \<open>\<open>repr(C)\<close>: four 8-byte fields in declaration order.\<close>

definition header_size :: nat where
  "header_size = 32"

definition header_to_bytes :: "RingBufferHeader \<Rightarrow> bytes" where
  "header_to_bytes h =
     u64_to_ne_bytes (write_pos h) @ u64_to_ne_bytes (read_pos h)
     @ u64_to_ne_bytes (capacity h) @ u64_to_ne_bytes (magic h)"

definition header_from_bytes :: "bytes \<Rightarrow> RingBufferHeader" where
  "header_from_bytes m =
     \<lparr>write_pos = u64_from_ne_bytes (take 8 m),
      read_pos = u64_from_ne_bytes (take 8 (drop 8 m)),
      capacity = u64_from_ne_bytes (take 8 (drop 16 m)),
      magic = u64_from_ne_bytes (take 8 (drop 24 m))\<rparr>"

subsection \<open>The ring\<close>

record SharedMemoryRingBuffer =
  header :: RingBufferHeader
  area :: bytes
  data_offset :: usize
  data_size :: usize

subsection \<open>Operating system calls\<close>

text \<open>
  The calls \<open>create\<close> and \<open>open\<close> make, a parameter of the model: \<^verbatim>\<open>shm_open\<close>,
  \<^verbatim>\<open>ftruncate\<close>, mapping a descriptor (which gives the bytes of the object), and a store
  through a shared mapping.
\<close>

datatype oflag = O_CREAT | O_RDWR | O_EXCL
datatype shm_mode = S_IRUSR | S_IWUSR

record 'os shm_sys =
  sys_shm_open :: "string \<Rightarrow> oflag list \<Rightarrow> shm_mode list \<Rightarrow> 'os \<Rightarrow> (errno + int) \<times> 'os"
  sys_ftruncate :: "int \<Rightarrow> int \<Rightarrow> 'os \<Rightarrow> (errno + unit) \<times> 'os"
  sys_map_mut :: "int \<Rightarrow> 'os \<Rightarrow> (errno + bytes) \<times> 'os"
  sys_store :: "int \<Rightarrow> bytes \<Rightarrow> 'os \<Rightarrow> 'os"

type_synonym ring = SharedMemoryRingBuffer

definition ring_create ::
  "'os shm_sys \<Rightarrow> string \<Rightarrow> ShmConfig \<Rightarrow> 'os \<Rightarrow> (shm_error, ring) outcome \<times> 'os" where
  "ring_create sys name config os =
     (let total_size = of_nat header_size + buffer_size config in
      case sys_shm_open sys name [O_CREAT, O_RDWR, O_EXCL] [S_IRUSR, S_IWUSR] os of
        (Inl e, os1) \<Rightarrow> (Err (Nix e), os1)
      | (Inr fd, os1) \<Rightarrow>
        (case sys_ftruncate sys fd (sint total_size) os1 of
           (Inl e, os2) \<Rightarrow> (Err (Nix e), os2)
         | (Inr _, os2) \<Rightarrow>
           (case sys_map_mut sys fd os2 of
              (Inl e, os3) \<Rightarrow> (Err (Io e), os3)
            | (Inr mmap, os3) \<Rightarrow>
              (let h = RingBufferHeader_new (buffer_size config) in
               case copy_nonoverlapping (header_to_bytes h) 0 mmap 0 header_size of
                 None \<Rightarrow> (Fault OutOfBounds, os3)
               | Some mmap' \<Rightarrow>
                   (Ok \<lparr>header = h, area = drop header_size mmap',
                        data_offset = of_nat header_size, data_size = buffer_size config\<rparr>,
                    sys_store sys fd mmap' os3)))))"

definition ring_open ::
  "'os shm_sys \<Rightarrow> string \<Rightarrow> ShmConfig \<Rightarrow> 'os \<Rightarrow> (shm_error, ring) outcome \<times> 'os" where
  "ring_open sys name config os =
     (case sys_shm_open sys name [O_RDWR] [S_IRUSR, S_IWUSR] os of
        (Inl e, os1) \<Rightarrow> (Err (Nix e), os1)
      | (Inr fd, os1) \<Rightarrow>
        (case sys_map_mut sys fd os1 of
           (Inl e, os2) \<Rightarrow> (Err (Io e), os2)
         | (Inr mmap, os2) \<Rightarrow>
           (if length mmap < header_size then (Fault OutOfBounds, os2)
            else let h = header_from_bytes mmap in
              if \<not> is_valid h then (Err InvalidState, os2)
              else (Ok \<lparr>header = h, area = drop header_size mmap,
                        data_offset = of_nat header_size, data_size = buffer_size config\<rparr>,
                    os2))))"

subsection \<open>Writing a message\<close>

text \<open>
  The free space as the code computes it, the copy of the message behind its length prefix
  (one piece, or two when it crosses the end of the ring), and the publication of the new
  position.
\<close>

definition write_available :: "RingBufferHeader \<Rightarrow> usize" where
  "write_available h =
     (if read_pos h \<le> write_pos h
      then capacity h - (write_pos h - read_pos h) - 1
      else read_pos h - write_pos h - 1)"

definition write_payload :: "bytes \<Rightarrow> usize \<Rightarrow> usize \<Rightarrow> bytes \<Rightarrow> bytes option" where
  "write_payload m cap data_start payload =
     (if data_start + len_usize payload \<le> cap
      then copy_nonoverlapping payload 0 m (unat data_start) (length payload)
      else
        let first_part = cap - data_start;
            second_part = len_usize payload - first_part
        in Option.bind (copy_nonoverlapping payload 0 m (unat data_start) (unat first_part))
             (\<lambda>m'. copy_nonoverlapping payload (unat first_part) m' 0 (unat second_part)))"

definition ring_write :: "ring \<Rightarrow> bytes \<Rightarrow> (shm_error, usize) outcome \<times> ring" where
  "ring_write self payload =
     (let h = header self;
          cap = capacity h;
          wpos = write_pos h;
          total_size = 4 + len_usize payload
      in if write_available h < total_size then (Err BufferFull, self)
         else
           case copy_nonoverlapping (u32_to_le_bytes (ucast (len_usize payload))) 0
                  (area self) (unat wpos) 4 of
             None \<Rightarrow> (Fault OutOfBounds, self)
           | Some m1 \<Rightarrow>
             if cap = 0 then (Fault RemByZero, self\<lparr>area := m1\<rparr>)
             else
               case write_payload m1 cap ((wpos + 4) mod cap) payload of
                 None \<Rightarrow> (Fault OutOfBounds, self\<lparr>area := m1\<rparr>)
               | Some m2 \<Rightarrow>
                   (Ok (len_usize payload),
                    self\<lparr>area := m2,
                         header := h\<lparr>write_pos := (wpos + total_size) mod cap\<rparr>\<rparr>))"

subsection \<open>Reading a message\<close>

definition read_prefix :: "bytes \<Rightarrow> usize \<Rightarrow> usize \<Rightarrow> bytes option" where
  "read_prefix m cap rpos =
     Option.bind (load_byte m (unat rpos)) (\<lambda>b0.
     Option.bind (load_byte m (unat ((rpos + 1) mod cap))) (\<lambda>b1.
     Option.bind (load_byte m (unat ((rpos + 2) mod cap))) (\<lambda>b2.
     Option.bind (load_byte m (unat ((rpos + 3) mod cap))) (\<lambda>b3.
       Some [b0, b1, b2, b3]))))"

definition read_payload :: "bytes \<Rightarrow> usize \<Rightarrow> usize \<Rightarrow> usize \<Rightarrow> bytes \<Rightarrow> bytes option" where
  "read_payload m cap data_start data_len buf =
     (if data_start + data_len \<le> cap
      then copy_nonoverlapping m (unat data_start) buf 0 (unat data_len)
      else
        let first_part = cap - data_start;
            second_part = data_len - first_part
        in Option.bind (copy_nonoverlapping m (unat data_start) buf 0 (unat first_part))
             (\<lambda>buf'. copy_nonoverlapping m 0 buf' (unat first_part) (unat second_part)))"

definition ring_read :: "ring \<Rightarrow> bytes \<Rightarrow> (shm_error, usize) outcome \<times> bytes \<times> ring" where
  "ring_read self buf =
     (let h = header self;
          cap = capacity h;
          rpos = read_pos h
      in if write_pos h = rpos then (Err BufferEmpty, buf, self)
         else if cap = 0 then
           (if unat rpos < length (area self) then (Fault RemByZero, buf, self)
            else (Fault OutOfBounds, buf, self))
         else
           case read_prefix (area self) cap rpos of
             None \<Rightarrow> (Fault OutOfBounds, buf, self)
           | Some len_bytes \<Rightarrow>
             let data_len = ucast (u32_from_le_bytes len_bytes) :: usize in
             if len_usize buf < data_len then (Err InvalidState, buf, self)
             else
               case read_payload (area self) cap ((rpos + 4) mod cap) data_len buf of
                 None \<Rightarrow> (Fault OutOfBounds, buf, self)
               | Some buf' \<Rightarrow>
                   (Ok data_len, buf',
                    self\<lparr>header := h\<lparr>read_pos := (rpos + 4 + data_len) mod cap\<rparr>\<rparr>))"

end
