(* ===== verification/Ring_Queue.thy ===== *)
theory Ring_Queue
  imports Ring_Buffer
begin

section \<open>The ring buffer as a bounded queue of messages\<close>

text \<open>
  The abstraction of a ring: the bytes between the read and the write position are the
  concatenation of length-prefixed frames, and the frames are the queued messages. Write and
  read are shown to be the enqueue and dequeue of a bounded queue, on every branch, as long as
  the length prefix of a written message does not straddle the end of the area
  (\<open>prefix_fits\<close>): the code writes the four prefix bytes in one piece but reads them modulo
  the capacity. What happens where the prefix does not fit is theory \<open>Ring_Straddle\<close>.
\<close>

subsection \<open>Positions as natural numbers, well-formedness, abstraction\<close>

definition ring_cap :: "ring \<Rightarrow> nat" where
  "ring_cap r = unat (capacity (header r))"

definition ring_wp :: "ring \<Rightarrow> nat" where
  "ring_wp r = unat (write_pos (header r))"

definition ring_rp :: "ring \<Rightarrow> nat" where
  "ring_rp r = unat (read_pos (header r))"

definition ring_used :: "ring \<Rightarrow> nat" where
  "ring_used r = (ring_wp r + ring_cap r - ring_rp r) mod ring_cap r"

definition ring_wf :: "ring \<Rightarrow> bool" where
  "ring_wf r \<longleftrightarrow> ring_wp r < ring_cap r \<and> ring_rp r < ring_cap r
     \<and> ring_cap r \<le> 2 ^ 32 \<and> ring_cap r \<le> length (area r)"

definition prefix_fits :: "ring \<Rightarrow> bool" where
  "prefix_fits r \<longleftrightarrow> ring_wp r + 4 \<le> ring_cap r"

definition frame :: "bytes \<Rightarrow> bytes" where
  "frame msg = le_encode 4 (length msg) @ msg"

definition frames :: "bytes list \<Rightarrow> bytes" where
  "frames ms = concat (map frame ms)"

definition ring_stream :: "ring \<Rightarrow> bytes" where
  "ring_stream r = cyc_read (area r) (ring_cap r) (ring_rp r) (ring_used r)"

definition ring_rep :: "ring \<Rightarrow> bytes list \<Rightarrow> bool" where
  "ring_rep r ms \<longleftrightarrow> ring_wf r \<and> ring_stream r = frames ms"

lemmas ring_nat_defs = ring_cap_def ring_wp_def ring_rp_def

lemma length_frame [simp]: "length (frame m) = 4 + length m"
  by (simp add: frame_def)

lemma frames_simps [simp]:
  "frames [] = []"
  "frames (m # ms) = frame m @ frames ms"
  "frames (xs @ ys) = frames xs @ frames ys"
  by (simp_all add: frames_def)

lemma frame_not_Nil [simp]: "frame m \<noteq> []"
  using length_frame [of m] by (metis add_is_0 list.size(3) zero_neq_numeral)

lemma frames_eq_Nil [simp]: "frames ms = [] \<longleftrightarrow> ms = []"
  by (cases ms) simp_all

lemma ring_used_less: "ring_wf r \<Longrightarrow> ring_used r < ring_cap r"
  by (auto simp: ring_wf_def ring_used_def)

lemma length_ring_stream [simp]: "length (ring_stream r) = ring_used r"
  by (simp add: ring_stream_def)

lemma ring_rep_used: "ring_rep r ms \<Longrightarrow> ring_used r = length (frames ms)"
  by (metis length_ring_stream ring_rep_def)

lemma ring_wp_eq: "ring_wf r \<Longrightarrow> ring_wp r = (ring_rp r + ring_used r) mod ring_cap r"
  unfolding ring_wf_def ring_used_def by (simp add: cyc_position)

lemma ring_used_moved:
  assumes "p < cap" "d < cap" "w = (p + d) mod cap"
  shows "(w + cap - p) mod cap = (d :: nat)"
  using assms cyc_offset by simp

subsection \<open>The code's arithmetic on natural numbers\<close>

lemma unat_add_small: "unat a + unat b < 2 ^ 64 \<Longrightarrow> unat (a + b :: u64) = unat a + unat b"
  using unat_add_lem [of a b] by simp

lemma unat_sub_le: "b \<le> a \<Longrightarrow> unat (a - b :: u64) = unat a - unat b"
  by (rule unat_sub)

lemma write_available_nat:
  assumes "ring_wf r"
  shows "unat (write_available (header r)) = ring_cap r - ring_used r - 1"
proof (cases "read_pos (header r) \<le> write_pos (header r)")
  case True
  let ?h = "header r"
  have d: "unat (write_pos ?h - read_pos ?h) = ring_wp r - ring_rp r"
    using True by (simp add: unat_sub ring_nat_defs)
  moreover have "ring_wp r - ring_rp r \<le> ring_cap r"
    using assms unfolding ring_wf_def by linarith
  ultimately have le: "write_pos ?h - read_pos ?h \<le> capacity ?h"
    by (simp add: word_le_nat_alt ring_cap_def)
  have e: "unat (capacity ?h - (write_pos ?h - read_pos ?h)) = ring_cap r - (ring_wp r - ring_rp r)"
    using d by (simp add: unat_sub [OF le] ring_cap_def)
  have "1 \<le> ring_cap r - (ring_wp r - ring_rp r)"
    using assms unfolding ring_wf_def by linarith
  then have "1 \<le> capacity ?h - (write_pos ?h - read_pos ?h)"
    using e by (simp add: word_le_nat_alt)
  then have "unat (capacity ?h - (write_pos ?h - read_pos ?h) - 1)
      = ring_cap r - (ring_wp r - ring_rp r) - 1"
    using e by (simp add: unat_sub)
  moreover have "ring_used r = ring_wp r - ring_rp r"
    using True assms by (simp add: ring_used_def ring_wf_def cyc_dist word_le_nat_alt ring_nat_defs)
  ultimately show ?thesis using True by (simp add: write_available_def)
next
  case False
  let ?h = "header r"
  have lt: "write_pos ?h < read_pos ?h" using False by simp
  have d: "unat (read_pos ?h - write_pos ?h) = ring_rp r - ring_wp r"
    using lt by (simp add: unat_sub ring_nat_defs)
  have "1 \<le> read_pos ?h - write_pos ?h"
    using d lt by (simp add: word_le_nat_alt word_less_nat_alt ring_nat_defs)
  then have "unat (read_pos ?h - write_pos ?h - 1) = ring_rp r - ring_wp r - 1"
    using d by (simp add: unat_sub)
  moreover have "ring_used r = ring_wp r + ring_cap r - ring_rp r"
    using lt assms by (simp add: ring_used_def ring_wf_def cyc_dist word_less_nat_alt ring_nat_defs)
  ultimately show ?thesis
    using False assms by (simp add: write_available_def ring_wf_def)
qed

text \<open>A position advanced and reduced modulo the capacity does not wrap.\<close>

lemma advance_nat:
  assumes "unat p + n < 2 ^ 64" "unat d = n"
  shows "unat ((p + d) mod cap :: u64) = (unat p + n) mod unat cap"
  using assms by (simp add: unat_mod unat_add_small)

lemma prefix_bytes:
  assumes "length payload < 2 ^ 32"
  shows "u32_to_le_bytes (ucast (len_usize payload)) = le_encode 4 (length payload)"
proof -
  have "length payload \<le> isize_max" using assms by (simp add: isize_max_def)
  then have "unat (ucast (len_usize payload) :: u32) = length payload"
    using assms by (simp add: unsigned_ucast_eq take_bit_eq_mod)
  then show ?thesis by (simp add: u32_to_le_bytes_def)
qed

subsection \<open>The copies of the code are circular writes and reads\<close>

lemma write_payload_cyc:
  assumes "unat start < unat cap" "unat cap \<le> 2 ^ 32" "unat cap \<le> length m"
    and "length payload \<le> unat cap"
  shows "write_payload m cap start payload
       = Some (cyc_write m (unat cap) (unat start) payload)"
proof -
  have len: "unat (len_usize payload) = length payload"
    using assms by (simp add: isize_max_def)
  have sum: "unat (start + len_usize payload) = unat start + length payload"
    using assms len by (simp add: unat_add_small)
  show ?thesis
  proof (cases "start + len_usize payload \<le> cap")
    case True
    then have "unat start + length payload \<le> unat cap"
      using sum by (simp add: word_le_nat_alt)
    with True assms show ?thesis
      by (simp add: write_payload_def copy_is_cyc_write)
  next
    case False
    then have over: "unat cap < unat start + length payload"
      using sum by (simp add: word_le_nat_alt)
    have le1: "start \<le> cap" using assms(1) by (simp add: word_le_nat_alt)
    have first: "unat (cap - start) = unat cap - unat start"
      using le1 by (rule unat_sub)
    have le2: "cap - start \<le> len_usize payload"
      using over first len by (simp add: word_le_nat_alt)
    have "unat (len_usize payload - (cap - start)) = length payload - (unat cap - unat start)"
      using unat_sub [OF le2] first len by simp
    with False first over assms copy_split_is_cyc_write [of "unat start" "unat cap" payload m]
    show ?thesis
      by (simp add: write_payload_def Let_def)
  qed
qed

lemma read_prefix_cyc:
  assumes "unat rpos < unat cap" "unat cap \<le> 2 ^ 32" "unat cap \<le> length m"
  shows "read_prefix m cap rpos = Some (cyc_read m (unat cap) (unat rpos) 4)"
proof -
  have step: "unat ((rpos + of_nat i) mod cap) = (unat rpos + i) mod unat cap" if "i < 4" for i
    using assms that by (intro advance_nat) (auto simp: unat_of_nat)
  have inb: "(unat rpos + i) mod unat cap < length m" for i
  proof -
    have "(unat rpos + i) mod unat cap < unat cap" using assms(1) by simp
    then show ?thesis using assms(3) by (rule less_le_trans)
  qed
  have "cyc_read m (unat cap) (unat rpos) 4
      = [m ! unat rpos, m ! ((unat rpos + 1) mod unat cap),
         m ! ((unat rpos + 2) mod unat cap), m ! ((unat rpos + 3) mod unat cap)]"
    using assms(1) by (simp add: cyc_read_def upt_rec numeral_eq_Suc)
  then show ?thesis
    using step [of 1] step [of 2] step [of 3] inb [of 0] inb [of 1] inb [of 2] inb [of 3] assms(1)
    by (simp add: read_prefix_def load_byte_def)
qed

lemma read_payload_cyc:
  assumes "unat start < unat cap" "unat cap \<le> 2 ^ 32" "unat cap \<le> length m"
    and "unat n \<le> unat cap" "unat n \<le> length buf"
  shows "read_payload m cap start n buf
       = Some (cyc_read m (unat cap) (unat start) (unat n) @ drop (unat n) buf)"
proof -
  have sum: "unat (start + n) = unat start + unat n"
    using assms by (simp add: unat_add_small)
  show ?thesis
  proof (cases "start + n \<le> cap")
    case True
    then have "unat start + unat n \<le> unat cap"
      using sum by (simp add: word_le_nat_alt)
    with True assms show ?thesis
      by (simp add: read_payload_def copy_out_straight)
  next
    case False
    then have over: "unat cap < unat start + unat n"
      using sum by (simp add: word_le_nat_alt)
    have le1: "start \<le> cap" using assms(1) by (simp add: word_le_nat_alt)
    have first: "unat (cap - start) = unat cap - unat start"
      using le1 by (rule unat_sub)
    have le2: "cap - start \<le> n"
      using over first by (simp add: word_le_nat_alt)
    have "unat (n - (cap - start)) = unat n - (unat cap - unat start)"
      using unat_sub [OF le2] first by simp
    with False first over assms copy_out_split [of "unat start" "unat cap" "unat n" m buf]
    show ?thesis
      by (simp add: read_payload_def Let_def)
  qed
qed

subsection \<open>The abstract queue\<close>

text \<open>
  What a ring of capacity \<open>cap\<close> promises: a bounded queue in which a message of \<open>n\<close> bytes
  costs \<open>n + 4\<close> bytes and one byte always stays free; a message longer than the reader's
  buffer stays in the queue.
\<close>

definition frames_size :: "bytes list \<Rightarrow> nat" where
  "frames_size ms = sum_list (map (\<lambda>m. 4 + length m) ms)"

definition queue_write ::
  "nat \<Rightarrow> bytes list \<Rightarrow> bytes \<Rightarrow> (shm_error, usize) outcome \<times> bytes list" where
  "queue_write cap ms payload =
     (if frames_size ms + 4 + length payload < cap
      then (Ok (len_usize payload), ms @ [payload])
      else (Err BufferFull, ms))"

definition queue_read ::
  "bytes list \<Rightarrow> bytes \<Rightarrow> (shm_error, usize) outcome \<times> bytes \<times> bytes list" where
  "queue_read ms buf =
     (case ms of
        [] \<Rightarrow> (Err BufferEmpty, buf, [])
      | m # ms' \<Rightarrow>
          if length buf < length m then (Err InvalidState, buf, m # ms')
          else (Ok (len_usize m), m @ drop (length m) buf, ms'))"

lemma frames_size_simps [simp]:
  "frames_size [] = 0"
  "frames_size (m # ms) = 4 + length m + frames_size ms"
  "frames_size (xs @ ys) = frames_size xs + frames_size ys"
  by (simp_all add: frames_size_def)

lemma length_frames: "length (frames ms) = frames_size ms"
  by (induction ms) simp_all

lemma ring_rep_wf: "ring_rep r ms \<Longrightarrow> ring_wf r"
  by (simp add: ring_rep_def)

lemma ring_rep_size: "ring_rep r ms \<Longrightarrow> frames_size ms = ring_used r"
  by (simp add: ring_rep_used length_frames)

subsection \<open>Write\<close>

text \<open>The successful write as a circular write of the whole frame.\<close>

definition ring_pushed :: "ring \<Rightarrow> bytes \<Rightarrow> ring" where
  "ring_pushed r payload =
     r\<lparr>area := cyc_write (area r) (ring_cap r) (ring_wp r) (frame payload),
       header := (header r)\<lparr>write_pos :=
         (write_pos (header r) + (4 + len_usize payload)) mod capacity (header r)\<rparr>\<rparr>"

lemma write_full_iff:
  assumes "ring_wf r" "length payload \<le> isize_max"
  shows "write_available (header r) < 4 + len_usize payload
     \<longleftrightarrow> \<not> ring_used r + 4 + length payload < ring_cap r"
proof -
  have "unat (4 + len_usize payload) = 4 + length payload"
    using assms(2) by (subst unat_add_small) (auto simp: isize_max_def)
  then show ?thesis
    using write_available_nat [OF assms(1)] ring_used_less [OF assms(1)]
    by (auto simp: word_less_nat_alt)
qed

lemma ring_write_full:
  assumes "ring_wf r" "length payload \<le> isize_max"
    and "\<not> ring_used r + 4 + length payload < ring_cap r"
  shows "ring_write r payload = (Err BufferFull, r)"
  using write_full_iff [OF assms(1,2), THEN iffD2, OF assms(3)]
  by (simp add: ring_write_def Let_def)

lemma ring_write_room:
  assumes wf: "ring_wf r" and room: "ring_used r + 4 + length payload < ring_cap r"
    and fits: "prefix_fits r"
  shows "ring_write r payload = (Ok (len_usize payload), ring_pushed r payload)"
proof -
  let ?h = "header r" and ?cap = "ring_cap r" and ?w = "ring_wp r"
  have bounds: "?w < ?cap" "?cap \<le> 2 ^ 32" "?cap \<le> length (area r)"
    using wf by (simp_all add: ring_wf_def)
  have lenp: "length payload < 2 ^ 32" using room bounds by linarith
  have notfull: "\<not> write_available ?h < 4 + len_usize payload"
    using write_full_iff [OF wf, of payload] room lenp by (simp add: isize_max_def)
  have cap0: "capacity ?h \<noteq> 0" using bounds(1) by (auto simp: ring_cap_def)
  define m1 where "m1 = cyc_write (area r) ?cap ?w (le_encode 4 (length payload))"
  have c1: "copy_nonoverlapping (u32_to_le_bytes (ucast (len_usize payload))) 0 (area r)
      (unat (write_pos ?h)) 4 = Some m1"
    using copy_is_cyc_write [of ?w "le_encode 4 (length payload)" ?cap "area r"] fits bounds
    by (simp add: prefix_bytes [OF lenp] prefix_fits_def m1_def ring_wp_def)
  have start: "unat ((write_pos ?h + 4) mod capacity ?h) = (?w + 4) mod ?cap"
    unfolding ring_wp_def ring_cap_def using bounds
    by (intro advance_nat) (auto simp: ring_nat_defs)
  have "write_payload m1 (capacity ?h) ((write_pos ?h + 4) mod capacity ?h) payload
      = Some (cyc_write m1 ?cap ((?w + 4) mod ?cap) payload)"
    using write_payload_cyc [of "(write_pos ?h + 4) mod capacity ?h" "capacity ?h" m1 payload]
      start bounds room by (simp add: ring_cap_def [symmetric] m1_def)
  moreover have "cyc_write m1 ?cap ((?w + 4) mod ?cap) payload
      = cyc_write (area r) ?cap ?w (frame payload)"
    unfolding m1_def frame_def
    using cyc_write_append [of ?w ?cap "area r" "le_encode 4 (length payload)" payload]
      bounds room by simp
  ultimately show ?thesis
    using notfull c1 cap0 by (simp add: ring_write_def Let_def ring_pushed_def add.assoc)
qed

lemma ring_pushed_frame [simp]:
  "ring_cap (ring_pushed r payload) = ring_cap r"
  "ring_rp (ring_pushed r payload) = ring_rp r"
  "length (area (ring_pushed r payload)) = length (area r)"
  by (simp_all add: ring_pushed_def ring_nat_defs)

lemma ring_free_store:
  assumes rep: "ring_rep r ms" and free: "ring_used r + d + length bs \<le> ring_cap r"
  defines "r' \<equiv> r\<lparr>area := cyc_write (area r) (ring_cap r) ((ring_wp r + d) mod ring_cap r) bs\<rparr>"
  shows "ring_rep r' ms"
    and "cyc_read (area r') (ring_cap r) (ring_wp r) d = cyc_read (area r) (ring_cap r) (ring_wp r) d"
proof -
  let ?cap = "ring_cap r" and ?p = "ring_rp r" and ?u = "ring_used r"
  have wf: "ring_wf r" using rep by (rule ring_rep_wf)
  then have bounds: "?p < ?cap" "?cap \<le> length (area r)" by (simp_all add: ring_wf_def)
  have at: "(ring_wp r + d) mod ?cap = (?p + (?u + d)) mod ?cap"
    by (simp only: ring_wp_eq [OF wf] mod_add_left_eq add.assoc)
  have "cyc_read (area r') ?cap ?p (?u + d) = cyc_read (area r) ?cap ?p (?u + d)"
    unfolding r'_def using bounds free by (simp add: at cyc_read_write_other)
  then have eq: "cyc_read (area r') ?cap ?p ?u = cyc_read (area r) ?cap ?p ?u"
    "cyc_read (area r') ?cap (?p + ?u) d = cyc_read (area r) ?cap (?p + ?u) d"
    by (auto simp: cyc_read_add)
  have same: "ring_cap r' = ?cap" "ring_rp r' = ?p" "ring_used r' = ?u" "ring_wf r'"
    using wf by (simp_all add: r'_def ring_nat_defs ring_used_def ring_wf_def)
  show "ring_rep r' ms"
    using rep eq(1) same by (simp add: ring_rep_def ring_stream_def)
  show "cyc_read (area r') ?cap (ring_wp r) d = cyc_read (area r) ?cap (ring_wp r) d"
    using eq(2) by (metis cyc_read_mod ring_wp_eq [OF wf])
qed

text \<open>Publishing a frame that already lies in the free space.\<close>

definition ring_published :: "ring \<Rightarrow> bytes \<Rightarrow> ring" where
  "ring_published r payload =
     r\<lparr>header := (header r)\<lparr>write_pos :=
         (write_pos (header r) + (4 + len_usize payload)) mod capacity (header r)\<rparr>\<rparr>"

lemma ring_published_frame [simp]:
  "ring_cap (ring_published r payload) = ring_cap r"
  "ring_rp (ring_published r payload) = ring_rp r"
  "area (ring_published r payload) = area r"
  by (simp_all add: ring_published_def ring_nat_defs)

lemma ring_published_wp:
  assumes "ring_wf r" "ring_used r + 4 + length payload < ring_cap r"
  shows "ring_wp (ring_published r payload) = (ring_wp r + (4 + length payload)) mod ring_cap r"
proof -
  have "unat (4 + len_usize payload) = 4 + length payload"
    using assms by (subst unat_add_small) (auto simp: isize_max_def ring_wf_def)
  moreover have "unat (write_pos (header r)) + (4 + length payload) < 2 ^ 64"
    using assms by (auto simp: ring_wf_def ring_nat_defs)
  ultimately show ?thesis
    by (simp add: ring_published_def ring_wp_def ring_cap_def advance_nat)
qed

lemma ring_published_used:
  assumes "ring_wf r" "ring_used r + 4 + length payload < ring_cap r"
  shows "ring_used (ring_published r payload) = ring_used r + (4 + length payload)"
proof -
  have "ring_wp (ring_published r payload)
      = (ring_rp r + (ring_used r + (4 + length payload))) mod ring_cap r"
    using assms by (simp only: ring_published_wp ring_wp_eq mod_add_left_eq add.assoc)
  then show ?thesis
    unfolding ring_used_def ring_published_frame
    using assms by (intro ring_used_moved) (auto simp: ring_wf_def ring_used_def)
qed

lemma ring_published_rep:
  assumes rep: "ring_rep r ms" and room: "ring_used r + 4 + length payload < ring_cap r"
    and stored: "cyc_read (area r) (ring_cap r) (ring_wp r) (4 + length payload) = frame payload"
  shows "ring_rep (ring_published r payload) (ms @ [payload])"
proof -
  let ?r = "ring_published r payload" and ?cap = "ring_cap r" and ?p = "ring_rp r"
  let ?u = "ring_used r" and ?n = "4 + length payload"
  have wf: "ring_wf r" using rep by (rule ring_rep_wf)
  have "ring_stream ?r = cyc_read (area r) ?cap ?p (?u + ?n)"
    using wf room by (simp add: ring_stream_def ring_published_used)
  also have "\<dots> = cyc_read (area r) ?cap ?p ?u @ cyc_read (area r) ?cap (?p + ?u) ?n"
    by (rule cyc_read_add)
  also have "cyc_read (area r) ?cap (?p + ?u) ?n = cyc_read (area r) ?cap (ring_wp r) ?n"
    by (simp only: ring_wp_eq [OF wf] cyc_read_mod)
  finally have "ring_stream ?r = frames (ms @ [payload])"
    using rep by (simp add: ring_rep_def ring_stream_def stored)
  moreover have "ring_wf ?r"
    using wf room ring_published_wp [OF wf room] by (auto simp: ring_wf_def)
  ultimately show ?thesis by (simp add: ring_rep_def)
qed

lemma ring_pushed_published:
  "ring_pushed r payload = ring_published
     (r\<lparr>area := cyc_write (area r) (ring_cap r) (ring_wp r) (frame payload)\<rparr>) payload"
  by (simp add: ring_pushed_def ring_published_def)

lemma ring_pushed_wp:
  assumes "ring_wf r" "ring_used r + 4 + length payload < ring_cap r"
  shows "ring_wp (ring_pushed r payload) = (ring_wp r + (4 + length payload)) mod ring_cap r"
  using ring_published_wp [OF assms]
  by (simp add: ring_pushed_def ring_published_def ring_nat_defs)

lemma ring_pushed_rep:
  assumes rep: "ring_rep r ms" and room: "ring_used r + 4 + length payload < ring_cap r"
  shows "ring_rep (ring_pushed r payload) (ms @ [payload])"
proof -
  let ?r = "r\<lparr>area := cyc_write (area r) (ring_cap r) (ring_wp r) (frame payload)\<rparr>"
  have wf: "ring_wf r" using rep by (rule ring_rep_wf)
  then have bounds: "ring_wp r < ring_cap r" "ring_cap r \<le> length (area r)"
    by (simp_all add: ring_wf_def)
  have same: "ring_cap ?r = ring_cap r" "ring_wp ?r = ring_wp r" "ring_used ?r = ring_used r"
    by (simp_all add: ring_nat_defs ring_used_def)
  have "ring_rep ?r ms"
    using ring_free_store(1) [OF rep, of 0 "frame payload"] room bounds by simp
  moreover have "cyc_read (area ?r) (ring_cap r) (ring_wp r) (length (frame payload)) = frame payload"
    using cyc_read_write_same [OF bounds, of "frame payload"] room by simp
  ultimately show ?thesis
    unfolding ring_pushed_published using room same
    by (intro ring_published_rep) simp_all
qed

subsection \<open>Read\<close>

definition ring_popped :: "ring \<Rightarrow> bytes \<Rightarrow> ring" where
  "ring_popped r m =
     r\<lparr>header := (header r)\<lparr>read_pos :=
         (read_pos (header r) + 4 + len_usize m) mod capacity (header r)\<rparr>\<rparr>"

lemma ring_read_empty:
  assumes "ring_rep r []"
  shows "ring_read r buf = (Err BufferEmpty, buf, r)"
proof -
  have wf: "ring_wf r" and "ring_used r = 0"
    using assms ring_rep_used [OF assms] by (auto simp: ring_rep_def)
  then have "ring_wp r = ring_rp r"
    using ring_wp_eq [OF wf] by (simp add: ring_wf_def)
  then have "write_pos (header r) = read_pos (header r)"
    by (simp add: ring_nat_defs word_unat_eq_iff)
  then show ?thesis by (simp add: ring_read_def Let_def)
qed

text \<open>A queued message at the front: the prefix read, then the payload.\<close>

lemma ring_front:
  assumes rep: "ring_rep r (m # ms)"
  shows "ring_wp r \<noteq> ring_rp r"
    and "4 + length m + length (frames ms) = ring_used r"
    and "cyc_read (area r) (ring_cap r) (ring_rp r) 4 = le_encode 4 (length m)"
    and "cyc_read (area r) (ring_cap r) (ring_rp r + 4) (length m) = m"
    and "cyc_read (area r) (ring_cap r) (ring_rp r + 4 + length m) (length (frames ms)) = frames ms"
proof -
  let ?c = "\<lambda>p n. cyc_read (area r) (ring_cap r) p n" and ?p = "ring_rp r"
  have wf: "ring_wf r" using rep by (rule ring_rep_wf)
  show used: "4 + length m + length (frames ms) = ring_used r"
    using ring_rep_used [OF rep] by simp
  show "ring_wp r \<noteq> ring_rp r"
  proof
    assume "ring_wp r = ring_rp r"
    then have "ring_used r = 0" using wf by (simp add: ring_used_def ring_wf_def)
    with used show False by simp
  qed
  have "?c ?p (4 + length m + length (frames ms)) = le_encode 4 (length m) @ m @ frames ms"
    using rep by (simp add: used ring_rep_def ring_stream_def frame_def)
  moreover have "?c ?p (4 + length m + length (frames ms))
      = ?c ?p 4 @ ?c (?p + 4) (length m) @ ?c (?p + 4 + length m) (length (frames ms))"
    by (simp only: cyc_read_add append_assoc add.assoc)
  ultimately have eq: "?c ?p 4 @ ?c (?p + 4) (length m) @ ?c (?p + 4 + length m) (length (frames ms))
      = le_encode 4 (length m) @ m @ frames ms" by simp
  then show "?c ?p 4 = le_encode 4 (length m)"
    and "?c (?p + 4) (length m) = m"
    and "?c (?p + 4 + length m) (length (frames ms)) = frames ms"
    by (auto simp: append_eq_append_conv)
qed

lemma ring_front_len:
  assumes "ring_rep r (m # ms)"
  shows "length m < 2 ^ 32"
  using ring_front(2) [OF assms] ring_used_less [OF ring_rep_wf [OF assms]] ring_rep_wf [OF assms]
  by (simp add: ring_wf_def)

lemma prefix_value:
  assumes "length m < 2 ^ 32"
  shows "(ucast (u32_from_le_bytes (le_encode 4 (length m))) :: usize) = len_usize m"
proof -
  have "le_decode (le_encode 4 (length m)) = length m"
    using assms by (simp add: le_decode_encode)
  moreover have "unat (of_nat (length m) :: u32) = length m"
    using assms by (simp add: unat_of_nat)
  ultimately show ?thesis
    by (metis len_usize_def of_nat_unat u32_from_le_bytes_def)
qed

lemma ring_read_front:
  assumes rep: "ring_rep r (m # ms)" and buf: "length buf \<le> isize_max"
  shows "ring_read r buf =
     (if length buf < length m then (Err InvalidState, buf, r)
      else (Ok (len_usize m), m @ drop (length m) buf, ring_popped r m))"
proof -
  let ?h = "header r" and ?cap = "ring_cap r" and ?p = "ring_rp r"
  have wf: "ring_wf r" using rep by (rule ring_rep_wf)
  have bounds: "?p < ?cap" "?cap \<le> 2 ^ 32" "?cap \<le> length (area r)"
    using wf by (simp_all add: ring_wf_def)
  have lenm: "length m < 2 ^ 32" using rep by (rule ring_front_len)
  have lencap: "length m \<le> ?cap"
    using ring_front(2) [OF rep] ring_used_less [OF wf] by linarith
  have ulen: "unat (len_usize m) = length m" using lenm by (simp add: isize_max_def)
  have ne: "write_pos ?h \<noteq> read_pos ?h" using ring_front(1) [OF rep] by (auto simp: ring_nat_defs)
  have cap0: "capacity ?h \<noteq> 0" using bounds(1) by (auto simp: ring_cap_def)
  have pre: "read_prefix (area r) (capacity ?h) (read_pos ?h) = Some (le_encode 4 (length m))"
    using read_prefix_cyc [of "read_pos ?h" "capacity ?h" "area r"] bounds ring_front(3) [OF rep]
    by (simp add: ring_nat_defs)
  have small: "len_usize buf < len_usize m \<longleftrightarrow> length buf < length m"
    using buf ulen by (simp add: word_less_nat_alt)
  have start: "unat ((read_pos ?h + 4) mod capacity ?h) = (?p + 4) mod ?cap"
    unfolding ring_rp_def ring_cap_def using bounds
    by (intro advance_nat) (auto simp: ring_nat_defs)
  show ?thesis
  proof (cases "length buf < length m")
    case True
    then show ?thesis
      using ne cap0 pre small by (simp add: ring_read_def Let_def prefix_value [OF lenm])
  next
    case False
    have "read_payload (area r) (capacity ?h) ((read_pos ?h + 4) mod capacity ?h) (len_usize m) buf
        = Some (cyc_read (area r) ?cap ((?p + 4) mod ?cap) (length m) @ drop (length m) buf)"
      using read_payload_cyc [of "(read_pos ?h + 4) mod capacity ?h" "capacity ?h" "area r"
          "len_usize m" buf] start bounds ulen lencap False
      by (simp add: ring_cap_def [symmetric])
    then have "read_payload (area r) (capacity ?h) ((read_pos ?h + 4) mod capacity ?h) (len_usize m) buf
        = Some (m @ drop (length m) buf)"
      using ring_front(4) [OF rep] by (simp add: cyc_read_mod)
    then show ?thesis
      using False ne cap0 pre small
      by (simp add: ring_read_def Let_def prefix_value [OF lenm] ring_popped_def)
  qed
qed

lemma ring_popped_frame [simp]:
  "ring_cap (ring_popped r m) = ring_cap r"
  "ring_wp (ring_popped r m) = ring_wp r"
  "area (ring_popped r m) = area r"
  by (simp_all add: ring_popped_def ring_nat_defs)

lemma ring_popped_rep:
  assumes rep: "ring_rep r (m # ms)"
  shows "ring_rep (ring_popped r m) ms"
proof -
  let ?r = "ring_popped r m" and ?cap = "ring_cap r" and ?p = "ring_rp r"
  have wf: "ring_wf r" using rep by (rule ring_rep_wf)
  have lenm: "length m < 2 ^ 32" using rep by (rule ring_front_len)
  have rp: "ring_rp ?r = (?p + 4 + length m) mod ?cap"
  proof -
    have "unat (4 + len_usize m) = 4 + length m"
      using lenm by (subst unat_add_small) (auto simp: isize_max_def)
    moreover have "unat (read_pos (header r)) + (4 + length m) < 2 ^ 64"
      using wf lenm by (auto simp: ring_wf_def ring_nat_defs)
    ultimately have "unat ((read_pos (header r) + (4 + len_usize m)) mod capacity (header r))
        = (unat (read_pos (header r)) + (4 + length m)) mod unat (capacity (header r))"
      by (intro advance_nat) auto
    then show ?thesis by (simp add: ring_popped_def ring_nat_defs add.assoc)
  qed
  have wf': "ring_wf ?r" using wf rp by (simp add: ring_wf_def)
  have used: "ring_used ?r = length (frames ms)"
  proof -
    have "ring_wp ?r = (ring_rp ?r + length (frames ms)) mod ?cap"
      using ring_wp_eq [OF wf]
      by (simp only: rp mod_add_left_eq add.assoc ring_front(2) [OF rep, symmetric] ring_popped_frame)
    moreover have "length (frames ms) < ?cap"
      using ring_front(2) [OF rep] ring_used_less [OF wf] by linarith
    ultimately show ?thesis
      unfolding ring_used_def ring_popped_frame
      using wf' by (intro ring_used_moved) (auto simp: ring_wf_def)
  qed
  have "ring_stream ?r = frames ms"
    using ring_front(5) [OF rep] by (simp add: ring_stream_def used rp cyc_read_mod)
  with wf' show ?thesis by (simp add: ring_rep_def)
qed

subsection \<open>Operation by operation: the ring implements the queue\<close>

lemma ring_write_refines:
  assumes rep: "ring_rep r ms" and fits: "prefix_fits r" and len: "length payload \<le> isize_max"
  obtains r' where "ring_write r payload = (fst (queue_write (ring_cap r) ms payload), r')"
    and "ring_rep r' (snd (queue_write (ring_cap r) ms payload))"
    and "ring_cap r' = ring_cap r" and "length (area r') = length (area r)"
proof (cases "ring_used r + 4 + length payload < ring_cap r")
  case True
  with rep fits that [of "ring_pushed r payload"] show ?thesis
    by (simp add: queue_write_def ring_rep_size ring_write_room ring_rep_wf ring_pushed_rep)
next
  case False
  with rep len that [of r] show ?thesis
    by (simp add: queue_write_def ring_rep_size ring_write_full ring_rep_wf)
qed

lemma ring_read_refines:
  assumes rep: "ring_rep r ms" and len: "length buf \<le> isize_max"
  obtains r' where
    "ring_read r buf = (fst (queue_read ms buf), fst (snd (queue_read ms buf)), r')"
    and "ring_rep r' (snd (snd (queue_read ms buf)))"
    and "ring_cap r' = ring_cap r" and "area r' = area r" and "ring_wp r' = ring_wp r"
proof (cases ms)
  case Nil
  with rep that [of r] show ?thesis by (simp add: queue_read_def ring_read_empty)
next
  case (Cons m ms')
  with rep have rep': "ring_rep r (m # ms')" by simp
  show ?thesis
  proof (cases "length buf < length m")
    case True
    with Cons rep' len that [of r] show ?thesis
      by (simp add: queue_read_def ring_read_front)
  next
    case False
    with Cons rep' len that [of "ring_popped r m"] ring_popped_rep [OF rep'] show ?thesis
      by (simp add: queue_read_def ring_read_front)
  qed
qed

end
