(* ===== verification/Message_Queue.thy ===== *)
theory Message_Queue
  imports Ring_Queue
begin

section \<open>The interface the transports rely on\<close>

text \<open>
  The servers and the gateway transports call only \<open>write\<close> and \<open>read\<close>. The locale
  \<open>bounded_queue\<close> states what those promise: each call is the corresponding step of the
  abstract queue, when the queue is ready for a message. Sequences of calls are analysed once,
  in the locale; the ring is an instance in two ways, in general and for the messages whose
  length is a multiple of four, which never meet the straddling prefix.
\<close>

subsection \<open>Sequences of calls\<close>

datatype chan_op = Send bytes | Recv bytes

datatype chan_obs =
    Sent "(shm_error, usize) outcome"
  | Received "(shm_error, usize) outcome" bytes

fun chan_run ::
  "('q \<Rightarrow> bytes \<Rightarrow> (shm_error, usize) outcome \<times> 'q)
   \<Rightarrow> ('q \<Rightarrow> bytes \<Rightarrow> (shm_error, usize) outcome \<times> bytes \<times> 'q)
   \<Rightarrow> 'q \<Rightarrow> chan_op list \<Rightarrow> chan_obs list \<times> 'q" where
  "chan_run enq deq q [] = ([], q)"
| "chan_run enq deq q (Send p # ops) =
     (let (out, q') = enq q p; (obs, q'') = chan_run enq deq q' ops in (Sent out # obs, q''))"
| "chan_run enq deq q (Recv buf # ops) =
     (let (out, buf', q') = deq q buf; (obs, q'') = chan_run enq deq q' ops
      in (Received out buf' # obs, q''))"

abbreviation ring_run :: "ring \<Rightarrow> chan_op list \<Rightarrow> chan_obs list \<times> ring" where
  "ring_run \<equiv> chan_run ring_write ring_read"

abbreviation queue_run :: "nat \<Rightarrow> bytes list \<Rightarrow> chan_op list \<Rightarrow> chan_obs list \<times> bytes list" where
  "queue_run cap \<equiv> chan_run (queue_write cap) queue_read"

text \<open>Each send of the run finds the queue ready.\<close>

fun sends_ready ::
  "('q \<Rightarrow> bytes \<Rightarrow> (shm_error, usize) outcome \<times> 'q)
   \<Rightarrow> ('q \<Rightarrow> bytes \<Rightarrow> (shm_error, usize) outcome \<times> bytes \<times> 'q)
   \<Rightarrow> ('q \<Rightarrow> bool) \<Rightarrow> 'q \<Rightarrow> chan_op list \<Rightarrow> bool" where
  "sends_ready enq deq ready q [] = True"
| "sends_ready enq deq ready q (Send p # ops) =
     (ready q \<and> sends_ready enq deq ready (snd (enq q p)) ops)"
| "sends_ready enq deq ready q (Recv buf # ops) =
     sends_ready enq deq ready (snd (snd (deq q buf))) ops"

fun op_ok :: "(bytes \<Rightarrow> bool) \<Rightarrow> chan_op \<Rightarrow> bool" where
  "op_ok okmsg (Send p) = okmsg p"
| "op_ok okmsg (Recv buf) = (length buf \<le> isize_max)"

text \<open>The messages a run accepted and the messages it delivered, in order.\<close>

fun accepted :: "chan_op list \<Rightarrow> chan_obs list \<Rightarrow> bytes list" where
  "accepted (Send p # ops) (Sent (Ok n) # obs) = p # accepted ops obs"
| "accepted (_ # ops) (_ # obs) = accepted ops obs"
| "accepted _ _ = []"

fun delivered :: "chan_obs list \<Rightarrow> bytes list" where
  "delivered (Received (Ok n) buf # obs) = take (unat n) buf # delivered obs"
| "delivered (_ # obs) = delivered obs"
| "delivered [] = []"

subsection \<open>The abstract queue is first-in first-out\<close>

lemma queue_run_fifo:
  assumes "queue_run cap ms ops = (obs, ms')"
    and "\<forall>m \<in> set ms. length m \<le> isize_max" and "\<forall>x \<in> set ops. op_ok (\<lambda>p. length p \<le> isize_max) x"
  shows "ms @ accepted ops obs = delivered obs @ ms'"
  using assms
proof (induction ops arbitrary: ms obs)
  case Nil
  then show ?case by simp
next
  case (Cons op ops)
  show ?case
  proof (cases op)
    case (Send p)
    obtain out ms1 where w: "queue_write cap ms p = (out, ms1)" by fastforce
    obtain obs' where run: "queue_run cap ms1 ops = (obs', ms')" and obs: "obs = Sent out # obs'"
      using Cons.prems(1) Send w by (auto split: prod.splits)
    have "\<forall>m \<in> set ms1. length m \<le> isize_max"
      using Cons.prems(2,3) Send w by (auto simp: queue_write_def split: if_splits)
    with Cons.IH [OF run] Cons.prems(3) have "ms1 @ accepted ops obs' = delivered obs' @ ms'" by simp
    then show ?thesis
      using w by (auto simp: Send obs queue_write_def split: if_splits)
  next
    case (Recv buf)
    obtain out buf' ms1 where r: "queue_read ms buf = (out, buf', ms1)"
      by (cases "queue_read ms buf") auto
    obtain obs' where run: "queue_run cap ms1 ops = (obs', ms')"
      and obs: "obs = Received out buf' # obs'"
      using Cons.prems(1) Recv r by (auto split: prod.splits)
    have "\<forall>m \<in> set ms1. length m \<le> isize_max"
      using Cons.prems(2) r by (auto simp: queue_read_def split: if_splits list.splits)
    with Cons.IH [OF run] Cons.prems(3) have "ms1 @ accepted ops obs' = delivered obs' @ ms'" by simp
    then show ?thesis
      using r Cons.prems(2) by (auto simp: Recv obs queue_read_def split: if_splits list.splits)
  qed
qed

subsection \<open>The interface\<close>

locale bounded_queue =
  fixes rep :: "'q \<Rightarrow> bytes list \<Rightarrow> bool"
    and cap :: "'q \<Rightarrow> nat"
    and ready :: "'q \<Rightarrow> bool"
    and okmsg :: "bytes \<Rightarrow> bool"
    and enq :: "'q \<Rightarrow> bytes \<Rightarrow> (shm_error, usize) outcome \<times> 'q"
    and deq :: "'q \<Rightarrow> bytes \<Rightarrow> (shm_error, usize) outcome \<times> bytes \<times> 'q"
  assumes okmsg_len: "okmsg p \<Longrightarrow> length p \<le> isize_max"
    and enq_refines: "rep q ms \<Longrightarrow> ready q \<Longrightarrow> okmsg p \<Longrightarrow>
      \<exists>q'. enq q p = (fst (queue_write (cap q) ms p), q')
         \<and> rep q' (snd (queue_write (cap q) ms p)) \<and> cap q' = cap q"
    and deq_refines: "rep q ms \<Longrightarrow> length buf \<le> isize_max \<Longrightarrow>
      \<exists>q'. deq q buf = (fst (queue_read ms buf), fst (snd (queue_read ms buf)), q')
         \<and> rep q' (snd (snd (queue_read ms buf))) \<and> cap q' = cap q"
begin

lemma run_refines:
  assumes "rep q ms" "sends_ready enq deq ready q ops" "\<forall>x \<in> set ops. op_ok okmsg x"
  shows "\<exists>q'. chan_run enq deq q ops = (fst (queue_run (cap q) ms ops), q')
    \<and> rep q' (snd (queue_run (cap q) ms ops)) \<and> cap q' = cap q"
  using assms
proof (induction ops arbitrary: q ms)
  case Nil
  then show ?case by simp
next
  case (Cons op ops)
  show ?case
  proof (cases op)
    case (Send p)
    with Cons.prems obtain q1 where q1: "enq q p = (fst (queue_write (cap q) ms p), q1)"
      "rep q1 (snd (queue_write (cap q) ms p))" "cap q1 = cap q"
      using enq_refines by fastforce
    have "sends_ready enq deq ready q1 ops" using Cons.prems(2) Send q1 by simp
    with Cons.IH [OF q1(2)] Cons.prems(3) q1 Send show ?thesis
      by (auto simp: split_def Let_def)
  next
    case (Recv buf)
    with Cons.prems obtain q1 where
      q1: "deq q buf = (fst (queue_read ms buf), fst (snd (queue_read ms buf)), q1)"
      "rep q1 (snd (snd (queue_read ms buf)))" "cap q1 = cap q"
      using deq_refines by fastforce
    have "sends_ready enq deq ready q1 ops" using Cons.prems(2) Recv q1 by simp
    with Cons.IH [OF q1(2)] Cons.prems(3) q1 Recv show ?thesis
      by (auto simp: split_def Let_def)
  qed
qed

lemma run_fifo:
  assumes "rep q []" "sends_ready enq deq ready q ops" "\<forall>x \<in> set ops. op_ok okmsg x"
    and "chan_run enq deq q ops = (obs, q')"
  shows "\<exists>rest. rep q' rest \<and> accepted ops obs = delivered obs @ rest"
proof -
  obtain q1 where q1: "chan_run enq deq q ops = (fst (queue_run (cap q) [] ops), q1)"
    "rep q1 (snd (queue_run (cap q) [] ops))"
    using run_refines [OF assms(1,2,3)] by blast
  have ok: "\<forall>x \<in> set ops. op_ok (\<lambda>p. length p \<le> isize_max) x"
  proof
    fix x assume "x \<in> set ops"
    with assms(3) show "op_ok (\<lambda>p. length p \<le> isize_max) x"
      by (cases x) (auto simp: okmsg_len)
  qed
  have "queue_run (cap q) [] ops = (obs, snd (queue_run (cap q) [] ops))"
    using q1(1) assms(4) by (metis fst_conv prod.collapse)
  from queue_run_fifo [OF this _ ok] q1 assms(4) show ?thesis by auto
qed

end

text \<open>A queue that is ready for every admissible message in every state.\<close>

locale reliable_queue = bounded_queue +
  assumes always_ready: "rep q ms \<Longrightarrow> ready q"
begin

lemma sends_always_ready:
  assumes "rep q ms" "\<forall>x \<in> set ops. op_ok okmsg x"
  shows "sends_ready enq deq ready q ops"
  using assms
proof (induction ops arbitrary: q ms)
  case Nil
  then show ?case by simp
next
  case (Cons op ops)
  have ready: "ready q" using Cons.prems(1) by (rule always_ready)
  show ?case
  proof (cases op)
    case (Send p)
    with Cons.prems ready obtain q1 where "enq q p = (fst (queue_write (cap q) ms p), q1)"
      "rep q1 (snd (queue_write (cap q) ms p))"
      using enq_refines by fastforce
    with Cons.IH Cons.prems(2) ready Send show ?thesis by simp
  next
    case (Recv buf)
    with Cons.prems obtain q1 where
      "deq q buf = (fst (queue_read ms buf), fst (snd (queue_read ms buf)), q1)"
      "rep q1 (snd (snd (queue_read ms buf)))"
      using deq_refines by fastforce
    with Cons.IH Cons.prems(2) Recv show ?thesis by simp
  qed
qed

lemmas reliable_fifo = run_fifo [OF _ sends_always_ready]

end

subsection \<open>The ring provides it\<close>

interpretation rq: bounded_queue ring_rep ring_cap prefix_fits
  "\<lambda>p. length p \<le> isize_max" ring_write ring_read
  by unfold_locales (blast elim: ring_write_refines ring_read_refines)+

text \<open>One message through an empty ring that has room for it before the end of its area.\<close>

lemma ring_one_message:
  assumes rep: "ring_rep r []" and room: "ring_wp r + length m + 8 \<le> ring_cap r"
    and buf: "length m \<le> length buf" "length buf \<le> isize_max"
  obtains r1 r2 where "ring_write r m = (Ok (len_usize m), r1)" "prefix_fits r1"
    and "ring_read r1 buf = (Ok (len_usize m), m @ drop (length m) buf, r2)" "prefix_fits r2"
    and "ring_rep r2 []" and "\<And>b. ring_read r2 b = (Err BufferEmpty, b, r2)"
proof -
  have wf: "ring_wf r" using rep by (rule ring_rep_wf)
  have used: "ring_used r = 0" using ring_rep_used [OF rep] by simp
  have fits: "prefix_fits r" using room by (simp add: prefix_fits_def)
  let ?r1 = "ring_pushed r m" and ?r2 = "ring_popped (ring_pushed r m) m"
  have lt: "ring_used r + 4 + length m < ring_cap r" using room used by simp
  have rep1: "ring_rep ?r1 [m]" using ring_pushed_rep [OF rep lt] by simp
  have "ring_wp ?r1 = ring_wp r + (4 + length m)"
    using room by (simp add: ring_pushed_wp [OF wf lt])
  then have fits1: "prefix_fits ?r1" using room by (simp add: prefix_fits_def)
  show ?thesis
  proof (rule that)
    show "ring_write r m = (Ok (len_usize m), ?r1)" using wf lt fits by (rule ring_write_room)
    show "prefix_fits ?r1" by (rule fits1)
    show "ring_read ?r1 buf = (Ok (len_usize m), m @ drop (length m) buf, ?r2)"
      using ring_read_front [OF rep1 buf(2)] buf(1) by simp
    show "prefix_fits ?r2" using fits1 by (simp add: prefix_fits_def)
    show "ring_rep ?r2 []" by (rule ring_popped_rep [OF rep1])
    show "ring_read ?r2 b = (Err BufferEmpty, b, ?r2)" for b
      by (rule ring_read_empty [OF ring_popped_rep [OF rep1]])
  qed
qed

text \<open>Two messages into an empty ring, the first of them out again.\<close>

lemma ring_two_messages:
  assumes rep: "ring_rep r []" and room: "ring_wp r + length m + length m' + 12 \<le> ring_cap r"
    and buf: "length m \<le> length buf" "length buf \<le> isize_max"
  obtains r1 r2 r3 where "ring_write r m = (Ok (len_usize m), r1)" "prefix_fits r1"
    and "ring_write r1 m' = (Ok (len_usize m'), r2)" "prefix_fits r2"
    and "ring_read r2 buf = (Ok (len_usize m), m @ drop (length m) buf, r3)" "prefix_fits r3"
    and "ring_rep r3 [m']"
proof -
  have wf: "ring_wf r" using rep by (rule ring_rep_wf)
  have used: "ring_used r = 0" using ring_rep_used [OF rep] by simp
  have fits: "prefix_fits r" using room by (simp add: prefix_fits_def)
  let ?r1 = "ring_pushed r m" and ?r2 = "ring_pushed (ring_pushed r m) m'"
  have lt: "ring_used r + 4 + length m < ring_cap r" using room used by simp
  have rep1: "ring_rep ?r1 [m]" using ring_pushed_rep [OF rep lt] by simp
  have wf1: "ring_wf ?r1" using rep1 by (rule ring_rep_wf)
  have wp1: "ring_wp ?r1 = ring_wp r + (4 + length m)"
    using room by (simp add: ring_pushed_wp [OF wf lt])
  then have fits1: "prefix_fits ?r1" using room by (simp add: prefix_fits_def)
  have lt1: "ring_used ?r1 + 4 + length m' < ring_cap ?r1"
    using room ring_rep_used [OF rep1] by simp
  have rep2: "ring_rep ?r2 [m, m']" using ring_pushed_rep [OF rep1 lt1] by simp
  have "ring_wp ?r2 = ring_wp r + (8 + length m + length m')"
    using room by (simp add: ring_pushed_wp [OF wf1 lt1] wp1)
  then have fits2: "prefix_fits ?r2" using room by (simp add: prefix_fits_def)
  show ?thesis
  proof (rule that)
    show "ring_write r m = (Ok (len_usize m), ?r1)" using wf lt fits by (rule ring_write_room)
    show "prefix_fits ?r1" by (rule fits1)
    show "ring_write ?r1 m' = (Ok (len_usize m'), ?r2)" using wf1 lt1 fits1 by (rule ring_write_room)
    show "prefix_fits ?r2" by (rule fits2)
    show "ring_read ?r2 buf = (Ok (len_usize m), m @ drop (length m) buf, ring_popped ?r2 m)"
      using ring_read_front [OF rep2 buf(2)] buf(1) by simp
    show "prefix_fits (ring_popped ?r2 m)" using fits2 by (simp add: prefix_fits_def)
    show "ring_rep (ring_popped ?r2 m) [m']" using rep2 by (rule ring_popped_rep)
  qed
qed

text \<open>
  With a capacity that is a multiple of four, and only such messages, the write position stays
  a multiple of four and every prefix fits.
\<close>

definition aligned :: "ring \<Rightarrow> bool" where
  "aligned r \<longleftrightarrow> 4 dvd ring_cap r \<and> 4 dvd ring_wp r"

lemma aligned_prefix_fits: "ring_wf r \<Longrightarrow> aligned r \<Longrightarrow> prefix_fits r"
  unfolding ring_wf_def aligned_def prefix_fits_def by presburger

lemma ring_write_aligned:
  assumes rep: "ring_rep r ms" and al: "aligned r" and dv: "4 dvd length payload"
    and len: "length payload \<le> isize_max"
  shows "aligned (snd (ring_write r payload))"
proof (cases "ring_used r + 4 + length payload < ring_cap r")
  case True
  note wf = ring_rep_wf [OF rep]
  have "ring_write r payload = (Ok (len_usize payload), ring_pushed r payload)"
    using wf True aligned_prefix_fits [OF wf al] by (rule ring_write_room)
  moreover have "4 dvd (ring_wp r + (4 + length payload)) mod ring_cap r"
    using al dv by (simp add: aligned_def dvd_mod)
  ultimately show ?thesis
    using al True wf by (simp add: aligned_def ring_pushed_wp)
next
  case False
  with al rep len show ?thesis by (simp add: ring_write_full ring_rep_wf)
qed

definition aligned_rep :: "ring \<Rightarrow> bytes list \<Rightarrow> bool" where
  "aligned_rep r ms \<longleftrightarrow> ring_rep r ms \<and> aligned r"

definition aligned_msg :: "bytes \<Rightarrow> bool" where
  "aligned_msg p \<longleftrightarrow> 4 dvd length p \<and> length p \<le> isize_max"

interpretation aq: reliable_queue aligned_rep ring_cap prefix_fits aligned_msg ring_write ring_read
proof unfold_locales
  fix r ms p assume a: "aligned_rep r ms" "prefix_fits r" "aligned_msg p"
  then obtain r' where r': "ring_write r p = (fst (queue_write (ring_cap r) ms p), r')"
    "ring_rep r' (snd (queue_write (ring_cap r) ms p))" "ring_cap r' = ring_cap r"
    unfolding aligned_rep_def aligned_msg_def by (blast elim: ring_write_refines)
  have "aligned (snd (ring_write r p))"
    using a ring_write_aligned by (auto simp: aligned_rep_def aligned_msg_def)
  with r' show "\<exists>q'. ring_write r p = (fst (queue_write (ring_cap r) ms p), q')
      \<and> aligned_rep q' (snd (queue_write (ring_cap r) ms p)) \<and> ring_cap q' = ring_cap r"
    by (simp add: aligned_rep_def)
next
  fix r ms buf assume a: "aligned_rep r ms" "length (buf :: bytes) \<le> isize_max"
  then obtain r' where
    "ring_read r buf = (fst (queue_read ms buf), fst (snd (queue_read ms buf)), r')"
    "ring_rep r' (snd (snd (queue_read ms buf)))" "ring_cap r' = ring_cap r" "ring_wp r' = ring_wp r"
    unfolding aligned_rep_def by (blast elim: ring_read_refines)
  with a(1) show "\<exists>q'. ring_read r buf = (fst (queue_read ms buf), fst (snd (queue_read ms buf)), q')
      \<and> aligned_rep q' (snd (snd (queue_read ms buf))) \<and> ring_cap q' = ring_cap r"
    by (simp add: aligned_rep_def aligned_def)
next
  fix r ms assume "aligned_rep r ms"
  then show "prefix_fits r"
    by (auto simp: aligned_rep_def intro: aligned_prefix_fits ring_rep_wf)
qed (simp add: aligned_msg_def)

end
