(* ===== verification/Ring_Straddle.thy ===== *)
theory Ring_Straddle
  imports Message_Queue
begin

section \<open>The length prefix at the end of the ring\<close>

text \<open>
  \<open>write\<close> copies the four bytes of the length prefix in one piece to \<open>write_pos\<close>, without
  wrapping, while \<open>read\<close> fetches the same four bytes modulo the capacity. When fewer than
  four bytes remain before the end, the copy leaves the area: it is out of bounds when nothing
  is mapped behind the area, and where the last page extends further the reader meets stale
  bytes from the start of the area.
\<close>

lemma ring_write_straddle_fault:
  assumes wf: "ring_wf r" and tight: "length (area r) = ring_cap r"
    and room: "ring_used r + 4 + length payload < ring_cap r" and strad: "\<not> prefix_fits r"
  shows "ring_write r payload = (Fault OutOfBounds, r)"
proof -
  have len: "length payload \<le> isize_max"
    using wf room by (auto simp: ring_wf_def isize_max_def)
  have "\<not> write_available (header r) < 4 + len_usize payload"
    using write_full_iff [OF wf len] room by simp
  moreover have "copy_nonoverlapping (u32_to_le_bytes (ucast (len_usize payload))) 0 (area r)
      (unat (write_pos (header r))) 4 = None"
    using strad tight by (simp add: copy_nonoverlapping_def prefix_fits_def ring_wp_def)
  ultimately show ?thesis by (simp add: ring_write_def Let_def)
qed

text \<open>On the memory alone: four bytes stored contiguously across the end, then a payload stored
  modulo the capacity from behind them.\<close>

lemma straddled_bytes:
  assumes w: "w < cap" "cap < w + 4" and cap: "cap \<le> length a" and room: "4 + length payload < cap"
    and pre: "length pre = 4" and c1: "copy_nonoverlapping pre 0 a w 4 = Some m1"
  defines "k \<equiv> cap - w" and "s \<equiv> w + 4 - cap"
  shows "cyc_read (cyc_write m1 cap s payload) cap w 4 = take k pre @ take (4 - k) a"
proof (rule nth_equalityI)
  have k: "0 < k" "k < 4" and slt: "s < cap" using w room by (auto simp: k_def s_def)
  have len1: "length m1 = length a" using c1 by (rule copy_nonoverlapping_length)
  show "length (cyc_read (cyc_write m1 cap s payload) cap w 4) = length (take k pre @ take (4 - k) a)"
    using k cap room pre by simp
  fix i assume "i < length (cyc_read (cyc_write m1 cap s payload) cap w 4)"
  then have i: "i < 4" by simp
  define j where "j = (w + i) mod cap"
  have jcap: "j < cap" using w(1) by (simp add: j_def)
  then have jlen: "j < length a" using cap by simp
  have untouched: "\<not> (j + cap - s) mod cap < length payload"
  proof
    assume less: "(j + cap - s) mod cap < length payload"
    define d where "d = (j + cap - s) mod cap"
    have "(s + d) mod cap = j" unfolding d_def by (rule cyc_position [OF slt jcap])
    moreover have "w + 4 = s + cap" using w by (simp add: s_def)
    then have "(s + d) mod cap = (w + (4 + d)) mod cap" by (metis add.assoc add.commute mod_add_self2)
    ultimately have "(w + (4 + d)) mod cap = (w + i) mod cap" by (simp add: j_def)
    then have "4 + d = i" using less room i mod_offset_inj [of "4 + d" cap i w] by (simp add: d_def)
    with i show False by simp
  qed
  have "cyc_read (cyc_write m1 cap s payload) cap w 4 ! i = m1 ! j"
    using i jlen jcap untouched len1 by (simp add: j_def [symmetric] cyc_write_nth)
  also have "\<dots> = (take k pre @ take (4 - k) a) ! i"
  proof (cases "i < k")
    case True
    then have "j = w + i" by (simp add: j_def k_def)
    then have "m1 ! j = pre ! i" using i copy_nonoverlapping_nth [OF c1 jlen] by simp
    with True i pre show ?thesis by (simp add: nth_append)
  next
    case False
    have "w + i = (i - k) + cap" using False w(1) by (simp add: k_def)
    then have "j = (i - k) mod cap" unfolding j_def by (simp only: mod_add_self2)
    then have j: "j = i - k" using i room by simp
    have "\<not> (w \<le> j \<and> j < w + 4)" using j False i k w room unfolding k_def by linarith
    then have "m1 ! j = a ! j" using copy_nonoverlapping_nth [OF c1 jlen] by auto
    with j False i k pre show ?thesis by (simp add: nth_append)
  qed
  finally show "cyc_read (cyc_write m1 cap s payload) cap w 4 ! i = (take k pre @ take (4 - k) a) ! i" .
qed

text \<open>
  With at least three mapped bytes behind the area the write goes through. The reader then
  decodes the part of the prefix before the end followed by the stale bytes.
\<close>

lemma ring_write_straddle_slack:
  assumes wf: "ring_wf r" and slack: "ring_wp r + 4 \<le> length (area r)"
    and room: "ring_used r + 4 + length payload < ring_cap r" and strad: "\<not> prefix_fits r"
  defines "k \<equiv> ring_cap r - ring_wp r"
  obtains r' where "ring_write r payload = (Ok (len_usize payload), r')"
    and "ring_cap r' = ring_cap r" and "ring_rp r' = ring_rp r" and "ring_wf r'"
    and "cyc_read (area r') (ring_cap r) (ring_wp r) 4
       = take k (le_encode 4 (length payload)) @ take (4 - k) (area r)"
proof -
  let ?h = "header r" and ?cap = "ring_cap r" and ?w = "ring_wp r"
  let ?pre = "le_encode 4 (length payload)"
  have bounds: "?w < ?cap" "?cap \<le> 2 ^ 32" "?cap \<le> length (area r)"
    using wf by (simp_all add: ring_wf_def)
  have k: "0 < k" "k < 4" using bounds strad by (auto simp: k_def prefix_fits_def)
  have lenp: "length payload < 2 ^ 32" using room bounds by linarith
  have notfull: "\<not> write_available ?h < 4 + len_usize payload"
    using write_full_iff [OF wf, of payload] room lenp by (simp add: isize_max_def)
  have cap0: "capacity ?h \<noteq> 0" using bounds(1) by (auto simp: ring_cap_def)
  obtain m1 where c1: "copy_nonoverlapping ?pre 0 (area r) ?w 4 = Some m1"
    using slack copy_nonoverlapping_Some [of 0 4 ?pre ?w "area r"] by auto
  have len1: "length m1 = length (area r)" using c1 by (rule copy_nonoverlapping_length)
  define s where "s = ?w + 4 - ?cap"
  have start: "unat ((write_pos ?h + 4) mod capacity ?h) = s"
  proof -
    have "unat ((write_pos ?h + 4) mod capacity ?h) = (?w + 4) mod ?cap"
      unfolding ring_wp_def ring_cap_def using bounds
      by (intro advance_nat) (auto simp: ring_nat_defs)
    also have "\<dots> = s"
    proof -
      have "?w + 4 = s + ?cap" using strad by (simp add: s_def prefix_fits_def)
      then have "(?w + 4) mod ?cap = s mod ?cap" by (simp only: mod_add_self2)
      moreover have "s < ?cap" using bounds(1) room unfolding s_def by linarith
      ultimately show ?thesis by simp
    qed
    finally show ?thesis .
  qed
  have slt: "s < ?cap" using bounds strad room by (simp add: s_def prefix_fits_def)
  have c2: "write_payload m1 (capacity ?h) ((write_pos ?h + 4) mod capacity ?h) payload
      = Some (cyc_write m1 ?cap s payload)"
    using write_payload_cyc [of "(write_pos ?h + 4) mod capacity ?h" "capacity ?h" m1 payload]
      start bounds room slt len1 by (simp add: ring_cap_def [symmetric])
  define r' where "r' = r\<lparr>area := cyc_write m1 ?cap s payload,
      header := ?h\<lparr>write_pos := (write_pos ?h + (4 + len_usize payload)) mod capacity ?h\<rparr>\<rparr>"
  have w: "ring_write r payload = (Ok (len_usize payload), r')"
    using notfull cap0 c1 c2 prefix_bytes [OF lenp]
    by (simp add: ring_write_def Let_def ring_wp_def r'_def)
  have wf': "ring_wf r'"
    using wf len1 cap0
    by (simp add: ring_wf_def r'_def ring_nat_defs unat_mod)
  have "cyc_read (area r') ?cap ?w 4 = take k ?pre @ take (4 - k) (area r)"
    using straddled_bytes [OF bounds(1) _ bounds(3) _ _ c1, of payload] strad room
    by (simp add: r'_def k_def s_def prefix_fits_def)
  with w wf' that [of r'] show ?thesis by (simp add: r'_def ring_nat_defs)
qed

end
