(* ===== verification/Ring_Lifecycle.thy ===== *)
theory Ring_Lifecycle
  imports Ring_Straddle
begin

section \<open>Creating and opening a ring\<close>

text \<open>
  \<open>create\<close> and \<open>open\<close> against the documented behaviour of POSIX shared memory
  (\<^verbatim>\<open>shm_open(3)\<close>, \<^verbatim>\<open>ftruncate(2)\<close>, \<^verbatim>\<open>mmap(2)\<close> with \<^verbatim>\<open>MAP_SHARED\<close>): \<open>obj os\<close> are the
  named objects with their bytes, \<open>bound os\<close> the descriptors. Any call may still fail for
  reasons of its own. \<open>ref_sys\<close> is one system that behaves so, used to instantiate the
  theorems.
\<close>

definition shm_excl :: "oflag list" where
  "shm_excl = [O_CREAT, O_RDWR, O_EXCL]"

definition shm_zero_extend :: "bytes \<Rightarrow> nat \<Rightarrow> bytes" where
  "shm_zero_extend m n = take n m @ replicate (n - length m) 0"

definition posix_open_laws ::
  "'os shm_sys \<Rightarrow> ('os \<Rightarrow> string \<Rightarrow> bytes option) \<Rightarrow> ('os \<Rightarrow> int \<Rightarrow> string option) \<Rightarrow> bool" where
  "posix_open_laws sys obj bound \<longleftrightarrow>
     (\<forall>name md os. obj os name \<noteq> None \<longrightarrow>
        sys_shm_open sys name shm_excl md os = (Inl EEXIST, os))
   \<and> (\<forall>name md os fd os'. sys_shm_open sys name shm_excl md os = (Inr fd, os') \<longrightarrow>
        obj os' = (obj os)(name \<mapsto> []) \<and> bound os' fd = Some name)
   \<and> (\<forall>name md os fd os'. sys_shm_open sys name [O_RDWR] md os = (Inr fd, os') \<longrightarrow>
        obj os name \<noteq> None \<and> obj os' = obj os \<and> bound os' fd = Some name)
   \<and> (\<forall>name flags md os e os'. sys_shm_open sys name flags md os = (Inl e, os') \<longrightarrow> obj os' = obj os)"

definition posix_map_laws ::
  "'os shm_sys \<Rightarrow> ('os \<Rightarrow> string \<Rightarrow> bytes option) \<Rightarrow> ('os \<Rightarrow> int \<Rightarrow> string option) \<Rightarrow> bool" where
  "posix_map_laws sys obj bound \<longleftrightarrow>
     (\<forall>fd n os u os' name m. sys_ftruncate sys fd n os = (Inr u, os') \<longrightarrow>
        bound os fd = Some name \<longrightarrow> obj os name = Some m \<longrightarrow>
        obj os' = (obj os)(name \<mapsto> shm_zero_extend m (nat n)) \<and> bound os' = bound os)
   \<and> (\<forall>fd n os e os'. sys_ftruncate sys fd n os = (Inl e, os') \<longrightarrow> obj os' = obj os)
   \<and> (\<forall>fd os m os' name. sys_map_mut sys fd os = (Inr m, os') \<longrightarrow> bound os fd = Some name \<longrightarrow>
        obj os name = Some m \<and> obj os' = obj os \<and> bound os' = bound os)
   \<and> (\<forall>fd os e os'. sys_map_mut sys fd os = (Inl e, os') \<longrightarrow> obj os' = obj os)
   \<and> (\<forall>fd m os name. bound os fd = Some name \<longrightarrow>
        obj (sys_store sys fd m os) = (obj os)(name \<mapsto> m))"

definition posix_shm ::
  "'os shm_sys \<Rightarrow> ('os \<Rightarrow> string \<Rightarrow> bytes option) \<Rightarrow> ('os \<Rightarrow> int \<Rightarrow> string option) \<Rightarrow> bool" where
  "posix_shm sys obj bound \<longleftrightarrow> posix_open_laws sys obj bound \<and> posix_map_laws sys obj bound"

lemma posix_excl_exists:
  "posix_shm sys obj bound \<Longrightarrow> obj os name \<noteq> None \<Longrightarrow>
     sys_shm_open sys name shm_excl md os = (Inl EEXIST, os)"
  unfolding posix_shm_def posix_open_laws_def by blast

lemma posix_excl_opened:
  assumes "posix_shm sys obj bound" "sys_shm_open sys name shm_excl md os = (Inr fd, os')"
  shows "obj os name = None" "obj os' = (obj os)(name \<mapsto> [])" "bound os' fd = Some name"
proof -
  show "obj os name = None"
    using posix_excl_exists [OF assms(1), of os name md] assms(2) by (cases "obj os name") auto
  show "obj os' = (obj os)(name \<mapsto> [])" "bound os' fd = Some name"
    using assms unfolding posix_shm_def posix_open_laws_def by blast+
qed

lemma posix_opened:
  assumes "posix_shm sys obj bound" "sys_shm_open sys name [O_RDWR] md os = (Inr fd, os')"
  shows "obj os name \<noteq> None" "obj os' = obj os" "bound os' fd = Some name"
  using assms unfolding posix_shm_def posix_open_laws_def by blast+

lemma posix_open_failed:
  "posix_shm sys obj bound \<Longrightarrow> sys_shm_open sys name flags md os = (Inl e, os') \<Longrightarrow> obj os' = obj os"
  unfolding posix_shm_def posix_open_laws_def by blast

lemma posix_truncated:
  assumes "posix_shm sys obj bound" "sys_ftruncate sys fd n os = (Inr u, os')"
    and "bound os fd = Some name" "obj os name = Some m"
  shows "obj os' = (obj os)(name \<mapsto> shm_zero_extend m (nat n))" "bound os' = bound os"
proof -
  have "\<forall>fd n os u os' name m. sys_ftruncate sys fd n os = (Inr u, os') \<longrightarrow>
        bound os fd = Some name \<longrightarrow> obj os name = Some m \<longrightarrow>
        obj os' = (obj os)(name \<mapsto> shm_zero_extend m (nat n)) \<and> bound os' = bound os"
    using assms(1) unfolding posix_shm_def posix_map_laws_def by (elim conjE)
  from this [rule_format, OF assms(2,3,4)]
  show "obj os' = (obj os)(name \<mapsto> shm_zero_extend m (nat n))" "bound os' = bound os"
    by simp_all
qed

lemma posix_mapped:
  assumes "posix_shm sys obj bound" "sys_map_mut sys fd os = (Inr m, os')"
    and "bound os fd = Some name"
  shows "obj os name = Some m" "obj os' = obj os" "bound os' = bound os"
  using assms unfolding posix_shm_def posix_map_laws_def by blast+

lemma posix_failed:
  assumes "posix_shm sys obj bound"
  shows "sys_ftruncate sys fd n os = (Inl e, os') \<Longrightarrow> obj os' = obj os"
    and "sys_map_mut sys fd os = (Inl e, os') \<Longrightarrow> obj os' = obj os"
  using assms unfolding posix_shm_def posix_map_laws_def by blast+

lemma posix_stored:
  "posix_shm sys obj bound \<Longrightarrow> bound os fd = Some name \<Longrightarrow>
     obj (sys_store sys fd m os) = (obj os)(name \<mapsto> m)"
  unfolding posix_shm_def posix_map_laws_def by blast

subsection \<open>The header in memory\<close>

lemma length_header_to_bytes [simp]: "length (header_to_bytes h) = 32"
  by (simp add: header_to_bytes_def)

lemma drop_header [simp]: "drop header_size (header_to_bytes h) = []" "header_size - 32 = 0"
  by (simp_all add: header_size_def)

lemma header_roundtrip: "header_from_bytes (header_to_bytes h @ rest) = h"
  by (simp add: header_from_bytes_def header_to_bytes_def)

subsection \<open>A fresh ring\<close>

definition fresh_ring :: "usize \<Rightarrow> bytes \<Rightarrow> ring" where
  "fresh_ring n m = \<lparr>header = RingBufferHeader_new n, area = m,
     data_offset = of_nat header_size, data_size = n\<rparr>"

lemma fresh_ring_nat [simp]:
  "ring_cap (fresh_ring n m) = unat n" "ring_wp (fresh_ring n m) = 0"
  "ring_rp (fresh_ring n m) = 0" "area (fresh_ring n m) = m"
  by (simp_all add: fresh_ring_def RingBufferHeader_new_def ring_nat_defs)

lemma fresh_ring_rep:
  "0 < unat n \<Longrightarrow> unat n \<le> 2 ^ 32 \<Longrightarrow> unat n \<le> length m \<Longrightarrow> ring_rep (fresh_ring n m) []"
  by (simp add: ring_rep_def ring_wf_def ring_stream_def ring_used_def)

lemma fresh_ring_aligned:
  "0 < unat n \<Longrightarrow> unat n \<le> 2 ^ 32 \<Longrightarrow> unat n \<le> length m \<Longrightarrow> 4 dvd unat n \<Longrightarrow>
     aligned_rep (fresh_ring n m) []"
  by (simp add: aligned_rep_def aligned_def fresh_ring_rep)

definition total_bytes :: "ShmConfig \<Rightarrow> nat" where
  "total_bytes config = header_size + unat (buffer_size config)"

lemma total_size_sint:
  assumes "total_bytes config < 2 ^ 63"
  shows "nat (sint (of_nat header_size + buffer_size config)) = total_bytes config"
proof -
  let ?t = "of_nat header_size + buffer_size config :: usize"
  have u: "unat ?t = total_bytes config"
    using assms by (subst unat_add_small) (auto simp: total_bytes_def header_size_def)
  then have "uint ?t < 2 ^ 63" using assms by (simp add: uint_nat)
  then have "sint ?t = uint ?t"
    unfolding sint_uint by (intro signed_take_bit_int_eq_self) (auto intro: order_trans [of _ 0])
  then show ?thesis using u by (simp add: uint_nat)
qed

text \<open>What a successful \<open>create\<close> leaves behind, and what a failed one does.\<close>

lemma ring_create_Ok:
  assumes laws: "posix_shm sys obj bound" and size: "total_bytes config < 2 ^ 63"
    and ok: "ring_create sys name config os = (Ok r, os')"
  shows "r = fresh_ring (buffer_size config) (replicate (unat (buffer_size config)) 0)"
    and "obj os name = None"
    and "obj os' = (obj os)(name \<mapsto> header_to_bytes (header r) @ area r)"
proof -
  let ?sys = "sys_shm_open sys name shm_excl [S_IRUSR, S_IWUSR] os"
  obtain fd os1 where o1: "?sys = (Inr fd, os1)"
    using ok by (auto simp: ring_create_def shm_excl_def Let_def split: prod.splits sum.splits)
  note ob1 = posix_excl_opened [OF laws o1]
  show "obj os name = None" by (rule ob1(1))
  obtain u os2 where o2: "sys_ftruncate sys fd (sint (of_nat header_size + buffer_size config)) os1
      = (Inr u, os2)"
    using ok o1 by (auto simp: ring_create_def shm_excl_def Let_def split: prod.splits sum.splits)
  have "obj os1 name = Some []" using ob1(2) by simp
  note tr = posix_truncated [OF laws o2 ob1(3) this]
  have ob2: "obj os2 = (obj os)(name \<mapsto> replicate (total_bytes config) 0)" "bound os2 fd = Some name"
    using tr ob1 total_size_sint [OF size] by (auto simp: shm_zero_extend_def fun_eq_iff)
  obtain m os3 where o3: "sys_map_mut sys fd os2 = (Inr m, os3)"
    using ok o1 o2 by (auto simp: ring_create_def shm_excl_def Let_def split: prod.splits sum.splits)
  note mp = posix_mapped [OF laws o3 ob2(2)]
  have ob3: "m = replicate (total_bytes config) 0" "obj os3 = obj os2" "bound os3 fd = Some name"
    using mp ob2 by simp_all
  have c: "copy_nonoverlapping (header_to_bytes h) 0 m 0 header_size
      = Some (header_to_bytes h @ replicate (unat (buffer_size config)) 0)" for h
    by (simp add: copy_nonoverlapping_def ob3 total_bytes_def header_size_def)
  have "(Ok r, os') = (Ok (fresh_ring (buffer_size config) (replicate (unat (buffer_size config)) 0)),
      sys_store sys fd (header_to_bytes (RingBufferHeader_new (buffer_size config))
        @ replicate (unat (buffer_size config)) 0) os3)"
    using ok o1 o2 o3 by (simp add: ring_create_def shm_excl_def Let_def c fresh_ring_def)
  then have r: "r = fresh_ring (buffer_size config) (replicate (unat (buffer_size config)) 0)"
    and os': "os' = sys_store sys fd (header_to_bytes (RingBufferHeader_new (buffer_size config))
        @ replicate (unat (buffer_size config)) 0) os3" by simp_all
  show "r = fresh_ring (buffer_size config) (replicate (unat (buffer_size config)) 0)" by (rule r)
  have "obj os' = (obj os3)(name \<mapsto> header_to_bytes (RingBufferHeader_new (buffer_size config))
        @ replicate (unat (buffer_size config)) 0)"
    unfolding os' using laws ob3(3) by (rule posix_stored)
  then show "obj os' = (obj os)(name \<mapsto> header_to_bytes (header r) @ area r)"
    by (simp add: r ob3 ob2 fresh_ring_def)
qed

lemma ring_create_exists:
  assumes "posix_shm sys obj bound" "obj os name \<noteq> None"
  shows "ring_create sys name config os = (Err (Nix EEXIST), os)"
  using posix_excl_exists [OF assms, of "[S_IRUSR, S_IWUSR]"]
  by (simp add: shm_excl_def ring_create_def Let_def)

text \<open>Opening an object that exists: the outcome is decided by its bytes.\<close>

lemma ring_open_existing:
  assumes laws: "posix_shm sys obj bound" and ob: "obj os name = Some m"
  obtains e os' where "ring_open sys name config os = (Err (Nix e), os')"
  | e os' where "ring_open sys name config os = (Err (Io e), os')"
  | os' where "obj os' = obj os" and "ring_open sys name config os =
      (if length m < header_size then (Fault OutOfBounds, os')
       else if magic (header_from_bytes m) \<noteq> MAGIC then (Err InvalidState, os')
       else (Ok \<lparr>header = header_from_bytes m, area = drop header_size m,
                 data_offset = of_nat header_size, data_size = buffer_size config\<rparr>, os'))"
proof (cases "sys_shm_open sys name [O_RDWR] [S_IRUSR, S_IWUSR] os")
  case (Pair res1 os1)
  note opened = Pair
  show ?thesis
  proof (cases res1)
    case (Inl e)
    with Pair that(1) show ?thesis by (simp add: ring_open_def)
  next
    case (Inr fd)
    with Pair have "sys_shm_open sys name [O_RDWR] [S_IRUSR, S_IWUSR] os = (Inr fd, os1)" by simp
    note ob1 = posix_opened [OF laws this]
    show ?thesis
    proof (cases "sys_map_mut sys fd os1")
      case (Pair res2 os2)
      show ?thesis
      proof (cases res2)
        case (Inl e)
        with opened \<open>res1 = Inr fd\<close> Pair that(2) show ?thesis
          by (simp add: ring_open_def)
      next
        case (Inr m')
        with Pair have "sys_map_mut sys fd os1 = (Inr m', os2)" by simp
        note mp = posix_mapped [OF laws this ob1(3)]
        with ob ob1 have "m' = m" "obj os2 = obj os" by simp_all
        with opened \<open>res1 = Inr fd\<close> Pair Inr that(3) [of os2] show ?thesis
          by (simp add: ring_open_def Let_def is_valid_def)
      qed
    qed
  qed
qed

lemma ring_open_created:
  assumes laws: "posix_shm sys obj bound"
    and ob: "obj os name = Some (header_to_bytes (header r) @ area r)"
    and r: "r = fresh_ring (buffer_size config) m"
  shows "case fst (ring_open sys name config os) of
      Ok r' \<Rightarrow> r' = r | Err e \<Rightarrow> \<exists>c. e = Nix c \<or> e = Io c | Fault _ \<Rightarrow> False"
proof (rule ring_open_existing [OF laws ob, where config = config])
  fix os' assume "ring_open sys name config os =
      (if length (header_to_bytes (header r) @ area r) < header_size then (Fault OutOfBounds, os')
       else if magic (header_from_bytes (header_to_bytes (header r) @ area r)) \<noteq> MAGIC
       then (Err InvalidState, os')
       else (Ok \<lparr>header = header_from_bytes (header_to_bytes (header r) @ area r),
                 area = drop header_size (header_to_bytes (header r) @ area r),
                 data_offset = of_nat header_size, data_size = buffer_size config\<rparr>, os'))"
  then show ?thesis
    by (simp add: header_size_def header_roundtrip r fresh_ring_def RingBufferHeader_new_def)
qed auto

subsection \<open>A reference system\<close>

record shm_model =
  objs :: "string \<Rightarrow> bytes option"
  fds :: "(int \<times> string) list"

definition ref_bound :: "'z shm_model_scheme \<Rightarrow> int \<Rightarrow> string option" where
  "ref_bound os fd = map_of (fds os) fd"

definition ref_fd :: "'z shm_model_scheme \<Rightarrow> string \<Rightarrow> int \<times> 'z shm_model_scheme" where
  "ref_fd os name = (int (length (fds os)) + 3,
     os\<lparr>fds := (int (length (fds os)) + 3, name) # fds os\<rparr>)"

definition ref_sys :: "'z shm_model_scheme shm_sys" where
  "ref_sys =
     \<lparr>sys_shm_open = (\<lambda>name flags md os.
        if O_CREAT \<in> set flags then
          if objs os name \<noteq> None then (Inl EEXIST, os)
          else let (fd, os') = ref_fd os name in (Inr fd, os'\<lparr>objs := (objs os)(name \<mapsto> [])\<rparr>)
        else if objs os name = None then (Inl ENOENT, os)
        else let (fd, os') = ref_fd os name in (Inr fd, os')),
      sys_ftruncate = (\<lambda>fd n os. case ref_bound os fd of
          None \<Rightarrow> (Inl (OtherErrno 9), os)
        | Some name \<Rightarrow> (case objs os name of
            None \<Rightarrow> (Inl (OtherErrno 9), os)
          | Some m \<Rightarrow> (Inr (), os\<lparr>objs := (objs os)(name \<mapsto> shm_zero_extend m (nat n))\<rparr>))),
      sys_map_mut = (\<lambda>fd os. case ref_bound os fd of
          None \<Rightarrow> (Inl (OtherErrno 9), os)
        | Some name \<Rightarrow> (case objs os name of
            None \<Rightarrow> (Inl (OtherErrno 9), os) | Some m \<Rightarrow> (Inr m, os))),
      sys_store = (\<lambda>fd m os. case ref_bound os fd of
          None \<Rightarrow> os | Some name \<Rightarrow> os\<lparr>objs := (objs os)(name \<mapsto> m)\<rparr>)\<rparr>"

definition ref_os :: shm_model where
  "ref_os = \<lparr>objs = (\<lambda>_. None), fds = []\<rparr>"

lemma ref_sys_open_laws: "posix_open_laws ref_sys objs ref_bound"
  by (auto simp: posix_open_laws_def ref_sys_def shm_excl_def ref_fd_def ref_bound_def
      split: if_splits)

lemma ref_sys_map_laws: "posix_map_laws ref_sys objs ref_bound"
  by (auto simp: posix_map_laws_def ref_sys_def ref_bound_def fun_eq_iff split: option.splits)

lemma ref_sys_posix: "posix_shm ref_sys objs ref_bound"
  by (simp add: posix_shm_def ref_sys_open_laws ref_sys_map_laws)

end
