(* ===== verification/Ring_Properties.thy ===== *)
theory Ring_Properties
  imports Ring_Lifecycle
begin

section \<open>Properties of the ring buffer\<close>

text \<open>
  The statements about \<^verbatim>\<open>shm.rs\<close>: refinement of the bounded queue per operation and per
  run, the error branches, head-of-line blocking, the straddling prefix, and create / open.
\<close>

subsection \<open>Runs against an oversized head\<close>

lemma queue_run_blocked:
  assumes "queue_run cap (m # ms) ops = (obs, ms')"
    and "\<forall>buf. Recv buf \<in> set ops \<longrightarrow> length buf < length m"
  shows "delivered obs = [] \<and> (\<exists>rest. ms' = m # rest)"
  using assms
proof (induction ops arbitrary: ms obs)
  case Nil
  then show ?case by auto
next
  case (Cons op ops)
  show ?case
  proof (cases op)
    case (Send p)
    obtain out ms1 where w: "queue_write cap (m # ms) p = (out, m # ms1)"
      by (cases "frames_size (m # ms) + 4 + length p < cap") (auto simp: queue_write_def)
    obtain obs' where "queue_run cap (m # ms1) ops = (obs', ms')" "obs = Sent out # obs'"
      using Cons.prems(1) Send w by (auto split: prod.splits)
    then show ?thesis using Cons.IH [of ms1 obs'] Cons.prems(2) by auto
  next
    case (Recv buf)
    then have "queue_read (m # ms) buf = (Err InvalidState, buf, m # ms)"
      using Cons.prems(2) by (simp add: queue_read_def)
    then obtain obs' where "queue_run cap (m # ms) ops = (obs', ms')"
      "obs = Received (Err InvalidState) buf # obs'"
      using Cons.prems(1) Recv by (auto split: prod.splits)
    then show ?thesis using Cons.IH [of ms obs'] Cons.prems(2) by auto
  qed
qed

subsection \<open>Small rings for the witnesses\<close>

definition ring16 :: ring where
  "ring16 = fresh_ring 16 (replicate 16 0)"

lemma ring16_rep: "ring_rep ring16 []" and ring16_fits: "prefix_fits ring16"
  by (simp_all add: ring16_def fresh_ring_rep prefix_fits_def)

text \<open>A ring of sixteen bytes with four mapped bytes behind it, positioned by one round trip.\<close>

definition ring20_at13 :: ring where
  "ring20_at13 = (let r = snd (ring_write (fresh_ring 16 (replicate 20 0)) (replicate 9 5))
     in snd (snd (ring_read r (replicate 9 0))))"

definition ring16_at13 :: ring where
  "ring16_at13 = ring16\<lparr>header := (header ring16)\<lparr>write_pos := 13, read_pos := 13\<rparr>\<rparr>"

lemma ring16_at13_wf:
  "ring_wf ring16_at13" "\<not> prefix_fits ring16_at13" "ring_used ring16_at13 = 0"
  "length (area ring16_at13) = ring_cap ring16_at13" "ring_cap ring16_at13 = 16"
  by (simp_all add: ring16_at13_def ring16_def fresh_ring_def RingBufferHeader_new_def
      ring_wf_def prefix_fits_def ring_used_def ring_nat_defs)

lemma ring20_at13_eq:
  "ring20_at13 = \<lparr>header = \<lparr>write_pos = 13, read_pos = 13, capacity = 16, magic = MAGIC\<rparr>,
     area = [9, 0, 0, 0, 5, 5, 5, 5, 5, 5, 5, 5, 5, 0, 0, 0, 0, 0, 0, 0],
     data_offset = 32, data_size = 16\<rparr>"
  by code_simp

lemma ring20_at13_wf:
  "ring_wf ring20_at13" "\<not> prefix_fits ring20_at13" "ring_used ring20_at13 = 0"
  "ring_wp ring20_at13 = 13" "ring_cap ring20_at13 = 16" "length (area ring20_at13) = 20"
  by (simp_all add: ring20_at13_eq ring_wf_def prefix_fits_def ring_used_def ring_nat_defs)

subsection \<open>Properties\<close>

text \<open>C1. Refinement of \<^verbatim>\<open>write\<close>: on a ring that holds the messages \<open>ms\<close>, with the four
  prefix bytes fitting before the end, a write returns what the bounded queue returns and
  leaves a ring that holds the queue's new contents; it never faults.\<close>

theorem ring_write_is_enqueue:
  assumes "ring_rep r ms" "prefix_fits r" "length payload \<le> isize_max"
  shows "fst (ring_write r payload) = fst (queue_write (ring_cap r) ms payload)
    \<and> ring_rep (snd (ring_write r payload)) (snd (queue_write (ring_cap r) ms payload))
    \<and> ring_cap (snd (ring_write r payload)) = ring_cap r"
  by (rule ring_write_refines [OF assms]) simp

theorem ring_write_is_enqueue_witness:
  "fst (ring_write ring16 [1, 2, 3]) = Ok 3
   \<and> ring_rep (snd (ring_write ring16 [1, 2, 3])) [[1, 2, 3]]"
  using ring_write_is_enqueue [OF ring16_rep ring16_fits, of "[1, 2, 3]"]
  by (simp add: queue_write_def ring16_def isize_max_def len_usize_def)

text \<open>C2. Refinement of \<^verbatim>\<open>read\<close>: a read returns the oldest message, the error of the queue
  when it is empty or when the caller's buffer is too small, and writes only the message's
  bytes of the buffer; it never faults.\<close>

theorem ring_read_is_dequeue:
  assumes "ring_rep r ms" "length buf \<le> isize_max"
  shows "fst (ring_read r buf) = fst (queue_read ms buf)
    \<and> fst (snd (ring_read r buf)) = fst (snd (queue_read ms buf))
    \<and> ring_rep (snd (snd (ring_read r buf))) (snd (snd (queue_read ms buf)))
    \<and> area (snd (snd (ring_read r buf))) = area r"
  by (rule ring_read_refines [OF assms]) simp

theorem ring_read_is_dequeue_witness:
  "fst (ring_read ring16 [0, 0]) = Err BufferEmpty"
  using ring_read_is_dequeue [OF ring16_rep, of "[0, 0]"] by (simp add: queue_read_def isize_max_def)

text \<open>Any sequence of writes and reads on a fresh ring, in which each write finds room for
  its prefix before the end, is first-in first-out: the accepted messages are the delivered
  ones followed by those still queued, none lost, duplicated, changed or reordered.\<close>

theorem ring_run_fifo:
  assumes "0 < unat n" "unat n \<le> 2 ^ 32" "unat n \<le> length m"
    and "sends_ready ring_write ring_read prefix_fits (fresh_ring n m) ops"
    and "\<forall>x \<in> set ops. op_ok (\<lambda>p. length p \<le> isize_max) x"
    and "ring_run (fresh_ring n m) ops = (obs, r')"
  shows "\<exists>rest. ring_rep r' rest \<and> accepted ops obs = delivered obs @ rest"
  using fresh_ring_rep [OF assms(1,2,3)] assms(4,5,6) by (rule rq.run_fifo)

theorem ring_run_fifo_witness:
  "\<exists>rest. ring_rep (snd (ring_run (fresh_ring 16 (replicate 16 0)) [Send [1, 2, 3], Recv [0, 0, 0, 0]])) rest
     \<and> accepted [Send [1, 2, 3], Recv [0, 0, 0, 0]]
         (fst (ring_run (fresh_ring 16 (replicate 16 0)) [Send [1, 2, 3], Recv [0, 0, 0, 0]]))
       = [[1, 2, 3]] @ rest"
proof -
  let ?ops = "[Send [1, 2, 3], Recv [0, 0, 0, 0]]" and ?r = "fresh_ring 16 (replicate 16 0)"
  have ready: "sends_ready ring_write ring_read prefix_fits ?r ?ops"
    by (simp add: prefix_fits_def)
  have ok: "\<forall>x \<in> set ?ops. op_ok (\<lambda>p. length p \<le> isize_max) x" by (simp add: isize_max_def)
  have "delivered (fst (ring_run ?r ?ops)) = [[1, 2, 3]]" by code_simp
  then show ?thesis
    using ring_run_fifo [of 16 "replicate 16 0" ?ops "fst (ring_run ?r ?ops)" "snd (ring_run ?r ?ops)"]
      ready ok by simp
qed

text \<open>When the capacity and every message length are multiples of four, no prefix ever
  meets the end of the ring: every run on a fresh ring is first-in first-out, with no
  condition on the states it passes.\<close>

theorem ring_run_fifo_aligned:
  assumes "0 < unat n" "unat n \<le> 2 ^ 32" "unat n \<le> length m" "4 dvd unat n"
    and "\<forall>x \<in> set ops. op_ok aligned_msg x"
    and "ring_run (fresh_ring n m) ops = (obs, r')"
  shows "\<exists>rest. aligned_rep r' rest \<and> accepted ops obs = delivered obs @ rest"
  using aq.reliable_fifo [OF fresh_ring_aligned [OF assms(1-4)] fresh_ring_aligned [OF assms(1-4)] assms(5,5,6)] .

theorem ring_run_fifo_aligned_witness:
  "\<exists>rest. aligned_rep (snd (ring_run (fresh_ring 16 (replicate 16 0)) [Send [1, 2, 3, 4], Send []])) rest
     \<and> accepted [Send [1, 2, 3, 4], Send []]
         (fst (ring_run (fresh_ring 16 (replicate 16 0)) [Send [1, 2, 3, 4], Send []]))
       = delivered (fst (ring_run (fresh_ring 16 (replicate 16 0)) [Send [1, 2, 3, 4], Send []])) @ rest"
proof (rule ring_run_fifo_aligned)
  have "(4 :: nat) dvd length [1 :: u8, 2, 3, 4]" by (simp add: eval_nat_numeral)
  then show "\<forall>x \<in> set [Send [1, 2, 3, 4], Send []]. op_ok aligned_msg x"
    by (simp add: aligned_msg_def isize_max_def)
qed simp_all

text \<open>\<^verbatim>\<open>write\<close> refuses a message with \<open>BufferFull\<close>, leaving the ring untouched, exactly when
  the message with its prefix would not leave one byte free.\<close>

theorem ring_write_full_exact:
  assumes "ring_wf r" "length payload \<le> isize_max"
  shows "ring_write r payload = (Err BufferFull, r)
     \<longleftrightarrow> ring_cap r \<le> ring_used r + 4 + length payload"
proof
  assume "ring_cap r \<le> ring_used r + 4 + length payload"
  then show "ring_write r payload = (Err BufferFull, r)"
    using assms by (simp add: ring_write_full)
next
  assume "ring_write r payload = (Err BufferFull, r)"
  then have "write_available (header r) < 4 + len_usize payload"
    by (auto simp: ring_write_def Let_def split: if_splits option.splits)
  then show "ring_cap r \<le> ring_used r + 4 + length payload"
    using write_full_iff [OF assms] by simp
qed

theorem ring_write_full_exact_witness:
  "ring_write ring16 (replicate 12 1) = (Err BufferFull, ring16)"
  using ring_write_full_exact [OF ring_rep_wf [OF ring16_rep], of "replicate 12 1"]
  by (simp add: ring16_def isize_max_def)

text \<open>C36. Head-of-line blocking: once the oldest message is longer than every buffer the reader
  uses, nothing is ever delivered again, whatever is written (by writes whose prefixes fit before the
  end) and however often it is read.\<close>

theorem ring_oversized_head_blocks:
  assumes "ring_rep r (m # ms)"
    and "sends_ready ring_write ring_read prefix_fits r ops"
    and "\<forall>x \<in> set ops. op_ok (\<lambda>p. length p \<le> isize_max) x"
    and "\<forall>buf. Recv buf \<in> set ops \<longrightarrow> length buf < length m"
    and "ring_run r ops = (obs, r')"
  shows "delivered obs = [] \<and> (\<exists>rest. ring_rep r' (m # rest))"
proof -
  obtain q where q: "ring_run r ops = (fst (queue_run (ring_cap r) (m # ms) ops), q)"
    "ring_rep q (snd (queue_run (ring_cap r) (m # ms) ops))"
    using rq.run_refines [OF assms(1,2,3)] by blast
  obtain obs1 ms1 where run: "queue_run (ring_cap r) (m # ms) ops = (obs1, ms1)" by fastforce
  from queue_run_blocked [OF this assms(4)] q run assms(5) show ?thesis by auto
qed

theorem ring_oversized_head_blocks_witness:
  "delivered (fst (ring_run (snd (ring_write ring16 [1, 2, 3])) [Recv [0, 0], Recv [0]])) = []"
proof -
  have "ring_rep (snd (ring_write ring16 [1, 2, 3])) ([1, 2, 3] # [])"
    using ring_pushed_rep [OF ring16_rep, of "[1, 2, 3]"]
      ring_write_room [OF ring_rep_wf [OF ring16_rep] _ ring16_fits, of "[1, 2, 3]"]
      ring_rep_size [OF ring16_rep]
    by (simp add: ring16_def)
  from ring_oversized_head_blocks [OF this, of "[Recv [0, 0], Recv [0]]"]
  show ?thesis by (simp add: isize_max_def prod_eq_iff)
qed

text \<open>The straddling prefix, exact mapping: when fewer than four bytes remain before the end
  of a ring whose mapping ends with it, every write that passes the space check stores outside
  the mapping.\<close>

theorem ring_straddle_out_of_bounds:
  assumes "ring_wf r" "length (area r) = ring_cap r" "\<not> prefix_fits r"
    and "ring_used r + 4 + length payload < ring_cap r"
  shows "ring_write r payload = (Fault OutOfBounds, r)"
  using ring_write_straddle_fault [OF assms(1,2,4,3)] .

theorem ring_straddle_out_of_bounds_witness:
  "ring_write ring16_at13 [7] = (Fault OutOfBounds, ring16_at13)"
  using ring_straddle_out_of_bounds [of ring16_at13 "[7]"] ring16_at13_wf by simp

text \<open>The straddling prefix, mapping with room behind the ring: the write succeeds, and the
  length the reader decodes consists of the first bytes of the prefix and of stale bytes from
  the start of the area instead of the remaining prefix bytes.\<close>

theorem ring_straddle_reads_stale:
  assumes "ring_wf r" "ring_wp r + 4 \<le> length (area r)" "\<not> prefix_fits r"
    and "ring_used r + 4 + length payload < ring_cap r"
  shows "fst (ring_write r payload) = Ok (len_usize payload)
    \<and> read_prefix (area (snd (ring_write r payload))) (capacity (header r)) (write_pos (header r))
      = Some (take (ring_cap r - ring_wp r) (le_encode 4 (length payload))
          @ take (4 - (ring_cap r - ring_wp r)) (area r))"
proof (rule ring_write_straddle_slack [OF assms(1,2,4,3)])
  fix r' assume r': "ring_write r payload = (Ok (len_usize payload), r')" "ring_cap r' = ring_cap r"
    "ring_wf r'"
    "cyc_read (area r') (ring_cap r) (ring_wp r) 4
      = take (ring_cap r - ring_wp r) (le_encode 4 (length payload))
        @ take (4 - (ring_cap r - ring_wp r)) (area r)"
  have "read_prefix (area r') (capacity (header r)) (write_pos (header r))
      = Some (cyc_read (area r') (ring_cap r) (ring_wp r) 4)"
    using read_prefix_cyc [of "write_pos (header r)" "capacity (header r)" "area r'"] assms(1) r'
    by (simp add: ring_wf_def ring_nat_defs)
  with r' show ?thesis by simp
qed

theorem ring_straddle_reads_stale_witness:
  "read_prefix (area (snd (ring_write ring20_at13 [7]))) 16 13 = Some [1, 0, 0, 9]"
  using ring_straddle_reads_stale [of ring20_at13 "[7]"] ring20_at13_wf
  by (simp add: ring20_at13_eq le_encode_4)

text \<open>C35. A ring reached by one write and one read loses the next message: the write of \<open>[7]\<close>
  is acknowledged, but no buffer below 128 MiB can take the message back, and the ring is stuck.\<close>

theorem ring_straddle_loses_message:
  "fst (ring_write ring20_at13 [7]) = Ok 1
   \<and> (\<forall>buf. length buf < 2 ^ 27 \<longrightarrow>
        ring_read (snd (ring_write ring20_at13 [7])) buf
          = (Err InvalidState, buf, snd (ring_write ring20_at13 [7])))"
proof -
  have w: "ring_write ring20_at13 [7] =
    (Ok 1, \<lparr>header = \<lparr>write_pos = 2, read_pos = 13, capacity = 16, magic = MAGIC\<rparr>,
       area = [9, 7, 0, 0, 5, 5, 5, 5, 5, 5, 5, 5, 5, 1, 0, 0, 0, 0, 0, 0],
       data_offset = 32, data_size = 16\<rparr>)"
    unfolding ring20_at13_eq by code_simp
  have p: "read_prefix [9, 7, 0, 0, 5, 5, 5, 5, 5, 5, 5, 5, 5, 1, 0, 0, 0, 0, 0, 0] 16 13
      = Some [1, 0, 0, 9]" by code_simp
  have v: "unat (ucast (u32_from_le_bytes [1, 0, 0, 9]) :: usize) = 150994945"
    by (simp add: u32_from_le_bytes_def)
  have "len_usize buf < ucast (u32_from_le_bytes [1, 0, 0, 9])" if "length buf < 2 ^ 27" for buf :: bytes
    using that v by (simp add: word_less_nat_alt isize_max_def)
  then show ?thesis
    by (simp add: w ring_read_def p Let_def)
qed

theorem ring_straddle_loses_message_witness:
  "ring_read (snd (ring_write ring20_at13 [7])) [0, 0]
     = (Err InvalidState, [0, 0], snd (ring_write ring20_at13 [7]))"
  using ring_straddle_loses_message by simp

text \<open>C34. A ring that \<^verbatim>\<open>create\<close> returns is empty, has the configured capacity, and no object of
  its name existed before; \<^verbatim>\<open>open\<close> on the same name and configuration returns the very same
  ring, or an error of the operating system, but never \<open>InvalidState\<close> and never a fault.\<close>

theorem ring_create_then_open:
  assumes "posix_shm sys obj bound" "total_bytes config < 2 ^ 63"
    and "0 < unat (buffer_size config)" "unat (buffer_size config) \<le> 2 ^ 32"
    and "ring_create sys name config os = (Ok r, os')"
  shows "obj os name = None \<and> ring_rep r [] \<and> ring_cap r = unat (buffer_size config)
    \<and> (case fst (ring_open sys name config os') of
         Ok r' \<Rightarrow> r' = r | Err e \<Rightarrow> \<exists>c. e = Nix c \<or> e = Io c | Fault _ \<Rightarrow> False)"
proof -
  note c = ring_create_Ok [OF assms(1,2,5)]
  have "obj os' name = Some (header_to_bytes (header r) @ area r)" using c(3) by simp
  note ring_open_created [OF assms(1) this c(1)]
  with c(2) assms(3,4) show ?thesis by (simp add: c(1) fresh_ring_rep)
qed

definition config16 :: ShmConfig where
  "config16 = \<lparr>buffer_size = 16, max_message_size = 8, timeout_ms = 5000\<rparr>"

lemma ref_create_16:
  "ring_create ref_sys ''a'' config16 ref_os =
     (Ok ring16, snd (ring_create ref_sys ''a'' config16 ref_os))"
  by (simp add: ring_create_def ref_sys_def ref_os_def ref_fd_def ref_bound_def config16_def
      header_size_def shm_zero_extend_def copy_nonoverlapping_def ring16_def fresh_ring_def Let_def)

theorem ring_create_then_open_witness:
  "ring_rep ring16 [] \<and>
   (case fst (ring_open ref_sys ''a'' config16 (snd (ring_create ref_sys ''a'' config16 ref_os))) of
      Ok r' \<Rightarrow> r' = ring16 | Err e \<Rightarrow> \<exists>c. e = Nix c \<or> e = Io c | Fault _ \<Rightarrow> False)"
  using ring_create_then_open [OF ref_sys_posix _ _ _ ref_create_16]
  by (simp add: config16_def total_bytes_def header_size_def)

text \<open>\<^verbatim>\<open>create\<close> opens with \<open>O_EXCL\<close> and nothing in the program unlinks an object: once a
  name exists, by an earlier run or by a \<^verbatim>\<open>create\<close> that failed half-way, every further
  \<^verbatim>\<open>create\<close> of it returns \<open>EEXIST\<close> and changes nothing.\<close>

theorem ring_create_not_repeatable:
  assumes "posix_shm sys obj bound"
    and "obj (snd (ring_create sys name config os)) name \<noteq> None"
  shows "ring_create sys name config' (snd (ring_create sys name config os))
    = (Err (Nix EEXIST), snd (ring_create sys name config os))"
  using assms by (rule ring_create_exists)

theorem ring_create_not_repeatable_witness:
  "fst (ring_create ref_sys ''a'' config16 (snd (ring_create ref_sys ''a'' config16 ref_os)))
    = Err (Nix EEXIST)"
proof -
  have "objs (snd (ring_create ref_sys ''a'' config16 ref_os)) ''a'' \<noteq> None"
    using ring_create_Ok(3) [OF ref_sys_posix _ ref_create_16]
    by (simp add: config16_def total_bytes_def header_size_def)
  from ring_create_not_repeatable [OF ref_sys_posix this] show ?thesis by simp
qed

text \<open>\<^verbatim>\<open>open\<close> validates only the magic number: an object with a well-formed header and no
  data area at all is opened successfully, and the first write on it is out of bounds.\<close>

theorem ring_open_trusts_capacity:
  "\<exists>(os :: shm_model) r. fst (ring_open ref_sys ''a'' config16 os) = Ok r
     \<and> \<not> ring_wf r \<and> fst (ring_write r [1]) = Fault OutOfBounds"
proof -
  define os where "os = \<lparr>objs = [''a'' \<mapsto> header_to_bytes (RingBufferHeader_new 16)], fds = []\<rparr>"
  define r where "r = fresh_ring 16 []"
  have "header_from_bytes (header_to_bytes (RingBufferHeader_new 16)) = RingBufferHeader_new 16"
    using header_roundtrip [of _ "[]"] by simp
  then have "fst (ring_open ref_sys ''a'' config16 os) = Ok r"
    by (simp add: ring_open_def ref_sys_def ref_fd_def ref_bound_def os_def r_def fresh_ring_def
        config16_def header_size_def is_valid_def RingBufferHeader_new_def Let_def)
  moreover have "\<not> ring_wf r" by (simp add: r_def ring_wf_def)
  moreover have "fst (ring_write r [1]) = Fault OutOfBounds" unfolding r_def by code_simp
  ultimately show ?thesis by blast
qed

end
