(* ===== verification/Ring_Concurrent.thy ===== *)
theory Ring_Concurrent
  imports Ring_Properties
begin

section \<open>The writer and the reader process interleaved\<close>

text \<open>
  The two ends of a ring live in different processes and take no common lock: they communicate
  by the acquire / release accesses to the two positions. Here \<open>write\<close> and \<open>read\<close> are cut at
  their shared-memory accesses (position loads, prefix copy, payload copy, position store) and
  any interleaving of the two is allowed. \<open>sent_log\<close> and \<open>recv_log\<close> record the messages
  published and consumed, \<open>crossed\<close> that some write passed the space check with a prefix that
  straddles the end, \<open>broken\<close> a fault.
\<close>

subsection \<open>States and steps\<close>

datatype writer =
    WIdle
  | WBegin bytes
  | WGotW bytes usize
  | WSpace bytes usize
  | WPrefixed bytes usize
  | WCopied bytes usize

datatype reader =
    RIdle
  | RBegin bytes
  | RGotW bytes usize
  | RGo bytes usize
  | RLen bytes usize usize
  | RCopied bytes usize usize

record spsc =
  shared :: ring
  writer_at :: writer
  reader_at :: reader
  sent_log :: "bytes list"
  recv_log :: "bytes list"
  crossed :: bool
  broken :: "fault option"

definition writer_step :: "spsc \<Rightarrow> spsc" where
  "writer_step s =
     (let r = shared s; h = header r; cap = capacity h in
      case writer_at s of
        WIdle \<Rightarrow> s
      | WBegin p \<Rightarrow> s\<lparr>writer_at := WGotW p (write_pos h)\<rparr>
      | WGotW p w \<Rightarrow>
          if write_available (h\<lparr>write_pos := w\<rparr>) < 4 + len_usize p then s\<lparr>writer_at := WIdle\<rparr>
          else s\<lparr>writer_at := WSpace p w, crossed := crossed s \<or> unat cap < unat w + 4\<rparr>
      | WSpace p w \<Rightarrow>
          (case copy_nonoverlapping (u32_to_le_bytes (ucast (len_usize p))) 0 (area r) (unat w) 4 of
             None \<Rightarrow> s\<lparr>broken := Some OutOfBounds\<rparr>
           | Some m \<Rightarrow>
               if cap = 0 then s\<lparr>shared := r\<lparr>area := m\<rparr>, broken := Some RemByZero\<rparr>
               else s\<lparr>shared := r\<lparr>area := m\<rparr>, writer_at := WPrefixed p w\<rparr>)
      | WPrefixed p w \<Rightarrow>
          (case write_payload (area r) cap ((w + 4) mod cap) p of
             None \<Rightarrow> s\<lparr>broken := Some OutOfBounds\<rparr>
           | Some m \<Rightarrow> s\<lparr>shared := r\<lparr>area := m\<rparr>, writer_at := WCopied p w\<rparr>)
      | WCopied p w \<Rightarrow>
          s\<lparr>shared := r\<lparr>header := h\<lparr>write_pos := (w + (4 + len_usize p)) mod cap\<rparr>\<rparr>,
            writer_at := WIdle, sent_log := sent_log s @ [p]\<rparr>)"

definition reader_step :: "spsc \<Rightarrow> spsc" where
  "reader_step s =
     (let r = shared s; h = header r; cap = capacity h in
      case reader_at s of
        RIdle \<Rightarrow> s
      | RBegin buf \<Rightarrow> s\<lparr>reader_at := RGotW buf (write_pos h)\<rparr>
      | RGotW buf w \<Rightarrow>
          if w = read_pos h then s\<lparr>reader_at := RIdle\<rparr>
          else s\<lparr>reader_at := RGo buf (read_pos h)\<rparr>
      | RGo buf rpos \<Rightarrow>
          if cap = 0 then s\<lparr>broken := Some (if unat rpos < length (area r) then RemByZero
                                          else OutOfBounds)\<rparr>
          else (case read_prefix (area r) cap rpos of
             None \<Rightarrow> s\<lparr>broken := Some OutOfBounds\<rparr>
           | Some lb \<Rightarrow>
               let n = ucast (u32_from_le_bytes lb) in
               if len_usize buf < n then s\<lparr>reader_at := RIdle\<rparr>
               else s\<lparr>reader_at := RLen buf rpos n\<rparr>)
      | RLen buf rpos n \<Rightarrow>
          (case read_payload (area r) cap ((rpos + 4) mod cap) n buf of
             None \<Rightarrow> s\<lparr>broken := Some OutOfBounds\<rparr>
           | Some buf' \<Rightarrow> s\<lparr>reader_at := RCopied buf' rpos n\<rparr>)
      | RCopied buf' rpos n \<Rightarrow>
          s\<lparr>shared := r\<lparr>header := h\<lparr>read_pos := (rpos + 4 + n) mod cap\<rparr>\<rparr>,
            reader_at := RIdle, recv_log := recv_log s @ [take (unat n) buf']\<rparr>)"

inductive spsc_step :: "spsc \<Rightarrow> spsc \<Rightarrow> bool" where
  call_write: "broken s = None \<Longrightarrow> writer_at s = WIdle \<Longrightarrow> length p \<le> isize_max \<Longrightarrow>
     spsc_step s (s\<lparr>writer_at := WBegin p\<rparr>)"
| writer_moves: "broken s = None \<Longrightarrow> writer_at s \<noteq> WIdle \<Longrightarrow> spsc_step s (writer_step s)"
| call_read: "broken s = None \<Longrightarrow> reader_at s = RIdle \<Longrightarrow> length buf \<le> isize_max \<Longrightarrow>
     spsc_step s (s\<lparr>reader_at := RBegin buf\<rparr>)"
| reader_moves: "broken s = None \<Longrightarrow> reader_at s \<noteq> RIdle \<Longrightarrow> spsc_step s (reader_step s)"

definition spsc_init :: "ring \<Rightarrow> spsc" where
  "spsc_init r = \<lparr>shared = r, writer_at = WIdle, reader_at = RIdle, sent_log = [], recv_log = [],
     crossed = False, broken = None\<rparr>"

inductive spsc_reach :: "ring \<Rightarrow> spsc \<Rightarrow> bool" for r where
  spsc_start: "spsc_reach r (spsc_init r)"
| spsc_next: "spsc_reach r s \<Longrightarrow> spsc_step s t \<Longrightarrow> spsc_reach r t"

subsection \<open>Without interference the steps are the operations\<close>

lemma writer_step_simps:
  "writer_at s = WIdle \<Longrightarrow> writer_step s = s"
  "writer_at s = WBegin p \<Longrightarrow> writer_step s = s\<lparr>writer_at := WGotW p (write_pos (header (shared s)))\<rparr>"
  "writer_at s = WGotW p w \<Longrightarrow> writer_step s =
     (if write_available ((header (shared s))\<lparr>write_pos := w\<rparr>) < 4 + len_usize p
      then s\<lparr>writer_at := WIdle\<rparr>
      else s\<lparr>writer_at := WSpace p w,
             crossed := crossed s \<or> unat (capacity (header (shared s))) < unat w + 4\<rparr>)"
  "writer_at s = WSpace p w \<Longrightarrow> writer_step s =
     (case copy_nonoverlapping (u32_to_le_bytes (ucast (len_usize p))) 0 (area (shared s)) (unat w) 4 of
        None \<Rightarrow> s\<lparr>broken := Some OutOfBounds\<rparr>
      | Some m \<Rightarrow>
          if capacity (header (shared s)) = 0
          then s\<lparr>shared := (shared s)\<lparr>area := m\<rparr>, broken := Some RemByZero\<rparr>
          else s\<lparr>shared := (shared s)\<lparr>area := m\<rparr>, writer_at := WPrefixed p w\<rparr>)"
  "writer_at s = WPrefixed p w \<Longrightarrow> writer_step s =
     (case write_payload (area (shared s)) (capacity (header (shared s)))
             ((w + 4) mod capacity (header (shared s))) p of
        None \<Rightarrow> s\<lparr>broken := Some OutOfBounds\<rparr>
      | Some m \<Rightarrow> s\<lparr>shared := (shared s)\<lparr>area := m\<rparr>, writer_at := WCopied p w\<rparr>)"
  "writer_at s = WCopied p w \<Longrightarrow> writer_step s =
     s\<lparr>shared := (shared s)\<lparr>header := (header (shared s))\<lparr>write_pos :=
          (w + (4 + len_usize p)) mod capacity (header (shared s))\<rparr>\<rparr>,
       writer_at := WIdle, sent_log := sent_log s @ [p]\<rparr>"
  by (simp_all add: writer_step_def Let_def)

lemma reader_step_simps:
  "reader_at s = RIdle \<Longrightarrow> reader_step s = s"
  "reader_at s = RBegin buf \<Longrightarrow> reader_step s = s\<lparr>reader_at := RGotW buf (write_pos (header (shared s)))\<rparr>"
  "reader_at s = RGotW buf w \<Longrightarrow> reader_step s =
     (if w = read_pos (header (shared s)) then s\<lparr>reader_at := RIdle\<rparr>
      else s\<lparr>reader_at := RGo buf (read_pos (header (shared s)))\<rparr>)"
  "reader_at s = RGo buf rpos \<Longrightarrow> reader_step s =
     (if capacity (header (shared s)) = 0
      then s\<lparr>broken := Some (if unat rpos < length (area (shared s)) then RemByZero else OutOfBounds)\<rparr>
      else (case read_prefix (area (shared s)) (capacity (header (shared s))) rpos of
        None \<Rightarrow> s\<lparr>broken := Some OutOfBounds\<rparr>
      | Some lb \<Rightarrow>
          if len_usize buf < ucast (u32_from_le_bytes lb) then s\<lparr>reader_at := RIdle\<rparr>
          else s\<lparr>reader_at := RLen buf rpos (ucast (u32_from_le_bytes lb))\<rparr>))"
  "reader_at s = RLen buf rpos n \<Longrightarrow> reader_step s =
     (case read_payload (area (shared s)) (capacity (header (shared s)))
             ((rpos + 4) mod capacity (header (shared s))) n buf of
        None \<Rightarrow> s\<lparr>broken := Some OutOfBounds\<rparr>
      | Some buf' \<Rightarrow> s\<lparr>reader_at := RCopied buf' rpos n\<rparr>)"
  "reader_at s = RCopied buf' rpos n \<Longrightarrow> reader_step s =
     s\<lparr>shared := (shared s)\<lparr>header := (header (shared s))\<lparr>read_pos :=
          (rpos + 4 + n) mod capacity (header (shared s))\<rparr>\<rparr>,
       reader_at := RIdle, recv_log := recv_log s @ [take (unat n) buf']\<rparr>"
  by (simp_all add: reader_step_def Let_def split: option.split)

lemma funpow_5: "(f ^^ 5) x = f (f (f (f (f x))))"
  by (simp add: eval_nat_numeral)

lemma writer_steps_are_write:
  assumes w: "writer_at s = WBegin p" and b: "broken s = None"
  defines "t \<equiv> (writer_step ^^ 5) s"
  shows "shared t = snd (ring_write (shared s) p)
    \<and> broken t = (case fst (ring_write (shared s) p) of Fault f \<Rightarrow> Some f | _ \<Rightarrow> None)"
proof -
  let ?r = "shared s" and ?h = "header (shared s)"
  let ?start = "(write_pos ?h + 4) mod capacity ?h"
  define t1 where "t1 = s\<lparr>writer_at := WGotW p (write_pos ?h)\<rparr>"
  have t1: "writer_step s = t1" by (simp add: writer_step_simps w t1_def)
  note ev = t_def funpow_5 t1 ring_write_def Let_def
  show ?thesis
  proof (cases "write_available ?h < 4 + len_usize p")
    case True
    then have "writer_step t1 = s\<lparr>writer_at := WIdle\<rparr>" by (simp add: t1_def writer_step_simps)
    with True b show ?thesis by (simp add: ev writer_step_simps)
  next
    case room: False
    define t2 where "t2 = s\<lparr>writer_at := WSpace p (write_pos ?h),
      crossed := crossed s \<or> unat (capacity ?h) < unat (write_pos ?h) + 4\<rparr>"
    have t2: "writer_step t1 = t2" using room by (simp add: t1_def t2_def writer_step_simps)
    show ?thesis
    proof (cases "copy_nonoverlapping (u32_to_le_bytes (ucast (len_usize p))) 0 (area ?r)
        (unat (write_pos ?h)) 4")
      case None
      with room b show ?thesis by (simp add: ev t2 t2_def writer_step_simps)
    next
      case m1: (Some m1)
      show ?thesis
      proof (cases "capacity ?h = 0")
        case True
        then have "writer_step t2 = t2\<lparr>shared := ?r\<lparr>area := m1\<rparr>, broken := Some RemByZero\<rparr>"
          using m1 by (simp add: t2_def writer_step_simps)
        moreover have "copy_nonoverlapping (u32_to_le_bytes (ucast (len_usize p))) 0 m1
            (unat (write_pos ?h)) 4 = Some m1"
          using m1 by (auto simp: copy_nonoverlapping_def split: if_splits)
        ultimately show ?thesis
          using True m1 room by (simp add: ev t2 t2_def writer_step_simps)
      next
        case nz: False
        define t3 where "t3 = t2\<lparr>shared := ?r\<lparr>area := m1\<rparr>, writer_at := WPrefixed p (write_pos ?h)\<rparr>"
        have t3: "writer_step t2 = t3" using m1 nz by (simp add: t2_def t3_def writer_step_simps)
        show ?thesis
        proof (cases "write_payload m1 (capacity ?h) ?start p")
          case None
          with m1 nz room b show ?thesis
            by (simp add: ev t2 t3 t3_def t2_def writer_step_simps)
        next
          case (Some m2)
          with m1 nz room b show ?thesis
            by (simp add: ev t2 t3 t3_def t2_def writer_step_simps)
        qed
      qed
    qed
  qed
qed

lemma reader_steps_are_read:
  assumes w: "reader_at s = RBegin buf" and b: "broken s = None"
  defines "t \<equiv> (reader_step ^^ 5) s"
  shows "shared t = snd (snd (ring_read (shared s) buf))
    \<and> broken t = (case fst (ring_read (shared s) buf) of Fault f \<Rightarrow> Some f | _ \<Rightarrow> None)"
proof -
  let ?r = "shared s" and ?h = "header (shared s)"
  define t1 where "t1 = s\<lparr>reader_at := RGotW buf (write_pos ?h)\<rparr>"
  have t1: "reader_step s = t1" by (simp add: reader_step_simps w t1_def)
  note ev = t_def funpow_5 t1 ring_read_def Let_def
  show ?thesis
  proof (cases "write_pos ?h = read_pos ?h")
    case True
    then have "reader_step t1 = s\<lparr>reader_at := RIdle\<rparr>" by (simp add: t1_def reader_step_simps)
    with True b show ?thesis by (simp add: ev reader_step_simps)
  next
    case ne: False
    define t2 where "t2 = s\<lparr>reader_at := RGo buf (read_pos ?h)\<rparr>"
    have t2: "reader_step t1 = t2" using ne by (simp add: t1_def t2_def reader_step_simps)
    show ?thesis
    proof (cases "capacity ?h = 0")
      case True
      with ne b show ?thesis by (simp add: ev t2 t2_def reader_step_simps)
    next
      case nz: False
      show ?thesis
      proof (cases "read_prefix (area ?r) (capacity ?h) (read_pos ?h)")
        case None
        with ne nz show ?thesis by (simp add: ev t2 t2_def reader_step_simps)
      next
        case lb: (Some lb)
        let ?n = "ucast (u32_from_le_bytes lb) :: usize"
        show ?thesis
        proof (cases "len_usize buf < ?n")
          case True
          with ne nz lb b show ?thesis by (simp add: ev t2 t2_def reader_step_simps)
        next
          case fit: False
          define t3 where "t3 = s\<lparr>reader_at := RLen buf (read_pos ?h) ?n\<rparr>"
          have t3: "reader_step t2 = t3"
            using nz lb fit by (simp add: t2_def t3_def reader_step_simps)
          show ?thesis
            using ne nz lb fit b
            by (cases "read_payload (area ?r) (capacity ?h) ((read_pos ?h + 4) mod capacity ?h) ?n buf")
              (simp_all add: ev t2 t3 t3_def reader_step_simps)
        qed
      qed
    qed
  qed
qed

subsection \<open>The invariant\<close>

text \<open>
  The published region always holds the frames of the messages sent and not yet received. What
  the writer still copies lies in free space, because the read position it loaded only makes
  the free space look smaller; what the reader still copies is published, because the write
  position it loaded lies behind a prefix of the queue.
\<close>

definition room_for :: "ring \<Rightarrow> bytes \<Rightarrow> bool" where
  "room_for r p \<longleftrightarrow> ring_used r + 4 + length p < ring_cap r \<and> prefix_fits r"

fun writer_inv :: "ring \<Rightarrow> writer \<Rightarrow> bool" where
  "writer_inv r WIdle = True"
| "writer_inv r (WBegin p) = (length p \<le> isize_max)"
| "writer_inv r (WGotW p w) = (length p \<le> isize_max \<and> w = write_pos (header r))"
| "writer_inv r (WSpace p w) = (w = write_pos (header r) \<and> room_for r p)"
| "writer_inv r (WPrefixed p w) = (w = write_pos (header r) \<and> room_for r p
     \<and> cyc_read (area r) (ring_cap r) (ring_wp r) 4 = le_encode 4 (length p))"
| "writer_inv r (WCopied p w) = (w = write_pos (header r) \<and> room_for r p
     \<and> cyc_read (area r) (ring_cap r) (ring_wp r) (4 + length p) = frame p)"

fun reader_inv :: "ring \<Rightarrow> bytes list \<Rightarrow> reader \<Rightarrow> bool" where
  "reader_inv r q RIdle = True"
| "reader_inv r q (RBegin buf) = (length buf \<le> isize_max)"
| "reader_inv r q (RGotW buf w) = (length buf \<le> isize_max
     \<and> (\<exists>q1 q2. q = q1 @ q2 \<and> unat w = (ring_rp r + length (frames q1)) mod ring_cap r))"
| "reader_inv r q (RGo buf p) = (length buf \<le> isize_max \<and> p = read_pos (header r) \<and> q \<noteq> [])"
| "reader_inv r q (RLen buf p n) = (p = read_pos (header r)
     \<and> (\<exists>m q'. q = m # q' \<and> n = len_usize m \<and> length m \<le> length buf))"
| "reader_inv r q (RCopied buf p n) = (p = read_pos (header r)
     \<and> (\<exists>m q'. q = m # q' \<and> n = len_usize m \<and> take (length m) buf = m))"

definition spsc_inv :: "spsc \<Rightarrow> bool" where
  "spsc_inv s \<longleftrightarrow> broken s = None \<and> (\<exists>q. ring_rep (shared s) q \<and> sent_log s = recv_log s @ q
     \<and> writer_inv (shared s) (writer_at s) \<and> reader_inv (shared s) q (reader_at s))"

lemma spsc_inv_init: "ring_rep r [] \<Longrightarrow> spsc_inv (spsc_init r)"
  by (auto simp: spsc_inv_def spsc_init_def)

text \<open>What the reader's knowledge depends on.\<close>

lemma reader_inv_store:
  "reader_inv r q v \<Longrightarrow> reader_inv (r\<lparr>area := m\<rparr>) q v"
  by (cases v) (auto simp: ring_nat_defs)

lemma reader_inv_published:
  "reader_inv r q v \<Longrightarrow> reader_inv (ring_published r p) (q @ [p]) v"
proof (cases v)
  case (RGotW buf w)
  assume "reader_inv r q v"
  with RGotW obtain q1 q2 where "length buf \<le> isize_max" "q = q1 @ q2"
    "unat w = (ring_rp r + length (frames q1)) mod ring_cap r" by auto
  then show ?thesis
    unfolding RGotW reader_inv.simps ring_published_frame
    by (intro conjI exI [of _ q1] exI [of _ "q2 @ [p]"]) simp_all
qed (auto simp: ring_published_def)

lemma room_for_store: "room_for (r\<lparr>area := m\<rparr>) p = room_for r p"
  by (simp add: room_for_def ring_nat_defs ring_used_def prefix_fits_def)

text \<open>The writer's knowledge survives a read: space only grows.\<close>

lemma writer_inv_popped:
  assumes rep: "ring_rep r (m # q)" and inv: "writer_inv r v"
  shows "writer_inv (ring_popped r m) v"
proof -
  have "ring_used (ring_popped r m) \<le> ring_used r"
    using ring_rep_size [OF rep] ring_rep_size [OF ring_popped_rep [OF rep]] by simp
  then have room: "room_for r p \<Longrightarrow> room_for (ring_popped r m) p" for p
    by (auto simp: room_for_def prefix_fits_def)
  have "write_pos (header (ring_popped r m)) = write_pos (header r)"
    by (simp add: ring_popped_def)
  with inv room show ?thesis by (cases v) auto
qed

lemma room_nat:
  assumes "room_for r p" "ring_wf r"
  shows "length p < 2 ^ 32" "length p \<le> isize_max"
  using assms by (auto simp: room_for_def ring_wf_def isize_max_def)

lemma spsc_invE:
  assumes "spsc_inv s"
  obtains q where "broken s = None" "ring_rep (shared s) q" "sent_log s = recv_log s @ q"
    "writer_inv (shared s) (writer_at s)" "reader_inv (shared s) q (reader_at s)"
    "ring_wf (shared s)" "capacity (header (shared s)) \<noteq> 0"
    "ring_wp (shared s) < ring_cap (shared s)" "ring_rp (shared s) < ring_cap (shared s)"
    "ring_cap (shared s) \<le> 2 ^ 32" "ring_cap (shared s) \<le> length (area (shared s))"
proof -
  from assms obtain q where q: "broken s = None" "ring_rep (shared s) q" "sent_log s = recv_log s @ q"
    "writer_inv (shared s) (writer_at s)" "reader_inv (shared s) q (reader_at s)"
    by (auto simp: spsc_inv_def)
  note wf = ring_rep_wf [OF q(2)]
  then have "ring_wp (shared s) < ring_cap (shared s)" "ring_rp (shared s) < ring_cap (shared s)"
    "ring_cap (shared s) \<le> 2 ^ 32" "ring_cap (shared s) \<le> length (area (shared s))"
    by (simp_all add: ring_wf_def)
  moreover from this have "capacity (header (shared s)) \<noteq> 0" by (auto simp: ring_cap_def)
  ultimately show ?thesis using that q wf by blast
qed

lemma writer_wbegin_inv:
  assumes inv: "spsc_inv s" and at: "writer_at s = WBegin p"
  shows "spsc_inv (writer_step s)"
proof -
  let ?r = "shared s" and ?h = "header (shared s)"
  obtain q where ok: "broken s = None" and rep: "ring_rep ?r q" and log: "sent_log s = recv_log s @ q"
    and wi: "writer_inv ?r (writer_at s)" and ri: "reader_inv ?r q (reader_at s)"
    and wf: "ring_wf ?r" and nz: "capacity ?h \<noteq> 0"
    and bounds: "ring_wp ?r < ring_cap ?r" "ring_rp ?r < ring_cap ?r" "ring_cap ?r \<le> 2 ^ 32" "ring_cap ?r \<le> length (area ?r)"
    using inv by (rule spsc_invE)
  from at ok rep log wi ri show ?thesis by (auto simp: writer_step_simps spsc_inv_def)
qed

lemma writer_wgotw_inv:
  assumes inv: "spsc_inv s" and at: "writer_at s = WGotW p w" and nc: "\<not> crossed (writer_step s)"
  shows "spsc_inv (writer_step s)"
proof -
  let ?r = "shared s" and ?h = "header (shared s)"
  obtain q where ok: "broken s = None" and rep: "ring_rep ?r q" and log: "sent_log s = recv_log s @ q"
    and wi: "writer_inv ?r (writer_at s)" and ri: "reader_inv ?r q (reader_at s)"
    and wf: "ring_wf ?r" and nz: "capacity ?h \<noteq> 0"
    and bounds: "ring_wp ?r < ring_cap ?r" "ring_rp ?r < ring_cap ?r" "ring_cap ?r \<le> 2 ^ 32" "ring_cap ?r \<le> length (area ?r)"
    using inv by (rule spsc_invE)
  have same: "?h\<lparr>write_pos := w\<rparr> = ?h" using wi at by simp
  show ?thesis
  proof (cases "write_available ?h < 4 + len_usize p")
    case True
    with at ok rep log ri same show ?thesis by (auto simp: writer_step_simps spsc_inv_def)
  next
    case False
    then have "ring_used ?r + 4 + length p < ring_cap ?r"
      using write_full_iff [OF wf, of p] wi at by simp
    moreover have "prefix_fits ?r"
      using nc False at same wi by (simp add: writer_step_simps prefix_fits_def ring_nat_defs)
    ultimately have "room_for ?r p" by (simp add: room_for_def)
    with at False ok rep log wi ri same show ?thesis
      by (auto simp: writer_step_simps spsc_inv_def)
  qed
qed

lemma writer_wspace_inv:
  assumes inv: "spsc_inv s" and at: "writer_at s = WSpace p w"
  shows "spsc_inv (writer_step s)"
proof -
  let ?r = "shared s" and ?h = "header (shared s)"
  obtain q where ok: "broken s = None" and rep: "ring_rep ?r q" and log: "sent_log s = recv_log s @ q"
    and wi: "writer_inv ?r (writer_at s)" and ri: "reader_inv ?r q (reader_at s)"
    and wf: "ring_wf ?r" and nz: "capacity ?h \<noteq> 0"
    and bounds: "ring_wp ?r < ring_cap ?r" "ring_rp ?r < ring_cap ?r" "ring_cap ?r \<le> 2 ^ 32" "ring_cap ?r \<le> length (area ?r)"
    using inv by (rule spsc_invE)
  let ?pre = "le_encode 4 (length p)"
  let ?m = "cyc_write (area ?r) (ring_cap ?r) (ring_wp ?r) ?pre"
  have room: "room_for ?r p" and w: "w = write_pos ?h" using wi at by simp_all
  have "copy_nonoverlapping (u32_to_le_bytes (ucast (len_usize p))) 0 (area ?r) (unat w) 4 = Some ?m"
    using copy_is_cyc_write [of "ring_wp ?r" ?pre "ring_cap ?r" "area ?r"] bounds room w
    by (simp add: prefix_bytes [OF room_nat(1) [OF room wf]] room_for_def prefix_fits_def ring_wp_def)
  then have step: "writer_step s = s\<lparr>shared := ?r\<lparr>area := ?m\<rparr>, writer_at := WPrefixed p w\<rparr>"
    using at nz by (simp add: writer_step_simps)
  have "ring_rep (?r\<lparr>area := ?m\<rparr>) q"
    using ring_free_store(1) [OF rep, of 0 ?pre] room bounds by (simp add: room_for_def)
  moreover have "cyc_read ?m (ring_cap ?r) (ring_wp ?r) 4 = ?pre"
    using cyc_read_write_same [OF bounds(1,4), of ?pre] room by (simp add: room_for_def)
  ultimately show ?thesis
    using ok log w room reader_inv_store [OF ri]
    by (auto simp: step spsc_inv_def room_for_store ring_nat_defs)
qed

lemma writer_wprefixed_inv:
  assumes inv: "spsc_inv s" and at: "writer_at s = WPrefixed p w"
  shows "spsc_inv (writer_step s)"
proof -
  let ?r = "shared s" and ?h = "header (shared s)"
  obtain q where ok: "broken s = None" and rep: "ring_rep ?r q" and log: "sent_log s = recv_log s @ q"
    and wi: "writer_inv ?r (writer_at s)" and ri: "reader_inv ?r q (reader_at s)"
    and wf: "ring_wf ?r" and nz: "capacity ?h \<noteq> 0"
    and bounds: "ring_wp ?r < ring_cap ?r" "ring_rp ?r < ring_cap ?r" "ring_cap ?r \<le> 2 ^ 32" "ring_cap ?r \<le> length (area ?r)"
    using inv by (rule spsc_invE)
  let ?m = "cyc_write (area ?r) (ring_cap ?r) ((ring_wp ?r + 4) mod ring_cap ?r) p"
  have room: "room_for ?r p" and w: "w = write_pos ?h"
    and pre: "cyc_read (area ?r) (ring_cap ?r) (ring_wp ?r) 4 = le_encode 4 (length p)"
    using wi at by simp_all
  have start: "unat ((w + 4) mod capacity ?h) = (ring_wp ?r + 4) mod ring_cap ?r"
    unfolding w ring_wp_def ring_cap_def using bounds
    by (intro advance_nat) (auto simp: ring_nat_defs)
  have "write_payload (area ?r) (capacity ?h) ((w + 4) mod capacity ?h) p = Some ?m"
    using write_payload_cyc [of "(w + 4) mod capacity ?h" "capacity ?h" "area ?r" p] start bounds room
    by (simp add: ring_cap_def [symmetric] room_for_def)
  then have step: "writer_step s = s\<lparr>shared := ?r\<lparr>area := ?m\<rparr>, writer_at := WCopied p w\<rparr>"
    using at by (simp add: writer_step_simps)
  have free: "ring_used ?r + 4 + length p \<le> ring_cap ?r" using room by (simp add: room_for_def)
  note st = ring_free_store [OF rep free]
  have "cyc_read ?m (ring_cap ?r) (ring_wp ?r + 4) (length p) = p"
    using cyc_read_write_same [of "(ring_wp ?r + 4) mod ring_cap ?r" "ring_cap ?r" "area ?r" p]
      bounds free by (simp add: cyc_read_mod)
  then have "cyc_read ?m (ring_cap ?r) (ring_wp ?r) (4 + length p) = frame p"
    using st(2) pre by (simp add: cyc_read_add frame_def)
  then show ?thesis
    using st(1) ok log w room reader_inv_store [OF ri]
    by (auto simp: step spsc_inv_def room_for_store ring_nat_defs)
qed

lemma writer_wcopied_inv:
  assumes inv: "spsc_inv s" and at: "writer_at s = WCopied p w"
  shows "spsc_inv (writer_step s)"
proof -
  let ?r = "shared s" and ?h = "header (shared s)"
  obtain q where ok: "broken s = None" and rep: "ring_rep ?r q" and log: "sent_log s = recv_log s @ q"
    and wi: "writer_inv ?r (writer_at s)" and ri: "reader_inv ?r q (reader_at s)"
    and wf: "ring_wf ?r" and nz: "capacity ?h \<noteq> 0"
    and bounds: "ring_wp ?r < ring_cap ?r" "ring_rp ?r < ring_cap ?r" "ring_cap ?r \<le> 2 ^ 32" "ring_cap ?r \<le> length (area ?r)"
    using inv by (rule spsc_invE)
  from at have room: "room_for ?r p" and w: "w = write_pos ?h"
    and stored: "cyc_read (area ?r) (ring_cap ?r) (ring_wp ?r) (4 + length p) = frame p"
    using wi by simp_all
  have step: "writer_step s = s\<lparr>shared := ring_published ?r p, writer_at := WIdle,
      sent_log := sent_log s @ [p]\<rparr>"
    using at w by (simp add: writer_step_simps ring_published_def)
  have "ring_rep (ring_published ?r p) (q @ [p])"
    using ring_published_rep [OF rep _ stored] room by (simp add: room_for_def)
  with ok log reader_inv_published [OF ri, of p] show ?thesis
    by (auto simp: step spsc_inv_def intro!: exI [of _ "q @ [p]"])
qed

lemma writer_step_inv:
  assumes inv: "spsc_inv s" and nc: "\<not> crossed (writer_step s)"
  shows "spsc_inv (writer_step s)"
proof (cases "writer_at s")
  case WIdle
  with inv show ?thesis by (simp add: writer_step_simps)
next
  case (WBegin p)
  with inv show ?thesis by (rule writer_wbegin_inv)
next
  case (WGotW p w)
  from inv this nc show ?thesis by (rule writer_wgotw_inv)
next
  case (WSpace p w)
  with inv show ?thesis by (rule writer_wspace_inv)
next
  case (WPrefixed p w)
  with inv show ?thesis by (rule writer_wprefixed_inv)
next
  case (WCopied p w)
  with inv show ?thesis by (rule writer_wcopied_inv)
qed

lemma reader_rbegin_inv:
  assumes inv: "spsc_inv s" and at: "reader_at s = RBegin buf"
  shows "spsc_inv (reader_step s)"
proof -
  let ?r = "shared s" and ?h = "header (shared s)"
  obtain q where ok: "broken s = None" and rep: "ring_rep ?r q" and log: "sent_log s = recv_log s @ q"
    and wi: "writer_inv ?r (writer_at s)" and ri: "reader_inv ?r q (reader_at s)"
    and wf: "ring_wf ?r" and nz: "capacity ?h \<noteq> 0"
    and bounds: "ring_wp ?r < ring_cap ?r" "ring_rp ?r < ring_cap ?r" "ring_cap ?r \<le> 2 ^ 32" "ring_cap ?r \<le> length (area ?r)"
    using inv by (rule spsc_invE)
  have "unat (write_pos ?h) = (ring_rp ?r + length (frames q)) mod ring_cap ?r"
    using ring_wp_eq [OF wf] ring_rep_used [OF rep] by (simp add: ring_wp_def)
  then have "\<exists>q1 q2. q = q1 @ q2
      \<and> unat (write_pos ?h) = (ring_rp ?r + length (frames q1)) mod ring_cap ?r"
    by (intro exI [of _ q] exI [of _ "[]"]) simp
  with at ok rep log wi ri show ?thesis
    by (auto simp: reader_step_simps spsc_inv_def)
qed

lemma reader_rgotw_inv:
  assumes inv: "spsc_inv s" and at: "reader_at s = RGotW buf w"
  shows "spsc_inv (reader_step s)"
proof -
  let ?r = "shared s" and ?h = "header (shared s)"
  obtain q where ok: "broken s = None" and rep: "ring_rep ?r q" and log: "sent_log s = recv_log s @ q"
    and wi: "writer_inv ?r (writer_at s)" and ri: "reader_inv ?r q (reader_at s)"
    and wf: "ring_wf ?r" and nz: "capacity ?h \<noteq> 0"
    and bounds: "ring_wp ?r < ring_cap ?r" "ring_rp ?r < ring_cap ?r" "ring_cap ?r \<le> 2 ^ 32" "ring_cap ?r \<le> length (area ?r)"
    using inv by (rule spsc_invE)
  from at obtain q1 q2 where q: "q = q1 @ q2"
    and w: "unat w = (ring_rp ?r + length (frames q1)) mod ring_cap ?r"
    using ri by auto
  show ?thesis
  proof (cases "w = read_pos ?h")
    case True
    with at ok rep log wi show ?thesis by (auto simp: reader_step_simps spsc_inv_def)
  next
    case False
    have "q \<noteq> []"
    proof
      assume "q = []"
      then have "unat w = unat (read_pos ?h)" using q w bounds(2) by (simp add: ring_rp_def)
      with False show False by (simp add: word_unat_eq_iff)
    qed
    with at False ok rep log wi ri show ?thesis
      by (auto simp: reader_step_simps spsc_inv_def)
  qed
qed

lemma reader_rgo_inv:
  assumes inv: "spsc_inv s" and at: "reader_at s = RGo buf p"
  shows "spsc_inv (reader_step s)"
proof -
  let ?r = "shared s" and ?h = "header (shared s)"
  obtain q where ok: "broken s = None" and rep: "ring_rep ?r q" and log: "sent_log s = recv_log s @ q"
    and wi: "writer_inv ?r (writer_at s)" and ri: "reader_inv ?r q (reader_at s)"
    and wf: "ring_wf ?r" and nz: "capacity ?h \<noteq> 0"
    and bounds: "ring_wp ?r < ring_cap ?r" "ring_rp ?r < ring_cap ?r" "ring_cap ?r \<le> 2 ^ 32" "ring_cap ?r \<le> length (area ?r)"
    using inv by (rule spsc_invE)
  from at obtain m q' where q: "q = m # q'" and p: "p = read_pos ?h" and lb: "length buf \<le> isize_max"
    using ri by (cases q) auto
  note rep' = rep [unfolded q]
  have len: "length m < 2 ^ 32" using rep' by (rule ring_front_len)
  have pre: "read_prefix (area ?r) (capacity ?h) p = Some (le_encode 4 (length m))"
    using read_prefix_cyc [of p "capacity ?h" "area ?r"] bounds ring_front(3) [OF rep'] p
    by (simp add: ring_nat_defs)
  have "len_usize buf < len_usize m \<longleftrightarrow> length buf < length m"
    using lb len by (simp add: word_less_nat_alt isize_max_def)
  with at nz pre ok rep log wi p q show ?thesis
    by (auto simp: reader_step_simps spsc_inv_def prefix_value [OF len])
qed

lemma reader_rlen_inv:
  assumes inv: "spsc_inv s" and at: "reader_at s = RLen buf p n"
  shows "spsc_inv (reader_step s)"
proof -
  let ?r = "shared s" and ?h = "header (shared s)"
  obtain q where ok: "broken s = None" and rep: "ring_rep ?r q" and log: "sent_log s = recv_log s @ q"
    and wi: "writer_inv ?r (writer_at s)" and ri: "reader_inv ?r q (reader_at s)"
    and wf: "ring_wf ?r" and nz: "capacity ?h \<noteq> 0"
    and bounds: "ring_wp ?r < ring_cap ?r" "ring_rp ?r < ring_cap ?r" "ring_cap ?r \<le> 2 ^ 32" "ring_cap ?r \<le> length (area ?r)"
    using inv by (rule spsc_invE)
  from at obtain m q' where q: "q = m # q'" and p: "p = read_pos ?h" and n: "n = len_usize m"
    and fit: "length m \<le> length buf"
    using ri by auto
  note rep' = rep [unfolded q]
  have un: "unat n = length m" using ring_front_len [OF rep'] by (simp add: n isize_max_def)
  have le: "length m \<le> ring_cap ?r"
    using ring_front(2) [OF rep'] ring_used_less [OF wf] by linarith
  have start: "unat ((p + 4) mod capacity ?h) = (ring_rp ?r + 4) mod ring_cap ?r"
    unfolding p ring_rp_def ring_cap_def using bounds
    by (intro advance_nat) (auto simp: ring_nat_defs)
  have "read_payload (area ?r) (capacity ?h) ((p + 4) mod capacity ?h) n buf
      = Some (m @ drop (length m) buf)"
    using read_payload_cyc [of "(p + 4) mod capacity ?h" "capacity ?h" "area ?r" n buf] start bounds
      un le fit ring_front(4) [OF rep'] by (simp add: ring_cap_def [symmetric] cyc_read_mod)
  with at ok rep log wi p q n show ?thesis
    by (auto simp: reader_step_simps spsc_inv_def)
qed

lemma reader_rcopied_inv:
  assumes inv: "spsc_inv s" and at: "reader_at s = RCopied buf p n"
  shows "spsc_inv (reader_step s)"
proof -
  let ?r = "shared s" and ?h = "header (shared s)"
  obtain q where ok: "broken s = None" and rep: "ring_rep ?r q" and log: "sent_log s = recv_log s @ q"
    and wi: "writer_inv ?r (writer_at s)" and ri: "reader_inv ?r q (reader_at s)"
    and wf: "ring_wf ?r" and nz: "capacity ?h \<noteq> 0"
    and bounds: "ring_wp ?r < ring_cap ?r" "ring_rp ?r < ring_cap ?r" "ring_cap ?r \<le> 2 ^ 32" "ring_cap ?r \<le> length (area ?r)"
    using inv by (rule spsc_invE)
  from at obtain m q' where q: "q = m # q'" and p: "p = read_pos ?h" and n: "n = len_usize m"
    and got: "take (length m) buf = m"
    using ri by auto
  note rep' = rep [unfolded q]
  have "unat n = length m" using ring_front_len [OF rep'] by (simp add: n isize_max_def)
  then have step: "reader_step s = s\<lparr>shared := ring_popped ?r m, reader_at := RIdle,
      recv_log := recv_log s @ [m]\<rparr>"
    using at p n got by (simp add: reader_step_simps ring_popped_def)
  show ?thesis
    using ring_popped_rep [OF rep'] writer_inv_popped [OF rep' wi] ok log q
    by (auto simp: step spsc_inv_def)
qed

lemma reader_step_inv:
  assumes inv: "spsc_inv s"
  shows "spsc_inv (reader_step s)"
proof (cases "reader_at s")
  case RIdle
  with inv show ?thesis by (simp add: reader_step_simps)
next
  case (RBegin buf)
  with inv show ?thesis by (rule reader_rbegin_inv)
next
  case (RGotW buf w)
  with inv show ?thesis by (rule reader_rgotw_inv)
next
  case (RGo buf p)
  with inv show ?thesis by (rule reader_rgo_inv)
next
  case (RLen buf p n)
  with inv show ?thesis by (rule reader_rlen_inv)
next
  case (RCopied buf p n)
  with inv show ?thesis by (rule reader_rcopied_inv)
qed

subsection \<open>Reachable states\<close>

inductive_cases spsc_stepE: "spsc_step s t"

lemma crossed_writer_step: "crossed s \<Longrightarrow> crossed (writer_step s)"
  by (cases "writer_at s") (auto simp: writer_step_simps split: option.splits)

lemma crossed_reader_step: "crossed (reader_step s) = crossed s"
  by (cases "reader_at s") (auto simp: reader_step_simps Let_def split: option.splits)

lemma spsc_step_crossed: "spsc_step s t \<Longrightarrow> crossed s \<Longrightarrow> crossed t"
  by (elim spsc_stepE) (auto simp: crossed_writer_step crossed_reader_step)

lemma spsc_step_inv:
  assumes "spsc_step s t" "spsc_inv s" "\<not> crossed t"
  shows "spsc_inv t"
  using assms
proof (cases rule: spsc_step.cases)
  case (call_write p)
  with assms(2) show ?thesis by (auto simp: spsc_inv_def)
next
  case writer_moves
  with assms show ?thesis by (simp add: writer_step_inv)
next
  case (call_read buf)
  with assms(2) show ?thesis by (auto simp: spsc_inv_def)
next
  case reader_moves
  with assms show ?thesis by (simp add: reader_step_inv)
qed

lemma spsc_reach_inv:
  assumes "spsc_reach r s" "ring_rep r []" "\<not> crossed s"
  shows "spsc_inv s"
  using assms
proof (induction rule: spsc_reach.induct)
  case spsc_start
  then show ?case by (simp add: spsc_inv_init)
next
  case (spsc_next s t)
  then show ?case using spsc_step_crossed spsc_step_inv by blast
qed

lemma spsc_reach_fifo:
  assumes "spsc_reach r s" "ring_rep r []" "\<not> crossed s"
  shows "broken s = None \<and> (\<exists>q. sent_log s = recv_log s @ q \<and> ring_rep (shared s) q)"
  using spsc_reach_inv [OF assms] by (auto simp: spsc_inv_def)

subsection \<open>The cells each process touches while it copies\<close>

definition ring_cells :: "ring \<Rightarrow> usize \<Rightarrow> nat \<Rightarrow> nat set" where
  "ring_cells r p n = set (map (\<lambda>i. (unat p + i) mod ring_cap r) [0..<n])"

fun writer_cells :: "ring \<Rightarrow> writer \<Rightarrow> nat set" where
  "writer_cells r (WSpace p w) = ring_cells r w (4 + length p)"
| "writer_cells r (WPrefixed p w) = ring_cells r w (4 + length p)"
| "writer_cells r _ = {}"

fun reader_cells :: "ring \<Rightarrow> reader \<Rightarrow> nat set" where
  "reader_cells r (RGo buf p) = ring_cells r p 4"
| "reader_cells r (RLen buf p n) = ring_cells r p (4 + unat n)"
| "reader_cells r _ = {}"

lemma cells_disjoint:
  assumes wf: "ring_wf r" and room: "ring_used r + k \<le> ring_cap r" and le: "n \<le> ring_used r"
  shows "ring_cells r (write_pos (header r)) k \<inter> ring_cells r (read_pos (header r)) n = {}"
proof -
  have False if "i < k" "j < n"
    and eq: "(ring_wp r + i) mod ring_cap r = (ring_rp r + j) mod ring_cap r" for i j
  proof -
    have "(ring_wp r + i) mod ring_cap r = (ring_rp r + (ring_used r + i)) mod ring_cap r"
      by (simp only: ring_wp_eq [OF wf] mod_add_left_eq add.assoc)
    with eq have "(ring_rp r + (ring_used r + i)) mod ring_cap r = (ring_rp r + j) mod ring_cap r"
      by simp
    then have "ring_used r + i = j"
      using that room le mod_offset_inj [of "ring_used r + i" "ring_cap r" j "ring_rp r"]
        ring_used_less [OF wf] by simp
    with that le show False by simp
  qed
  then show ?thesis by (auto simp: ring_cells_def ring_wp_def ring_rp_def)
qed

lemma spsc_inv_disjoint:
  assumes "spsc_inv s"
  shows "writer_cells (shared s) (writer_at s) \<inter> reader_cells (shared s) (reader_at s) = {}"
proof -
  let ?r = "shared s"
  obtain q where rep: "ring_rep ?r q" and wi: "writer_inv ?r (writer_at s)"
    and ri: "reader_inv ?r q (reader_at s)"
    using assms by (auto simp: spsc_inv_def)
  have wf: "ring_wf ?r" using rep by (rule ring_rep_wf)
  have w: "writer_cells ?r (writer_at s) = {} \<or> (\<exists>k. ring_used ?r + k \<le> ring_cap ?r
      \<and> writer_cells ?r (writer_at s) = ring_cells ?r (write_pos (header ?r)) k)"
  proof (cases "writer_at s")
    case (WSpace p w)
    with wi show ?thesis by (intro disjI2 exI [of _ "4 + length p"]) (simp add: room_for_def)
  next
    case (WPrefixed p w)
    with wi show ?thesis by (intro disjI2 exI [of _ "4 + length p"]) (simp add: room_for_def)
  qed simp_all
  have "reader_cells ?r (reader_at s) = {} \<or> (\<exists>n \<le> ring_used ?r.
      reader_cells ?r (reader_at s) = ring_cells ?r (read_pos (header ?r)) n)"
  proof (cases "reader_at s")
    case (RGo buf p)
    then obtain m q' where "q = m # q'" using ri by (cases q) auto
    then have "4 \<le> ring_used ?r" using ring_front(2) [of ?r m q'] rep by simp
    with RGo ri show ?thesis by auto
  next
    case (RLen buf p n)
    then obtain m q' where q: "q = m # q'" "n = len_usize m" using ri by auto
    with rep have rep': "ring_rep ?r (m # q')" by simp
    have "unat n = length m" using q ring_front_len [OF rep'] by (simp add: isize_max_def)
    moreover have "4 + length m \<le> ring_used ?r" using ring_front(2) [OF rep'] by linarith
    ultimately show ?thesis
      using RLen ri by (intro disjI2 exI [of _ "4 + length m"]) simp
  qed simp_all
  with w show ?thesis
    by (elim disjE exE conjE) (simp_all add: cells_disjoint [OF wf])
qed

subsection \<open>Properties\<close>

text \<open>Under every interleaving of one writer and one reader process on a fresh ring, as long
  as no prefix straddles the end: no access faults, and the messages received are, in order and
  unchanged, the first of the messages sent.\<close>

theorem spsc_fifo:
  assumes "spsc_reach r s" "ring_rep r []" "\<not> crossed s"
  shows "broken s = None \<and> (\<exists>q. sent_log s = recv_log s @ q \<and> ring_rep (shared s) q)"
  using assms by (rule spsc_reach_fifo)

theorem spsc_fifo_witness:
  "\<exists>s. spsc_reach ring16 s \<and> \<not> crossed s \<and> writer_at s = WBegin [1, 2]
     \<and> broken s = None \<and> (\<exists>q. sent_log s = recv_log s @ q \<and> ring_rep (shared s) q)"
proof -
  let ?s = "(spsc_init ring16)\<lparr>writer_at := WBegin [1, 2]\<rparr>"
  have reach: "spsc_reach ring16 ?s"
    by (rule spsc_next [OF spsc_start call_write]) (simp_all add: spsc_init_def isize_max_def)
  have nc: "\<not> crossed ?s" by (simp add: spsc_init_def)
  from reach nc spsc_fifo [OF reach ring16_rep nc] show ?thesis
    by (intro exI [of _ ?s]) (simp add: spsc_init_def)
qed

text \<open>C14. No data race on the ring's bytes: from an empty ring on, as long as no length prefix has
  straddled the end, the cells the writer stores to and the cells the reader loads are disjoint while
  both processes copy.\<close>

theorem spsc_race_free:
  assumes "spsc_reach r s" "ring_rep r []" "\<not> crossed s"
  shows "writer_cells (shared s) (writer_at s) \<inter> reader_cells (shared s) (reader_at s) = {}"
  using spsc_inv_disjoint [OF spsc_reach_inv [OF assms]] .

text \<open>A reachable state in which both processes copy: one message is published and being read
  while the writer stores the next one.\<close>

lemma spsc_writer_to:
  "spsc_reach r s \<Longrightarrow> broken s = None \<and> writer_at s \<noteq> WIdle \<Longrightarrow> writer_step s = t \<Longrightarrow> spsc_reach r t"
  by (auto intro: spsc_next writer_moves)

lemma spsc_reader_to:
  "spsc_reach r s \<Longrightarrow> broken s = None \<and> reader_at s \<noteq> RIdle \<Longrightarrow> reader_step s = t \<Longrightarrow> spsc_reach r t"
  by (auto intro: spsc_next reader_moves)

definition spsc16 :: "u64 \<Rightarrow> bytes \<Rightarrow> writer \<Rightarrow> reader \<Rightarrow> bytes list \<Rightarrow> spsc" where
  "spsc16 wp front w r sent =
     \<lparr>shared = \<lparr>header = \<lparr>write_pos = wp, read_pos = 0, capacity = 16, magic = MAGIC\<rparr>,
        area = front @ replicate (16 - length front) 0, data_offset = 32, data_size = 16\<rparr>,
      writer_at = w, reader_at = r, sent_log = sent, recv_log = [], crossed = False, broken = None\<rparr>"

lemma spsc_demo_written: "spsc_reach ring16 (spsc16 5 [1, 0, 0, 0, 1] WIdle RIdle [[1]])"
proof -
  have "spsc_init ring16 = spsc16 0 [] WIdle RIdle []" by code_simp
  then have "spsc_reach ring16 (spsc16 0 [] WIdle RIdle [])" by (metis spsc_start)
  then have "spsc_reach ring16 ((spsc16 0 [] WIdle RIdle [])\<lparr>writer_at := WBegin [1]\<rparr>)"
    by (rule spsc_next [OF _ call_write]) (simp_all add: spsc16_def isize_max_def)
  then have "spsc_reach ring16 (spsc16 0 [] (WGotW [1] 0) RIdle [])"
    by (rule spsc_writer_to) code_simp+
  then have "spsc_reach ring16 (spsc16 0 [] (WSpace [1] 0) RIdle [])"
    by (rule spsc_writer_to) code_simp+
  then have "spsc_reach ring16 (spsc16 0 [1] (WPrefixed [1] 0) RIdle [])"
    by (rule spsc_writer_to) code_simp+
  then have "spsc_reach ring16 (spsc16 0 [1, 0, 0, 0, 1] (WCopied [1] 0) RIdle [])"
    by (rule spsc_writer_to) code_simp+
  then show ?thesis by (rule spsc_writer_to) code_simp+
qed

lemma spsc_demo_both:
  "spsc_reach ring16 (spsc16 5 [1, 0, 0, 0, 1] (WSpace [2, 3] 5) (RGo [0, 0] 0) [[1]])"
proof -
  have "spsc_reach ring16 ((spsc16 5 [1, 0, 0, 0, 1] WIdle RIdle [[1]])\<lparr>reader_at := RBegin [0, 0]\<rparr>)"
    by (rule spsc_next [OF spsc_demo_written call_read]) (simp_all add: spsc16_def isize_max_def)
  then have "spsc_reach ring16 (spsc16 5 [1, 0, 0, 0, 1] WIdle (RGotW [0, 0] 5) [[1]])"
    by (rule spsc_reader_to) code_simp+
  then have "spsc_reach ring16 (spsc16 5 [1, 0, 0, 0, 1] WIdle (RGo [0, 0] 0) [[1]])"
    by (rule spsc_reader_to) code_simp+
  then have "spsc_reach ring16 ((spsc16 5 [1, 0, 0, 0, 1] WIdle (RGo [0, 0] 0) [[1]])\<lparr>writer_at := WBegin [2, 3]\<rparr>)"
    by (rule spsc_next [OF _ call_write]) (simp_all add: spsc16_def isize_max_def)
  then have "spsc_reach ring16 (spsc16 5 [1, 0, 0, 0, 1] (WGotW [2, 3] 5) (RGo [0, 0] 0) [[1]])"
    by (rule spsc_writer_to) code_simp+
  then show ?thesis by (rule spsc_writer_to) code_simp+
qed

theorem spsc_race_free_witness:
  "\<exists>s. spsc_reach ring16 s \<and> writer_at s = WSpace [2, 3] 5 \<and> reader_at s = RGo [0, 0] 0
     \<and> writer_cells (shared s) (writer_at s) \<inter> reader_cells (shared s) (reader_at s) = {}"
proof -
  let ?s = "spsc16 5 [1, 0, 0, 0, 1] (WSpace [2, 3] 5) (RGo [0, 0] 0) [[1]]"
  have "\<not> crossed ?s" by (simp add: spsc16_def)
  from spsc_race_free [OF spsc_demo_both ring16_rep this] spsc_demo_both show ?thesis
    by (intro exI [of _ ?s]) (simp add: spsc16_def)
qed

end
