(* ===== verification/Ring_Threads.thy ===== *)
theory Ring_Threads
  imports Ring_Concurrent "HOL-Library.Sublist"
begin

section \<open>Many threads on one handle\<close>

text \<open>
  The calls of a gateway, and the workers of a backend, run on the threads of one process and share
  one \<^verbatim>\<open>SharedMemoryRingBuffer\<close>. \<^verbatim>\<open>write\<close> and \<^verbatim>\<open>read\<close> first take the mutexes \<^verbatim>\<open>write_lock\<close> and
  \<^verbatim>\<open>read_lock\<close> of the handle and give them back when they return. Here any number of threads call
  \<^verbatim>\<open>write\<close> on one end and \<^verbatim>\<open>read\<close> on the other; the accesses inside a call are the steps of theory
  \<open>Ring_Concurrent\<close>, and a step of any thread may come between two of them. A panic while a lock
  is held (\<open>broken\<close>) ends the model, so no lock is found poisoned.
\<close>

subsection \<open>States and steps\<close>

datatype write_call = WOutside | WBlocked bytes | WInside bytes

datatype read_call = ROutside | RBlocked bytes | RInside

text \<open>\<open>asked\<close> are the messages a thread has called \<open>write\<close> with, in order; \<open>sent_by\<close> and \<open>got_by\<close> what
  was published and received, and by whom.\<close>

record threads =
  ends :: spsc
  write_lock :: "nat option"
  read_lock :: "nat option"
  writing :: "nat \<Rightarrow> write_call"
  reading :: "nat \<Rightarrow> read_call"
  asked :: "nat \<Rightarrow> bytes list"
  sent_by :: "(nat \<times> bytes) list"
  got_by :: "(nat \<times> bytes) list"

datatype thread_action =
    Ask_write nat bytes
  | Lock_write nat
  | Move_write
  | Unlock_write
  | Ask_read nat bytes
  | Lock_read nat
  | Move_read
  | Unlock_read

text \<open>What a step has added to a log, under the name of the thread.\<close>

definition logged :: "nat \<Rightarrow> bytes list \<Rightarrow> bytes list \<Rightarrow> (nat \<times> bytes) list" where
  "logged i old new = map (Pair i) (drop (length old) new)"

fun write_action :: "thread_action \<Rightarrow> threads \<Rightarrow> threads option" where
  "write_action (Ask_write i p) s =
     (if writing s i = WOutside \<and> length p \<le> isize_max
      then Some (s\<lparr>writing := (writing s)(i := WBlocked p), asked := (asked s)(i := asked s i @ [p])\<rparr>) else None)"
| "write_action (Lock_write i) s =
     (case writing s i of
        WBlocked p \<Rightarrow>
          if write_lock s = None
          then Some (s\<lparr>write_lock := Some i, writing := (writing s)(i := WInside p),
                       ends := (ends s)\<lparr>writer_at := WBegin p\<rparr>\<rparr>)
          else None
      | _ \<Rightarrow> None)"
| "write_action Move_write s =
     (case write_lock s of
        Some i \<Rightarrow>
          if writer_at (ends s) = WIdle then None
          else (let e = writer_step (ends s) in
            Some (s\<lparr>ends := e, sent_by := sent_by s @ logged i (sent_log (ends s)) (sent_log e)\<rparr>))
      | None \<Rightarrow> None)"
| "write_action Unlock_write s =
     (case write_lock s of
        Some i \<Rightarrow>
          if writer_at (ends s) = WIdle
          then Some (s\<lparr>write_lock := None, writing := (writing s)(i := WOutside)\<rparr>) else None
      | None \<Rightarrow> None)"
| "write_action _ s = None"

fun read_action :: "thread_action \<Rightarrow> threads \<Rightarrow> threads option" where
  "read_action (Ask_read i buf) s =
     (if reading s i = ROutside \<and> length buf \<le> isize_max
      then Some (s\<lparr>reading := (reading s)(i := RBlocked buf)\<rparr>) else None)"
| "read_action (Lock_read i) s =
     (case reading s i of
        RBlocked buf \<Rightarrow>
          if read_lock s = None
          then Some (s\<lparr>read_lock := Some i, reading := (reading s)(i := RInside),
                       ends := (ends s)\<lparr>reader_at := RBegin buf\<rparr>\<rparr>)
          else None
      | _ \<Rightarrow> None)"
| "read_action Move_read s =
     (case read_lock s of
        Some i \<Rightarrow>
          if reader_at (ends s) = RIdle then None
          else (let e = reader_step (ends s) in
            Some (s\<lparr>ends := e, got_by := got_by s @ logged i (recv_log (ends s)) (recv_log e)\<rparr>))
      | None \<Rightarrow> None)"
| "read_action Unlock_read s =
     (case read_lock s of
        Some i \<Rightarrow>
          if reader_at (ends s) = RIdle
          then Some (s\<lparr>read_lock := None, reading := (reading s)(i := ROutside)\<rparr>) else None
      | None \<Rightarrow> None)"
| "read_action _ s = None"

definition threads_step :: "thread_action \<Rightarrow> threads \<Rightarrow> threads option" where
  "threads_step a s =
     (if broken (ends s) \<noteq> None then None
      else case a of
        Ask_write i p \<Rightarrow> write_action a s
      | Lock_write i \<Rightarrow> write_action a s
      | Move_write \<Rightarrow> write_action a s
      | Unlock_write \<Rightarrow> write_action a s
      | _ \<Rightarrow> read_action a s)"

definition threads_init :: "ring \<Rightarrow> threads" where
  "threads_init r = \<lparr>ends = spsc_init r, write_lock = None, read_lock = None, writing = (\<lambda>_. WOutside),
     reading = (\<lambda>_. ROutside), asked = (\<lambda>_. []), sent_by = [], got_by = []\<rparr>"

inductive threads_reach :: "ring \<Rightarrow> threads \<Rightarrow> bool" for r where
  threads_start: "threads_reach r (threads_init r)"
| threads_next: "threads_reach r s \<Longrightarrow> threads_step a s = Some t \<Longrightarrow> threads_reach r t"

subsection \<open>What a step inside a call does to the logs\<close>

fun writer_payload :: "writer \<Rightarrow> bytes option" where
  "writer_payload WIdle = None"
| "writer_payload (WBegin p) = Some p"
| "writer_payload (WGotW p w) = Some p"
| "writer_payload (WSpace p w) = Some p"
| "writer_payload (WPrefixed p w) = Some p"
| "writer_payload (WCopied p w) = Some p"

text \<open>A step publishes the message of the call and ends it, or publishes nothing.\<close>

lemma writer_step_log:
  assumes "writer_payload (writer_at e) = Some p"
  shows "sent_log (writer_step e) = sent_log e @ [p] \<and> writer_at (writer_step e) = WIdle
    \<or> sent_log (writer_step e) = sent_log e
      \<and> (writer_at (writer_step e) = WIdle \<or> writer_payload (writer_at (writer_step e)) = Some p)"
  using assms by (cases "writer_at e") (auto simp: writer_step_simps split: option.splits)

lemma reader_step_log: "\<exists>ms. recv_log (reader_step e) = recv_log e @ ms"
  by (cases "reader_at e") (auto simp: reader_step_simps Let_def split: option.splits)

lemma writer_step_ends [simp]:
  "recv_log (writer_step e) = recv_log e" "reader_at (writer_step e) = reader_at e"
  by (cases "writer_at e"; simp add: writer_step_simps split: option.split)+

lemma reader_step_ends [simp]:
  "sent_log (reader_step e) = sent_log e" "writer_at (reader_step e) = writer_at e"
  by (cases "reader_at e"; simp add: reader_step_simps Let_def split: option.split)+

lemma logged_snd: "new = old @ ms \<Longrightarrow> map snd (logged i old new) = ms"
  by (simp add: logged_def comp_def)

subsection \<open>The invariant\<close>

definition sent_of :: "nat \<Rightarrow> threads \<Rightarrow> bytes list" where
  "sent_of i s = map snd (filter (\<lambda>x. fst x = i) (sent_by s))"

text \<open>What a thread has published are some of the messages it asked for, in its order; the message
  of a call under way is the last one it asked for and not among them until it is published.\<close>

definition writes_ok :: "writer \<Rightarrow> write_call \<Rightarrow> bytes list \<Rightarrow> bytes list \<Rightarrow> bool" where
  "writes_ok w call sent wanted \<longleftrightarrow>
     (case call of
        WOutside \<Rightarrow> subseq sent wanted
      | WBlocked p \<Rightarrow> \<exists>xs. wanted = xs @ [p] \<and> subseq sent xs
      | WInside p \<Rightarrow>
          if w = WIdle then subseq sent wanted
          else writer_payload w = Some p \<and> (\<exists>xs. wanted = xs @ [p] \<and> subseq sent xs))"

definition locks_ok :: "threads \<Rightarrow> bool" where
  "locks_ok s \<longleftrightarrow>
     (\<forall>i. (\<exists>p. writing s i = WInside p) \<longleftrightarrow> write_lock s = Some i)
   \<and> (\<forall>i. reading s i = RInside \<longleftrightarrow> read_lock s = Some i)
   \<and> (write_lock s = None \<longrightarrow> writer_at (ends s) = WIdle)
   \<and> (read_lock s = None \<longrightarrow> reader_at (ends s) = RIdle)"

definition threads_inv :: "threads \<Rightarrow> bool" where
  "threads_inv s \<longleftrightarrow> locks_ok s
   \<and> map snd (sent_by s) = sent_log (ends s) \<and> map snd (got_by s) = recv_log (ends s)
   \<and> (\<forall>i. writes_ok (writer_at (ends s)) (writing s i) (sent_of i s) (asked s i))"

lemma lock_holder:
  "threads_inv s \<Longrightarrow> write_lock s = Some i \<Longrightarrow> \<exists>p. writing s i = WInside p"
  "threads_inv s \<Longrightarrow> read_lock s = Some i \<Longrightarrow> reading s i = RInside"
  unfolding threads_inv_def locks_ok_def by blast+

lemma threads_inv_init: "threads_inv (threads_init r)"
  by (simp add: threads_inv_def locks_ok_def threads_init_def spsc_init_def sent_of_def writes_ok_def)

lemma sent_of_logged:
  "sent_of j (s\<lparr>ends := e, sent_by := sent_by s @ logged i old new\<rparr>)
     = sent_of j s @ (if i = j then drop (length old) new else [])"
  by (simp add: sent_of_def logged_def filter_map comp_def)

lemma sent_of_frame [simp]:
  "sent_of j (s\<lparr>ends := e\<rparr>) = sent_of j s" "sent_of j (s\<lparr>writing := x\<rparr>) = sent_of j s"
  "sent_of j (s\<lparr>asked := y\<rparr>) = sent_of j s" "sent_of j (s\<lparr>write_lock := l\<rparr>) = sent_of j s"
  "sent_of j (s\<lparr>reading := z\<rparr>) = sent_of j s" "sent_of j (s\<lparr>read_lock := l\<rparr>) = sent_of j s"
  "sent_of j (s\<lparr>got_by := g\<rparr>) = sent_of j s"
  by (simp_all add: sent_of_def)

text \<open>Only the thread inside a call looks at the writer.\<close>

lemma writes_ok_outside:
  "(\<And>p. call \<noteq> WInside p) \<Longrightarrow> writes_ok w call sent wanted = writes_ok w' call sent wanted"
  by (cases call) (auto simp: writes_ok_def)

lemma write_action_inv:
  assumes inv: "threads_inv s" and step: "write_action a s = Some t"
  shows "threads_inv t"
proof (cases a)
  case (Ask_write i p)
  then have t: "writing s i = WOutside"
    "t = s\<lparr>writing := (writing s)(i := WBlocked p), asked := (asked s)(i := asked s i @ [p])\<rparr>"
    using step by (auto split: if_splits)
  have "writes_ok (writer_at (ends s)) (writing s i) (sent_of i s) (asked s i)"
    using inv by (simp add: threads_inv_def)
  then have "subseq (sent_of i s) (asked s i)" by (simp add: t(1) writes_ok_def)
  then have "writes_ok (writer_at (ends s)) (WBlocked p) (sent_of i s) (asked s i @ [p])"
    by (simp add: writes_ok_def)
  moreover have "write_lock s \<noteq> Some i" using lock_holder(1) [OF inv, of i] t(1) by auto
  then have "locks_ok t" using inv by (auto simp: threads_inv_def locks_ok_def t)
  ultimately show ?thesis using inv by (auto simp: threads_inv_def t)
next
  case (Lock_write i)
  then obtain p where t: "writing s i = WBlocked p" "write_lock s = None"
    "t = s\<lparr>write_lock := Some i, writing := (writing s)(i := WInside p), ends := (ends s)\<lparr>writer_at := WBegin p\<rparr>\<rparr>"
    using step by (auto split: write_call.splits if_splits)
  have out: "\<And>j q. writing s j \<noteq> WInside q" using inv t(2) by (fastforce simp: threads_inv_def locks_ok_def)
  have ok: "writes_ok (writer_at (ends s)) (writing s j) (sent_of j s) (asked s j)" for j
    using inv by (simp add: threads_inv_def)
  have "writes_ok (WBegin p) (WInside p) (sent_of i s) (asked s i)"
    using ok [of i] by (simp add: t(1) writes_ok_def)
  moreover have "writes_ok (WBegin p) (writing s j) (sent_of j s) (asked s j)" for j
    using ok [of j] writes_ok_outside [OF out] by blast
  moreover have "locks_ok t" using inv out by (auto simp: threads_inv_def locks_ok_def t)
  ultimately show ?thesis using inv by (auto simp: threads_inv_def t)
next
  case Move_write
  then obtain i where t: "write_lock s = Some i" "writer_at (ends s) \<noteq> WIdle"
    "t = s\<lparr>ends := writer_step (ends s),
       sent_by := sent_by s @ logged i (sent_log (ends s)) (sent_log (writer_step (ends s)))\<rparr>"
    using step by (auto simp: Let_def split: option.splits if_splits)
  obtain p where p: "writing s i = WInside p" using lock_holder(1) [OF inv t(1)] by blast
  have ok: "writes_ok (writer_at (ends s)) (writing s j) (sent_of j s) (asked s j)" for j
    using inv by (simp add: threads_inv_def)
  from ok [of i] p t(2) obtain xs where xs: "writer_payload (writer_at (ends s)) = Some p"
    "asked s i = xs @ [p]" "subseq (sent_of i s) xs"
    by (auto simp: writes_ok_def)
  note log = writer_step_log [OF xs(1)]
  have logs: "map snd (sent_by t) = sent_log (ends t)"
    using log inv by (auto simp: t threads_inv_def logged_def comp_def)
  have "writes_ok (writer_at (ends t)) (WInside p) (sent_of i t) (asked t i)"
    using log xs(2,3) subseq_order.trans [OF xs(3), of "xs @ [p]"]
    by (auto simp: t sent_of_logged writes_ok_def)
  moreover have "writes_ok (writer_at (ends t)) (writing s j) (sent_of j t) (asked t j)" if "j \<noteq> i" for j
  proof -
    have "\<And>q. writing s j \<noteq> WInside q" using inv t(1) that by (fastforce simp: threads_inv_def locks_ok_def)
    from ok [of j] writes_ok_outside [of "writing s j", OF this]
    have "writes_ok (writer_at (ends t)) (writing s j) (sent_of j s) (asked s j)" by blast
    with that show ?thesis by (simp add: t sent_of_logged)
  qed
  moreover have "writing t = writing s" by (simp add: t)
  ultimately have "\<forall>j. writes_ok (writer_at (ends t)) (writing t j) (sent_of j t) (asked t j)"
    using p by (metis (no_types))
  moreover have "locks_ok t" using inv t(1) by (simp add: threads_inv_def locks_ok_def t)
  ultimately show ?thesis using inv logs by (simp add: threads_inv_def t)
next
  case Unlock_write
  then obtain i where t: "write_lock s = Some i" "writer_at (ends s) = WIdle"
    "t = s\<lparr>write_lock := None, writing := (writing s)(i := WOutside)\<rparr>"
    using step by (auto split: option.splits if_splits)
  obtain p where p: "writing s i = WInside p" using lock_holder(1) [OF inv t(1)] by blast
  have "writes_ok (writer_at (ends s)) (writing s i) (sent_of i s) (asked s i)"
    using inv by (simp add: threads_inv_def)
  then have "writes_ok (writer_at (ends s)) WOutside (sent_of i s) (asked s i)"
    by (simp add: p t(2) writes_ok_def)
  moreover have "locks_ok t" using inv t(1,2) by (fastforce simp: threads_inv_def locks_ok_def t(3))
  ultimately show ?thesis using inv by (auto simp: threads_inv_def t(3))
qed (use step in simp_all)

lemma read_action_inv:
  assumes inv: "threads_inv s" and step: "read_action a s = Some t"
  shows "threads_inv t"
proof (cases a)
  case (Ask_read i buf)
  then have t: "reading s i = ROutside" "t = s\<lparr>reading := (reading s)(i := RBlocked buf)\<rparr>"
    using step by (auto split: if_splits)
  have "read_lock s \<noteq> Some i" using lock_holder(2) [OF inv, of i] t(1) by auto
  then have "locks_ok t" using inv by (auto simp: threads_inv_def locks_ok_def t(2))
  then show ?thesis using inv by (simp add: threads_inv_def t(2))
next
  case (Lock_read i)
  then obtain buf where t: "reading s i = RBlocked buf" "read_lock s = None"
    "t = s\<lparr>read_lock := Some i, reading := (reading s)(i := RInside), ends := (ends s)\<lparr>reader_at := RBegin buf\<rparr>\<rparr>"
    using step by (auto split: read_call.splits if_splits)
  then show ?thesis using inv by (auto simp: threads_inv_def locks_ok_def)
next
  case Move_read
  then obtain i where t: "read_lock s = Some i" "reader_at (ends s) \<noteq> RIdle"
    "t = s\<lparr>ends := reader_step (ends s),
       got_by := got_by s @ logged i (recv_log (ends s)) (recv_log (reader_step (ends s)))\<rparr>"
    using step by (auto simp: Let_def split: option.splits if_splits)
  obtain ms where "recv_log (reader_step (ends s)) = recv_log (ends s) @ ms" using reader_step_log by blast
  with inv t show ?thesis by (simp add: threads_inv_def locks_ok_def logged_snd)
next
  case Unlock_read
  then obtain i where t: "read_lock s = Some i" "reader_at (ends s) = RIdle"
    "t = s\<lparr>read_lock := None, reading := (reading s)(i := ROutside)\<rparr>"
    using step by (auto split: option.splits if_splits)
  have "locks_ok t" using inv t(1,2) by (fastforce simp: threads_inv_def locks_ok_def t(3))
  then show ?thesis using inv by (simp add: threads_inv_def t(3))
qed (use step in simp_all)

lemma threads_stepD:
  "threads_step a s = Some t \<Longrightarrow> broken (ends s) = None \<and> (write_action a s = Some t \<or> read_action a s = Some t)"
  by (cases a) (simp_all add: threads_step_def split: if_splits)

lemma threads_step_inv: "threads_inv s \<Longrightarrow> threads_step a s = Some t \<Longrightarrow> threads_inv t"
  using threads_stepD write_action_inv read_action_inv by blast

lemma threads_reach_inv: "threads_reach r s \<Longrightarrow> threads_inv s"
  by (induction rule: threads_reach.induct) (blast intro: threads_inv_init threads_step_inv)+

text \<open>The buffers are slices, so no longer than the address space allows.\<close>

lemma threads_reach_size:
  "threads_reach r s \<Longrightarrow> (\<forall>i p. writing s i = WBlocked p \<longrightarrow> length p \<le> isize_max)
     \<and> (\<forall>i b. reading s i = RBlocked b \<longrightarrow> length b \<le> isize_max)"
proof (induction rule: threads_reach.induct)
  case threads_start
  show ?case by (simp add: threads_init_def)
next
  case (threads_next s a t)
  from threads_stepD [OF threads_next.hyps(2)] threads_next.IH show ?case
    by (cases a) (auto simp: Let_def split: write_call.splits read_call.splits option.splits if_splits)
qed

subsection \<open>The threads of an end act as one process\<close>

text \<open>The refinement map is \<open>ends\<close>: a call enters only when no other is under way.\<close>

lemma threads_reach_spsc:
  "threads_reach r s \<Longrightarrow> spsc_reach r (ends s)"
proof (induction rule: threads_reach.induct)
  case threads_start
  show ?case by (simp add: threads_init_def spsc_start)
next
  case (threads_next s a t)
  have inv: "threads_inv s" using threads_next.hyps(1) by (rule threads_reach_inv)
  note live = threads_stepD [OF threads_next.hyps(2)]
  have idle: "write_lock s = None \<Longrightarrow> writer_at (ends s) = WIdle" "read_lock s = None \<Longrightarrow> reader_at (ends s) = RIdle"
    using inv by (simp_all add: threads_inv_def locks_ok_def)
  have size: "writing s i = WBlocked p \<Longrightarrow> length p \<le> isize_max" "reading s i = RBlocked b \<Longrightarrow> length b \<le> isize_max" for i p b
    using threads_next.hyps(1) by (simp_all add: threads_reach_size)
  from live have "spsc_step (ends s) (ends t) \<or> ends t = ends s"
  proof (elim conjE disjE)
    assume ok: "broken (ends s) = None" and step: "write_action a s = Some t"
    show ?thesis
    proof (cases a)
      case (Lock_write i)
      then obtain p where p: "writing s i = WBlocked p" "write_lock s = None" "ends t = (ends s)\<lparr>writer_at := WBegin p\<rparr>"
        using step by (auto split: write_call.splits if_splits)
      show ?thesis unfolding p(3) by (intro disjI1 call_write ok idle(1) size(1) [OF p(1)] p(2))
    qed (use step ok in \<open>auto simp: Let_def intro: writer_moves split: option.splits if_splits\<close>)
  next
    assume ok: "broken (ends s) = None" and step: "read_action a s = Some t"
    show ?thesis
    proof (cases a)
      case (Lock_read i)
      then obtain b where b: "reading s i = RBlocked b" "read_lock s = None" "ends t = (ends s)\<lparr>reader_at := RBegin b\<rparr>"
        using step by (auto split: read_call.splits if_splits)
      show ?thesis unfolding b(3) by (intro disjI1 call_read ok idle(2) size(2) [OF b(1)] b(2))
    qed (use step ok in \<open>auto simp: Let_def intro: reader_moves split: option.splits if_splits\<close>)
  qed
  then show ?case using threads_next.IH spsc_next by auto
qed

text \<open>No thread waits for ever because of the locks: the one inside can move or leave, and when
  nobody is inside, a blocked thread can enter.\<close>

definition thread_busy :: "threads \<Rightarrow> nat \<Rightarrow> bool" where
  "thread_busy s i \<longleftrightarrow> writing s i \<noteq> WOutside \<or> reading s i \<noteq> ROutside"

lemma threads_can_move:
  assumes inv: "threads_inv s" and live: "broken (ends s) = None" and busy: "thread_busy s i"
  shows "\<exists>a t. a \<in> {Move_write, Unlock_write, Lock_write i, Move_read, Unlock_read, Lock_read i} \<and> threads_step a s = Some t"
proof -
  have w: "\<exists>a t. a \<in> {Move_write, Unlock_write, Lock_write i} \<and> threads_step a s = Some t" if "writing s i \<noteq> WOutside"
  proof (cases "write_lock s")
    case None
    with lock_holder(1) [OF inv] inv that obtain p where "writing s i = WBlocked p"
      by (cases "writing s i") (auto simp: threads_inv_def locks_ok_def)
    with None live show ?thesis by (intro exI [of _ "Lock_write i"]) (simp add: threads_step_def)
  next
    case (Some j)
    show ?thesis
    proof (cases "writer_at (ends s) = WIdle")
      case True
      with Some live show ?thesis by (intro exI [of _ Unlock_write]) (simp add: threads_step_def)
    next
      case False
      with Some live show ?thesis by (intro exI [of _ Move_write]) (simp add: threads_step_def Let_def)
    qed
  qed
  have r: "\<exists>a t. a \<in> {Move_read, Unlock_read, Lock_read i} \<and> threads_step a s = Some t" if "reading s i \<noteq> ROutside"
  proof (cases "read_lock s")
    case None
    with lock_holder(2) [OF inv] inv that obtain b where "reading s i = RBlocked b"
      by (cases "reading s i") (auto simp: threads_inv_def locks_ok_def)
    with None live show ?thesis by (intro exI [of _ "Lock_read i"]) (simp add: threads_step_def)
  next
    case (Some j)
    show ?thesis
    proof (cases "reader_at (ends s) = RIdle")
      case True
      with Some live show ?thesis by (intro exI [of _ Unlock_read]) (simp add: threads_step_def)
    next
      case False
      with Some live show ?thesis by (intro exI [of _ Move_read]) (simp add: threads_step_def Let_def)
    qed
  qed
  from w r busy show ?thesis unfolding thread_busy_def by blast
qed

subsection \<open>Properties\<close>

text \<open>C4. Any number of threads may share the two ends of a ring: under every interleaving of their
  calls, as long as no prefix straddles the end, no access faults, the messages received by all
  the threads are, in order and unchanged, the first of the messages sent by all of them, each
  thread's messages were sent in the order of its calls, and the locks never leave a thread
  waiting with nobody able to move.\<close>

theorem threads_fifo:
  assumes "threads_reach r s" "ring_rep r []" "\<not> crossed (ends s)"
  shows "broken (ends s) = None
    \<and> (\<exists>q. map snd (sent_by s) = map snd (got_by s) @ q \<and> ring_rep (shared (ends s)) q)
    \<and> (\<forall>i. subseq (map snd (filter (\<lambda>x. fst x = i) (sent_by s))) (asked s i))
    \<and> (\<forall>i. thread_busy s i \<longrightarrow> (\<exists>a t. a \<in> {Move_write, Unlock_write, Lock_write i, Move_read, Unlock_read, Lock_read i}
        \<and> threads_step a s = Some t))"
proof -
  have inv: "threads_inv s" using assms(1) by (rule threads_reach_inv)
  note fifo = spsc_reach_fifo [OF threads_reach_spsc [OF assms(1)] assms(2,3)]
  have "subseq (sent_of i s) (asked s i)" for i
  proof -
    have "writes_ok (writer_at (ends s)) (writing s i) (sent_of i s) (asked s i)"
      using inv by (simp add: threads_inv_def)
    then show ?thesis
      by (auto simp: writes_ok_def split: write_call.splits if_splits intro: subseq_order.trans)
  qed
  with fifo inv threads_can_move [OF inv] show ?thesis
    unfolding threads_inv_def sent_of_def by auto
qed

text \<open>The steps of a list of actions.\<close>

fun threads_run :: "thread_action list \<Rightarrow> threads \<Rightarrow> threads option" where
  "threads_run [] s = Some s"
| "threads_run (a # as) s = Option.bind (threads_step a s) (threads_run as)"

lemma threads_run_reach: "threads_reach r s \<Longrightarrow> threads_run as s = Some t \<Longrightarrow> threads_reach r t"
  by (induction as arbitrary: s) (auto simp: bind_eq_Some_conv intro: threads_next)

text \<open>Thread 4 sends one message while thread 7 is blocked; thread 2 receives it.\<close>

definition threads_demo :: "thread_action list" where
  "threads_demo = [Ask_write 4 [1], Ask_write 7 [2], Lock_write 4, Move_write, Move_write, Move_write,
     Move_write, Move_write, Unlock_write, Ask_read 2 [0, 0], Lock_read 2, Move_read, Move_read, Move_read, Move_read, Move_read]"

definition demo_area :: bytes where
  "demo_area = [1, 0, 0, 0, 1]"

lemma demo_steps:
  "spsc_init ring16 = spsc16 0 [] WIdle RIdle []"
  "(spsc16 0 [] WIdle RIdle [])\<lparr>writer_at := WBegin [1]\<rparr> = spsc16 0 [] (WBegin [1]) RIdle []"
  "writer_step (spsc16 0 [] (WBegin [1]) RIdle []) = spsc16 0 [] (WGotW [1] 0) RIdle []"
  "writer_step (spsc16 0 [] (WGotW [1] 0) RIdle []) = spsc16 0 [] (WSpace [1] 0) RIdle []"
  "writer_step (spsc16 0 [] (WSpace [1] 0) RIdle []) = spsc16 0 [1] (WPrefixed [1] 0) RIdle []"
  "writer_step (spsc16 0 [1] (WPrefixed [1] 0) RIdle []) = spsc16 0 demo_area (WCopied [1] 0) RIdle []"
  "writer_step (spsc16 0 demo_area (WCopied [1] 0) RIdle []) = spsc16 5 demo_area WIdle RIdle [[1]]"
  "(spsc16 5 demo_area WIdle RIdle [[1]])\<lparr>reader_at := RBegin [0, 0]\<rparr> = spsc16 5 demo_area WIdle (RBegin [0, 0]) [[1]]"
  "reader_step (spsc16 5 demo_area WIdle (RBegin [0, 0]) [[1]]) = spsc16 5 demo_area WIdle (RGotW [0, 0] 5) [[1]]"
  "reader_step (spsc16 5 demo_area WIdle (RGotW [0, 0] 5) [[1]]) = spsc16 5 demo_area WIdle (RGo [0, 0] 0) [[1]]"
  "reader_step (spsc16 5 demo_area WIdle (RGo [0, 0] 0) [[1]]) = spsc16 5 demo_area WIdle (RLen [0, 0] 0 1) [[1]]"
  "reader_step (spsc16 5 demo_area WIdle (RLen [0, 0] 0 1) [[1]]) = spsc16 5 demo_area WIdle (RCopied [1, 0] 0 1) [[1]]"
  "recv_log (reader_step (spsc16 5 demo_area WIdle (RCopied [1, 0] 0 1) [[1]])) = [[1]]"
  "crossed (reader_step (spsc16 5 demo_area WIdle (RCopied [1, 0] 0 1) [[1]])) = False"
  by code_simp+

lemma spsc16_simps [simp]:
  "writer_at (spsc16 wp f w r l) = w" "reader_at (spsc16 wp f w r l) = r" "broken (spsc16 wp f w r l) = None"
  "sent_log (spsc16 wp f w r l) = l" "recv_log (spsc16 wp f w r l) = []"
  by (simp_all add: spsc16_def)

lemma threads_demo_run:
  "\<exists>s. threads_run threads_demo (threads_init ring16) = Some s \<and> sent_by s = [(4, [1])] \<and> got_by s = [(2, [1])]
    \<and> thread_busy s 7 \<and> \<not> crossed (ends s)"
  by (simp add: threads_demo_def threads_init_def threads_step_def demo_steps logged_def isize_max_def thread_busy_def Let_def)

theorem threads_fifo_witness:
  "\<exists>s. threads_reach ring16 s \<and> sent_by s = [(4, [1])] \<and> got_by s = [(2, [1])] \<and> thread_busy s 7
    \<and> (\<exists>q. map snd (sent_by s) = map snd (got_by s) @ q \<and> ring_rep (shared (ends s)) q)"
proof -
  obtain s where s: "threads_run threads_demo (threads_init ring16) = Some s" "sent_by s = [(4, [1])]"
    "got_by s = [(2, [1])]" "thread_busy s 7" "\<not> crossed (ends s)"
    using threads_demo_run by blast
  have reach: "threads_reach ring16 s" by (rule threads_run_reach [OF threads_start s(1)])
  from threads_fifo [OF reach ring16_rep s(5)] reach s(2-4) show ?thesis by blast
qed

end
