(* ===== verification/Event_Fd.thy ===== *)
theory Event_Fd
  imports Shm_Lib
begin

section \<open>The eventfd wrapper\<close>

text \<open>
  \<^verbatim>\<open>shared-memory/src/eventfd.rs\<close>. The four system calls it makes are a parameter
  (\<open>efd_sys\<close>); \<open>efd_laws\<close> states what \<^verbatim>\<open>eventfd(2)\<close>, \<^verbatim>\<open>read(2)\<close>, \<^verbatim>\<open>write(2)\<close> and
  \<^verbatim>\<open>close(2)\<close> document for a non-blocking eventfd, in terms of the counter and the semaphore
  flag behind an open descriptor.
\<close>

datatype efd_flag = EFD_CLOEXEC | EFD_NONBLOCK | EFD_SEMAPHORE

record 'k efd_sys =
  sys_eventfd :: "u32 \<Rightarrow> efd_flag list \<Rightarrow> 'k \<Rightarrow> (errno + int) \<times> 'k"
  sys_read :: "int \<Rightarrow> nat \<Rightarrow> 'k \<Rightarrow> (errno + bytes) \<times> 'k"
  sys_write :: "int \<Rightarrow> bytes \<Rightarrow> 'k \<Rightarrow> (errno + nat) \<times> 'k"
  sys_close :: "int \<Rightarrow> 'k \<Rightarrow> 'k"

subsection \<open>The documented behaviour\<close>

text \<open>
  A descriptor is a number that refers to an open file; several descriptors, also of different
  processes, may refer to the same one. The counter and the semaphore flag belong to the file; files
  are numbered.
\<close>

record 'k efd_view =
  file_at :: "'k \<Rightarrow> int \<Rightarrow> nat option"
  counter_at :: "'k \<Rightarrow> nat \<Rightarrow> nat \<times> bool"
  unused_fd :: "'k \<Rightarrow> int \<Rightarrow> bool"

definition efd_max :: nat where
  "efd_max = 2 ^ 64 - 2"

definition efd_open_laws :: "'k efd_sys \<Rightarrow> 'k efd_view \<Rightarrow> bool" where
  "efd_open_laws sys view \<longleftrightarrow>
     (\<forall>v flags k fd k'. sys_eventfd sys v flags k = (Inr fd, k') \<longrightarrow>
        (\<exists>x. x \<notin> ran (file_at view k) \<and> unused_fd view k fd \<and> file_at view k' = (file_at view k)(fd \<mapsto> x)
           \<and> counter_at view k' = (counter_at view k)(x := (unat v, EFD_SEMAPHORE \<in> set flags))))
   \<and> (\<forall>fd k. unused_fd view (sys_close sys fd k) fd
        \<and> file_at view (sys_close sys fd k) = (file_at view k)(fd := None)
        \<and> counter_at view (sys_close sys fd k) = counter_at view k)
   \<and> (\<forall>fd k. unused_fd view k fd \<longrightarrow> file_at view k fd = None)"

definition efd_read_laws :: "'k efd_sys \<Rightarrow> 'k efd_view \<Rightarrow> bool" where
  "efd_read_laws sys view \<longleftrightarrow>
     (\<forall>fd k. unused_fd view k fd \<longrightarrow> sys_read sys fd 8 k = (Inl EBADF, k))
   \<and> (\<forall>fd k x c sem. file_at view k fd = Some x \<longrightarrow> counter_at view k x = (c, sem) \<longrightarrow>
        (if c = 0 then sys_read sys fd 8 k = (Inl EAGAIN, k)
         else fst (sys_read sys fd 8 k) = Inr (le_encode 8 (if sem then 1 else c))
            \<and> file_at view (snd (sys_read sys fd 8 k)) = file_at view k
            \<and> counter_at view (snd (sys_read sys fd 8 k)) = (counter_at view k)(x := (if sem then c - 1 else 0, sem))))"

definition efd_write_laws :: "'k efd_sys \<Rightarrow> 'k efd_view \<Rightarrow> bool" where
  "efd_write_laws sys view \<longleftrightarrow>
     (\<forall>fd v k. unused_fd view k fd \<longrightarrow> sys_write sys fd (le_encode 8 v) k = (Inl EBADF, k))
   \<and> (\<forall>fd v k x c sem. v \<le> efd_max \<longrightarrow> file_at view k fd = Some x \<longrightarrow> counter_at view k x = (c, sem) \<longrightarrow>
        (if efd_max < c + v then sys_write sys fd (le_encode 8 v) k = (Inl EAGAIN, k)
         else fst (sys_write sys fd (le_encode 8 v) k) = Inr 8
            \<and> file_at view (snd (sys_write sys fd (le_encode 8 v) k)) = file_at view k
            \<and> counter_at view (snd (sys_write sys fd (le_encode 8 v) k)) = (counter_at view k)(x := (c + v, sem))))"

definition efd_bounded :: "'k efd_view \<Rightarrow> bool" where
  "efd_bounded view \<longleftrightarrow> (\<forall>k fd x. file_at view k fd = Some x \<longrightarrow> fst (counter_at view k x) \<le> efd_max)"

definition efd_laws :: "'k efd_sys \<Rightarrow> 'k efd_view \<Rightarrow> bool" where
  "efd_laws sys view \<longleftrightarrow> efd_open_laws sys view \<and> efd_read_laws sys view
     \<and> efd_write_laws sys view \<and> efd_bounded view"

text \<open>What a descriptor shows of its file, and a call that sets the counter behind a descriptor: it
  shows through every descriptor of the same file.\<close>

definition shown :: "'k efd_view \<Rightarrow> 'k \<Rightarrow> int \<Rightarrow> (nat \<times> bool) option" where
  "shown view k fd = map_option (counter_at view k) (file_at view k fd)"

definition counts_to :: "'k efd_view \<Rightarrow> 'k \<Rightarrow> int \<Rightarrow> nat \<times> bool \<Rightarrow> 'k \<Rightarrow> bool" where
  "counts_to view k fd e k' \<longleftrightarrow> file_at view k' = file_at view k
     \<and> (\<forall>fd'. shown view k' fd' = (if file_at view k fd' = file_at view k fd then Some e else shown view k fd'))"

lemma counts_toI:
  "file_at view k fd = Some x \<Longrightarrow> file_at view k' = file_at view k \<Longrightarrow> counter_at view k' = (counter_at view k)(x := e)
    \<Longrightarrow> counts_to view k fd e k'"
  by (auto simp: counts_to_def shown_def map_option_case split: option.splits)

lemma counts_to_files: "counts_to view k fd e k' \<Longrightarrow> file_at view k' = file_at view k"
  by (simp add: counts_to_def)

lemma counts_to_shown:
  "counts_to view k fd e k' \<Longrightarrow>
    shown view k' fd' = (if file_at view k fd' = file_at view k fd then Some e else shown view k fd')"
  by (simp add: counts_to_def)

lemmas counts_to_simps = counts_to_files counts_to_shown

lemma counts_to_refl: "shown view k fd = Some e \<Longrightarrow> counts_to view k fd e k"
  by (auto simp: counts_to_def shown_def)

lemma counts_to_twice: "counts_to view k fd e k1 \<Longrightarrow> counts_to view k1 fd e' k2 \<Longrightarrow> counts_to view k fd e' k2"
  by (simp add: counts_to_def)

subsection \<open>EventFd\<close>

record EventFd =
  efd :: int

text \<open>
  \<open>eventfd\<close> returns an owned descriptor (the backend keeps the result of the same call in
  fields of type \<^verbatim>\<open>OwnedFd\<close>). The constructors store only its raw number, and the owned
  descriptor is dropped, hence closed, when they return.
\<close>

definition EventFd_new :: "'k efd_sys \<Rightarrow> 'k \<Rightarrow> (shm_error, EventFd) outcome \<times> 'k" where
  "EventFd_new sys k =
     (case sys_eventfd sys 0 [EFD_CLOEXEC, EFD_NONBLOCK] k of
        (Inl e, k') \<Rightarrow> (Err (Nix e), k')
      | (Inr owned, k') \<Rightarrow> (Ok \<lparr>efd = owned\<rparr>, sys_close sys owned k'))"

definition EventFd_new_semaphore :: "'k efd_sys \<Rightarrow> 'k \<Rightarrow> (shm_error, EventFd) outcome \<times> 'k" where
  "EventFd_new_semaphore sys k =
     (case sys_eventfd sys 0 [EFD_CLOEXEC, EFD_NONBLOCK, EFD_SEMAPHORE] k of
        (Inl e, k') \<Rightarrow> (Err (Nix e), k')
      | (Inr owned, k') \<Rightarrow> (Ok \<lparr>efd = owned\<rparr>, sys_close sys owned k'))"

definition EventFd_signal :: "'k efd_sys \<Rightarrow> EventFd \<Rightarrow> 'k \<Rightarrow> (shm_error, unit) outcome \<times> 'k" where
  "EventFd_signal sys self k =
     (case sys_write sys (efd self) (u64_to_ne_bytes 1) k of
        (Inl e, k') \<Rightarrow> (Err (Nix e), k')
      | (Inr _, k') \<Rightarrow> (Ok (), k'))"

definition EventFd_wait :: "'k efd_sys \<Rightarrow> EventFd \<Rightarrow> 'k \<Rightarrow> (shm_error, u64) outcome \<times> 'k" where
  "EventFd_wait sys self k =
     (case sys_read sys (efd self) 8 k of
        (Inl e, k') \<Rightarrow> (Err (Nix e), k')
      | (Inr buf, k') \<Rightarrow>
          (if length buf = 8 then (Ok (u64_from_ne_bytes buf), k') else (Err InvalidState, k')))"

definition EventFd_try_wait ::
  "'k efd_sys \<Rightarrow> EventFd \<Rightarrow> 'k \<Rightarrow> (shm_error, u64 option) outcome \<times> 'k" where
  "EventFd_try_wait sys self k =
     (case sys_read sys (efd self) 8 k of
        (Inr buf, k') \<Rightarrow>
          (if length buf = 8 then (Ok (Some (u64_from_ne_bytes buf)), k') else (Err InvalidState, k'))
      | (Inl EAGAIN, k') \<Rightarrow> (Ok None, k')
      | (Inl e, k') \<Rightarrow> (Err (Nix e), k'))"

definition EventFd_clear :: "'k efd_sys \<Rightarrow> EventFd \<Rightarrow> 'k \<Rightarrow> (shm_error, u64) outcome \<times> 'k" where
  "EventFd_clear sys self k =
     (case sys_read sys (efd self) 8 k of
        (Inr buf, k') \<Rightarrow>
          (if length buf = 8 then (Ok (u64_from_ne_bytes buf), k') else (Err InvalidState, k'))
      | (Inl EAGAIN, k') \<Rightarrow> (Ok 0, k')
      | (Inl e, k') \<Rightarrow> (Err (Nix e), k'))"

definition EventFd_as_raw_fd :: "EventFd \<Rightarrow> int" where
  "EventFd_as_raw_fd self = efd self"

definition EventFd_drop :: "'k efd_sys \<Rightarrow> EventFd \<Rightarrow> 'k \<Rightarrow> 'k" where
  "EventFd_drop sys self k = sys_close sys (efd self) k"

subsection \<open>The pair and its ends\<close>

record EventFdPair =
  tx :: EventFd
  rx :: EventFd

record EventFdSender =
  notify_fd :: EventFd

record EventFdReceiver =
  wait_fd :: EventFd

text \<open>When the second constructor fails, the first wrapper is dropped.\<close>

definition EventFdPair_new :: "'k efd_sys \<Rightarrow> 'k \<Rightarrow> (shm_error, EventFdPair) outcome \<times> 'k" where
  "EventFdPair_new sys k =
     (case EventFd_new sys k of
        (Ok t, k1) \<Rightarrow>
          (case EventFd_new sys k1 of
             (Ok r, k2) \<Rightarrow> (Ok \<lparr>tx = t, rx = r\<rparr>, k2)
           | (Err e, k2) \<Rightarrow> (Err e, EventFd_drop sys t k2)
           | (Fault f, k2) \<Rightarrow> (Fault f, k2))
      | (Err e, k1) \<Rightarrow> (Err e, k1)
      | (Fault f, k1) \<Rightarrow> (Fault f, k1))"

definition EventFdPair_split :: "EventFdPair \<Rightarrow> EventFdSender \<times> EventFdReceiver" where
  "EventFdPair_split p = (\<lparr>notify_fd = tx p\<rparr>, \<lparr>wait_fd = rx p\<rparr>)"

definition EventFdSender_notify ::
  "'k efd_sys \<Rightarrow> EventFdSender \<Rightarrow> 'k \<Rightarrow> (shm_error, unit) outcome \<times> 'k" where
  "EventFdSender_notify sys self k = EventFd_signal sys (notify_fd self) k"

definition EventFdReceiver_wait ::
  "'k efd_sys \<Rightarrow> EventFdReceiver \<Rightarrow> 'k \<Rightarrow> (shm_error, u64) outcome \<times> 'k" where
  "EventFdReceiver_wait sys self k = EventFd_wait sys (wait_fd self) k"

definition EventFdReceiver_try_wait ::
  "'k efd_sys \<Rightarrow> EventFdReceiver \<Rightarrow> 'k \<Rightarrow> (shm_error, u64 option) outcome \<times> 'k" where
  "EventFdReceiver_try_wait sys self k = EventFd_try_wait sys (wait_fd self) k"

subsection \<open>The unit tests\<close>

text \<open>The two tests of the file: the error an \<^verbatim>\<open>unwrap\<close> panics with, or whether the assertions hold. The
  wrapper is dropped at the end of the test and on a panic.\<close>

definition test_eventfd :: "'k efd_sys \<Rightarrow> 'k \<Rightarrow> (shm_error, bool) outcome \<times> 'k" where
  "test_eventfd sys k =
     (case EventFd_new sys k of
        (Ok ev, k1) \<Rightarrow>
          (case EventFd_signal sys ev k1 of
             (Ok _, k2) \<Rightarrow>
               (case EventFd_wait sys ev k2 of
                  (Ok count, k3) \<Rightarrow> (Ok (count = 1), EventFd_drop sys ev k3)
                | (Err e, k3) \<Rightarrow> (Err e, EventFd_drop sys ev k3)
                | (Fault f, k3) \<Rightarrow> (Fault f, k3))
           | (Err e, k2) \<Rightarrow> (Err e, EventFd_drop sys ev k2)
           | (Fault f, k2) \<Rightarrow> (Fault f, k2))
      | (Err e, k1) \<Rightarrow> (Err e, k1)
      | (Fault f, k1) \<Rightarrow> (Fault f, k1))"

definition test_eventfd_semaphore :: "'k efd_sys \<Rightarrow> 'k \<Rightarrow> (shm_error, bool) outcome \<times> 'k" where
  "test_eventfd_semaphore sys k =
     (case EventFd_new_semaphore sys k of
        (Ok ev, k1) \<Rightarrow>
          (case EventFd_signal sys ev k1 of
             (Ok _, k2) \<Rightarrow>
               (case EventFd_signal sys ev k2 of
                  (Ok _, k3) \<Rightarrow>
                    (case EventFd_wait sys ev k3 of
                       (Ok count1, k4) \<Rightarrow>
                         (case EventFd_wait sys ev k4 of
                            (Ok count2, k5) \<Rightarrow> (Ok (count1 = 1 \<and> count2 = 1), EventFd_drop sys ev k5)
                          | (Err e, k5) \<Rightarrow> (Err e, EventFd_drop sys ev k5)
                          | (Fault f, k5) \<Rightarrow> (Fault f, k5))
                     | (Err e, k4) \<Rightarrow> (Err e, EventFd_drop sys ev k4)
                     | (Fault f, k4) \<Rightarrow> (Fault f, k4))
                | (Err e, k3) \<Rightarrow> (Err e, EventFd_drop sys ev k3)
                | (Fault f, k3) \<Rightarrow> (Fault f, k3))
           | (Err e, k2) \<Rightarrow> (Err e, EventFd_drop sys ev k2)
           | (Fault f, k2) \<Rightarrow> (Fault f, k2))
      | (Err e, k1) \<Rightarrow> (Err e, k1)
      | (Fault f, k1) \<Rightarrow> (Fault f, k1))"

subsection \<open>The calls on an open and on a closed descriptor\<close>

lemma efd_closed:
  assumes "efd_laws sys view" "unused_fd view k fd"
  shows "sys_read sys fd 8 k = (Inl EBADF, k)" "sys_write sys fd (u64_to_ne_bytes 1) k = (Inl EBADF, k)"
  using assms by (simp_all add: efd_laws_def efd_read_laws_def efd_write_laws_def u64_to_ne_bytes_def)

lemma shown_file:
  assumes "shown view k fd = Some (c, sem)"
  obtains x where "file_at view k fd = Some x" "counter_at view k x = (c, sem)"
  using assms by (auto simp: shown_def)

lemma efd_zero:
  assumes "efd_laws sys view" "shown view k fd = Some (0, sem)"
  shows "sys_read sys fd 8 k = (Inl EAGAIN, k)"
proof -
  obtain x where "file_at view k fd = Some x" "counter_at view k x = (0, sem)" by (rule shown_file [OF assms(2)])
  with assms(1) show ?thesis unfolding efd_laws_def efd_read_laws_def by fastforce
qed

lemma efd_count_bound: "efd_laws sys view \<Longrightarrow> shown view k fd = Some (c, sem) \<Longrightarrow> c \<le> efd_max"
  unfolding efd_laws_def efd_bounded_def by (metis fst_conv shown_file)

lemma efd_positive:
  assumes "efd_laws sys view" "shown view k fd = Some (c, sem)" "0 < c"
  obtains k' where "sys_read sys fd 8 k = (Inr (u64_to_ne_bytes (of_nat (if sem then 1 else c))), k')"
    and "counts_to view k fd (if sem then c - 1 else 0, sem) k'"
proof -
  obtain x where x: "file_at view k fd = Some x" "counter_at view k x = (c, sem)" by (rule shown_file [OF assms(2)])
  let ?k = "snd (sys_read sys fd 8 k)"
  have "efd_read_laws sys view" using assms(1) by (simp add: efd_laws_def)
  with x assms(3) have r: "fst (sys_read sys fd 8 k) = Inr (le_encode 8 (if sem then 1 else c))"
    "file_at view ?k = file_at view k" "counter_at view ?k = (counter_at view k)(x := (if sem then c - 1 else 0, sem))"
    unfolding efd_read_laws_def by (metis (no_types, lifting) not_less_zero)+
  have "unat (of_nat c :: u64) = c"
    using efd_count_bound [OF assms(1,2)] by (simp add: unat_of_nat efd_max_def)
  then have "le_encode 8 (if sem then 1 else c) = u64_to_ne_bytes (of_nat (if sem then 1 else c))"
    by (simp add: u64_to_ne_bytes_def)
  with r that [of ?k] counts_toI [OF x(1) r(2,3)] show ?thesis by (simp add: prod_eq_iff)
qed

lemma efd_write_one:
  assumes "efd_laws sys view" "shown view k fd = Some (c, sem)"
  shows "efd_max < c + 1 \<Longrightarrow> sys_write sys fd (u64_to_ne_bytes 1) k = (Inl EAGAIN, k)"
    and "c + 1 \<le> efd_max \<Longrightarrow> fst (sys_write sys fd (u64_to_ne_bytes 1) k) = Inr 8
      \<and> counts_to view k fd (c + 1, sem) (snd (sys_write sys fd (u64_to_ne_bytes 1) k))"
proof -
  obtain x where x: "file_at view k fd = Some x" "counter_at view k x = (c, sem)" by (rule shown_file [OF assms(2)])
  let ?w = "sys_write sys fd (le_encode 8 1) k"
  have one: "u64_to_ne_bytes 1 = le_encode 8 1" "(1::nat) \<le> efd_max" by (simp_all add: u64_to_ne_bytes_def efd_max_def)
  have "efd_write_laws sys view" using assms(1) by (simp add: efd_laws_def)
  then have w: "if efd_max < c + 1 then ?w = (Inl EAGAIN, k)
     else fst ?w = Inr 8 \<and> file_at view (snd ?w) = file_at view k
        \<and> counter_at view (snd ?w) = (counter_at view k)(x := (c + 1, sem))"
    using one(2) x unfolding efd_write_laws_def by blast
  show "efd_max < c + 1 \<Longrightarrow> sys_write sys fd (u64_to_ne_bytes 1) k = (Inl EAGAIN, k)"
    using w by (simp add: one(1))
  show "fst (sys_write sys fd (u64_to_ne_bytes 1) k) = Inr 8
      \<and> counts_to view k fd (c + 1, sem) (snd (sys_write sys fd (u64_to_ne_bytes 1) k))" if "c + 1 \<le> efd_max"
    using w that counts_toI [OF x(1), of "snd ?w" "(c + 1, sem)"] by (simp add: one(1))
qed

text \<open>Several signals in a row.\<close>

fun EventFd_signals :: "'k efd_sys \<Rightarrow> EventFd \<Rightarrow> nat \<Rightarrow> 'k \<Rightarrow> (shm_error, unit) outcome list \<times> 'k" where
  "EventFd_signals sys ev 0 k = ([], k)"
| "EventFd_signals sys ev (Suc n) k =
     (let (r, k') = EventFd_signal sys ev k; (rs, k'') = EventFd_signals sys ev n k' in (r # rs, k''))"

lemma EventFd_signals_count:
  assumes "efd_laws sys view" "shown view k (efd ev) = Some (c, sem)" "c + n \<le> efd_max"
  shows "fst (EventFd_signals sys ev n k) = replicate n (Ok ())
    \<and> counts_to view k (efd ev) (c + n, sem) (snd (EventFd_signals sys ev n k))"
  using assms(2,3)
proof (induction n arbitrary: k c)
  case 0
  then show ?case by (simp add: counts_to_refl)
next
  case (Suc n)
  have w: "fst (sys_write sys (efd ev) (u64_to_ne_bytes 1) k) = Inr 8"
    "counts_to view k (efd ev) (c + 1, sem) (snd (sys_write sys (efd ev) (u64_to_ne_bytes 1) k))"
    using efd_write_one(2) [OF assms(1) Suc.prems(1)] Suc.prems(2) by simp_all
  define k1 where "k1 = snd (sys_write sys (efd ev) (u64_to_ne_bytes 1) k)"
  have s: "EventFd_signal sys ev k = (Ok (), k1)"
    using w(1) by (simp add: EventFd_signal_def k1_def split_def)
  note k1 = w(2) [folded k1_def]
  have "shown view k1 (efd ev) = Some (c + 1, sem)" using counts_to_shown [OF k1] by simp
  moreover have "c + 1 + n \<le> efd_max" using Suc.prems(2) by simp
  ultimately have ih: "fst (EventFd_signals sys ev n k1) = replicate n (Ok ())"
    "counts_to view k1 (efd ev) (c + 1 + n, sem) (snd (EventFd_signals sys ev n k1))"
    using Suc.IH by blast+
  from ih(1) counts_to_twice [OF k1 ih(2)] show ?case by (simp add: s Let_def split_def)
qed

subsection \<open>A reference kernel\<close>

record efd_kernel =
  descriptors :: "(int \<times> nat) list"
  counters :: "nat \<Rightarrow> nat \<times> bool"

definition ref_count :: "efd_kernel \<Rightarrow> nat \<Rightarrow> nat \<times> bool" where
  "ref_count k x = (min (fst (counters k x)) efd_max, snd (counters k x))"

definition ref_view :: "efd_kernel efd_view" where
  "ref_view = \<lparr>file_at = (\<lambda>k. map_of (descriptors k)), counter_at = ref_count,
     unused_fd = (\<lambda>k fd. map_of (descriptors k) fd = None)\<rparr>"

definition next_descriptor :: "efd_kernel \<Rightarrow> int" where
  "next_descriptor k = fold max (map fst (descriptors k)) 2 + 1"

definition next_file :: "efd_kernel \<Rightarrow> nat" where
  "next_file k = Suc (fold max (map snd (descriptors k)) 0)"

definition ref_efd :: "efd_kernel efd_sys" where
  "ref_efd =
     \<lparr>sys_eventfd = (\<lambda>v flags k. (Inr (next_descriptor k),
        \<lparr>descriptors = (next_descriptor k, next_file k) # descriptors k,
         counters = (counters k)(next_file k := (unat v, EFD_SEMAPHORE \<in> set flags))\<rparr>)),
      sys_read = (\<lambda>fd n k. case map_of (descriptors k) fd of
          None \<Rightarrow> (Inl EBADF, k)
        | Some x \<Rightarrow> (case ref_count k x of (c, sem) \<Rightarrow>
            if c = 0 then (Inl EAGAIN, k)
            else (Inr (le_encode 8 (if sem then 1 else c)),
                  k\<lparr>counters := (counters k)(x := (if sem then c - 1 else 0, sem))\<rparr>))),
      sys_write = (\<lambda>fd bs k. case map_of (descriptors k) fd of
          None \<Rightarrow> (Inl EBADF, k)
        | Some x \<Rightarrow> (case ref_count k x of (c, sem) \<Rightarrow>
            if efd_max < c + le_decode bs then (Inl EAGAIN, k)
            else (Inr 8, k\<lparr>counters := (counters k)(x := (c + le_decode bs, sem))\<rparr>))),
      sys_close = (\<lambda>fd k. k\<lparr>descriptors := filter (\<lambda>d. fst d \<noteq> fd) (descriptors k)\<rparr>)\<rparr>"

lemma fold_max_base: "(b :: 'b :: linorder) \<le> fold max xs b"
  by (induction xs arbitrary: b) (simp, metis fold_simps(2) max.boundedE)

lemma fold_max_ge: "x \<in> set xs \<Longrightarrow> (x :: 'b :: linorder) \<le> fold max xs b"
proof (induction xs arbitrary: b)
  case (Cons y ys)
  have "y \<le> fold max ys (max y b)" using fold_max_base [of "max y b" ys] by simp
  with Cons show ?case by auto
qed simp

lemma ref_fresh: "map_of (descriptors k) (next_descriptor k) = None" "next_file k \<notin> ran (map_of (descriptors k))"
proof -
  have "fd \<noteq> next_descriptor k" if "(fd, x) \<in> set (descriptors k)" for fd x
    using fold_max_ge [of fd "map fst (descriptors k)" 2] that by (force simp: next_descriptor_def)
  then show "map_of (descriptors k) (next_descriptor k) = None" by (force simp: map_of_eq_None_iff)
  have "x \<noteq> next_file k" if "(fd, x) \<in> set (descriptors k)" for fd x
    using fold_max_ge [of x "map snd (descriptors k)" 0] that by (force simp: next_file_def)
  then show "next_file k \<notin> ran (map_of (descriptors k))" by (auto simp: ran_def dest: map_of_SomeD)
qed

lemma map_of_drop: "map_of (filter (\<lambda>d. fst d \<noteq> x) ds) = (map_of ds)(x := None)"
  by (induction ds) (auto simp: fun_eq_iff)

lemma ref_efd_open_laws: "efd_open_laws ref_efd ref_view"
proof -
  have "unat (v :: u32) \<le> efd_max" for v
    using unsigned_less [of v, where ?'a = nat] by (simp add: efd_max_def)
  then show ?thesis
    using ref_fresh
    by (auto simp: efd_open_laws_def ref_efd_def ref_view_def ref_count_def fun_eq_iff min_def map_of_drop)
qed

lemma ref_efd_laws: "efd_laws ref_efd ref_view"
proof -
  have "efd_read_laws ref_efd ref_view"
    by (auto simp: efd_read_laws_def ref_efd_def ref_view_def ref_count_def fun_eq_iff)
  moreover have "le_decode (le_encode 8 v) = v" if "v \<le> efd_max" for v
    using that by (simp add: le_decode_encode efd_max_def)
  then have "efd_write_laws ref_efd ref_view"
    by (auto simp: efd_write_laws_def ref_efd_def ref_view_def ref_count_def fun_eq_iff)
  moreover have "efd_bounded ref_view"
    by (auto simp: efd_bounded_def ref_view_def ref_count_def)
  ultimately show ?thesis using ref_efd_open_laws by (simp add: efd_laws_def)
qed

definition efd_k0 :: efd_kernel where
  "efd_k0 = \<lparr>descriptors = [(5, 0), (6, 1)], counters = (\<lambda>_. (0, False))(1 := (3, True))\<rparr>"

lemma efd_k0_view: "shown ref_view efd_k0 5 = Some (0, False)" "shown ref_view efd_k0 6 = Some (3, True)"
  by (simp_all add: shown_def ref_view_def ref_count_def efd_k0_def efd_max_def)

subsection \<open>Properties\<close>

lemma EventFd_new_closed:
  assumes "efd_laws sys view" "EventFd_new sys k = (Ok ev, k') \<or> EventFd_new_semaphore sys k = (Ok ev, k')"
  shows "unused_fd view k' (efd ev)"
proof -
  have "unused_fd view (sys_close sys fd k1) fd" for fd k1
    using assms(1) unfolding efd_laws_def efd_open_laws_def by blast
  then show ?thesis
    using assms(2) by (auto simp: EventFd_new_def EventFd_new_semaphore_def split: prod.splits sum.splits)
qed

text \<open>So both tests of the file panic on their first signal whenever the kernel grants an eventfd.\<close>

lemma test_eventfd_panics:
  assumes laws: "efd_laws sys view"
  shows "EventFd_new sys k = (Ok ev, k') \<Longrightarrow> test_eventfd sys k = (Err (Nix EBADF), EventFd_drop sys ev k')"
    and "EventFd_new_semaphore sys k = (Ok ev, k') \<Longrightarrow>
      test_eventfd_semaphore sys k = (Err (Nix EBADF), EventFd_drop sys ev k')"
proof -
  have signal: "EventFd_signal sys ev k' = (Err (Nix EBADF), k')"
    if "EventFd_new sys k = (Ok ev, k') \<or> EventFd_new_semaphore sys k = (Ok ev, k')"
    using efd_closed [OF laws EventFd_new_closed [OF laws that]] by (simp add: EventFd_signal_def)
  show "test_eventfd sys k = (Err (Nix EBADF), EventFd_drop sys ev k')" if "EventFd_new sys k = (Ok ev, k')"
    using that signal by (simp add: test_eventfd_def)
  show "test_eventfd_semaphore sys k = (Err (Nix EBADF), EventFd_drop sys ev k')"
    if "EventFd_new_semaphore sys k = (Ok ev, k')"
    using that signal by (simp add: test_eventfd_semaphore_def)
qed

text \<open>C38. An \<^verbatim>\<open>EventFd\<close> that its constructor returns is dead: the constructor keeps only the
  raw number of a descriptor it closes on return, so signalling, waiting, polling and clearing
  all fail with \<open>EBADF\<close>.\<close>

theorem EventFd_new_is_closed:
  assumes "efd_laws sys view"
    and "EventFd_new sys k = (Ok ev, k') \<or> EventFd_new_semaphore sys k = (Ok ev, k')"
  shows "EventFd_signal sys ev k' = (Err (Nix EBADF), k') \<and> EventFd_wait sys ev k' = (Err (Nix EBADF), k')
    \<and> EventFd_try_wait sys ev k' = (Err (Nix EBADF), k') \<and> EventFd_clear sys ev k' = (Err (Nix EBADF), k')"
  using efd_closed [OF assms(1) EventFd_new_closed [OF assms]]
  by (simp add: EventFd_signal_def EventFd_wait_def EventFd_try_wait_def EventFd_clear_def)

theorem EventFd_new_is_closed_witness:
  "fst (EventFd_new ref_efd efd_k0) = Ok \<lparr>efd = 7\<rparr>
   \<and> fst (EventFd_signal ref_efd \<lparr>efd = 7\<rparr> (snd (EventFd_new ref_efd efd_k0))) = Err (Nix EBADF)"
proof -
  have new: "EventFd_new ref_efd efd_k0 = (Ok \<lparr>efd = 7\<rparr>, snd (EventFd_new ref_efd efd_k0))"
    by (simp add: EventFd_new_def ref_efd_def efd_k0_def next_descriptor_def)
  show ?thesis
    using new EventFd_new_is_closed [OF ref_efd_laws disjI1 [OF new]] by (metis fst_conv)
qed

text \<open>On an open counting eventfd signals coalesce without loss: after \<open>n\<close> signals one wait
  returns the old count plus \<open>n\<close> and resets it, and the next wait returns \<open>EAGAIN\<close> at once
  although it is documented as blocking.\<close>

theorem EventFd_signals_coalesce:
  assumes "efd_laws sys view" "shown view k (efd ev) = Some (c, False)"
    and "0 < c + n" "c + n \<le> efd_max"
  shows "\<exists>k1 k2. EventFd_signals sys ev n k = (replicate n (Ok ()), k1)
    \<and> EventFd_wait sys ev k1 = (Ok (of_nat (c + n)), k2) \<and> shown view k2 (efd ev) = Some (0, False)
    \<and> EventFd_wait sys ev k2 = (Err (Nix EAGAIN), k2)"
proof -
  define k1 where "k1 = snd (EventFd_signals sys ev n k)"
  have s: "EventFd_signals sys ev n k = (replicate n (Ok ()), k1)" "shown view k1 (efd ev) = Some (c + n, False)"
    using EventFd_signals_count [OF assms(1,2,4)] by (auto simp: k1_def prod_eq_iff counts_to_shown)
  obtain k2 where r: "sys_read sys (efd ev) 8 k1 = (Inr (u64_to_ne_bytes (of_nat (c + n))), k2)"
    and v: "shown view k2 (efd ev) = Some (0, False)"
    by (rule efd_positive [OF assms(1) s(2) assms(3)]) (simp add: counts_to_shown)
  from efd_zero [OF assms(1) v] r v s(1) show ?thesis
    by (intro exI [of _ k1] exI [of _ k2]) (simp add: EventFd_wait_def)
qed

theorem EventFd_signals_coalesce_witness:
  "\<exists>k1 k2. EventFd_signals ref_efd \<lparr>efd = 5\<rparr> 4 efd_k0 = (replicate 4 (Ok ()), k1)
    \<and> EventFd_wait ref_efd \<lparr>efd = 5\<rparr> k1 = (Ok 4, k2)"
  using EventFd_signals_coalesce [OF ref_efd_laws, of efd_k0 "\<lparr>efd = 5\<rparr>" 0 4] efd_k0_view(1)
  by (auto simp: efd_max_def)

text \<open>With semaphore semantics a wait takes exactly one count at a time; on an exhausted
  descriptor \<^verbatim>\<open>wait\<close> fails with \<open>EAGAIN\<close>, \<^verbatim>\<open>try_wait\<close> returns \<open>None\<close> and \<^verbatim>\<open>clear\<close> returns 0.\<close>

theorem EventFd_semaphore_steps:
  assumes "efd_laws sys view" "shown view k (efd ev) = Some (c, True)"
  shows "if c = 0 then EventFd_wait sys ev k = (Err (Nix EAGAIN), k)
        \<and> EventFd_try_wait sys ev k = (Ok None, k) \<and> EventFd_clear sys ev k = (Ok 0, k)
    else fst (EventFd_wait sys ev k) = Ok 1
        \<and> shown view (snd (EventFd_wait sys ev k)) (efd ev) = Some (c - 1, True)"
proof (cases "c = 0")
  case True
  with efd_zero [OF assms(1)] assms(2) show ?thesis
    by (simp add: EventFd_wait_def EventFd_try_wait_def EventFd_clear_def)
next
  case False
  then obtain k2 where "sys_read sys (efd ev) 8 k = (Inr (u64_to_ne_bytes (of_nat 1)), k2)"
    "shown view k2 (efd ev) = Some (c - 1, True)"
    using efd_positive [OF assms] by (metis (full_types) counts_to_shown gr0I)
  with False show ?thesis by (simp add: EventFd_wait_def)
qed

theorem EventFd_semaphore_steps_witness:
  "fst (EventFd_wait ref_efd \<lparr>efd = 6\<rparr> efd_k0) = Ok 1"
  using EventFd_semaphore_steps [OF ref_efd_laws, of efd_k0 "\<lparr>efd = 6\<rparr>" 3] efd_k0_view(2) by simp

end
