(* ===== verification/Startup.thy ===== *)
theory Startup
  imports Ring_Lifecycle Event_Fd
begin

section \<open>How the two sides of a shared-memory transport start\<close>

text \<open>
  The constructors of the three gateway transports (\<^verbatim>\<open>ShmTransport::new\<close> in
  \<^verbatim>\<open>gateway/src/transport.rs\<close>, \<^verbatim>\<open>ShmTransportUds::new\<close>, \<^verbatim>\<open>ShmTransportEventfd::new\<close>), which
  wait for the backend's objects, and of the backend's servers (the \<^verbatim>\<open>Shm\<close> branch of its
  \<^verbatim>\<open>main\<close>, \<^verbatim>\<open>ShmServerUds::new\<close>, \<^verbatim>\<open>ShmServerEventfd::new\<close>), which create them; and the passing
  of the two eventfds over the control socket. The system calls are parameters. What other
  processes do while a task sleeps is the function \<open>env\<close> of the number of the attempt.
\<close>

subsection \<open>Errors and sequencing\<close>

datatype startup_error =
    Timeout_waiting_for string
  | Failed_to_create_request_buffer shm_error
  | Failed_to_create_response_buffer shm_error
  | Failed_to_connect errno
  | Failed_to_create_eventfd errno
  | Failed_to_bind errno
  | Failed_to_accept errno
  | No_file_descriptor_received
  | Failed_to_create_AsyncFd errno
  | Socket_error errno
  | Invalid_address string
  | Tonic_error string

text \<open>The question mark: an error or a fault ends the function.\<close>

fun and_then ::
  "('e, 'a) outcome \<times> 'os \<Rightarrow> ('a \<Rightarrow> 'os \<Rightarrow> ('e, 'b) outcome \<times> 'os) \<Rightarrow> ('e, 'b) outcome \<times> 'os" where
  "and_then (Ok x, os) f = f x os"
| "and_then (Err e, os) f = (Err e, os)"
| "and_then (Fault f, os) _ = (Fault f, os)"

fun map_err :: "('d \<Rightarrow> 'e) \<Rightarrow> ('d, 'a) outcome \<times> 'os \<Rightarrow> ('e, 'a) outcome \<times> 'os" where
  "map_err g (Ok x, os) = (Ok x, os)"
| "map_err g (Err e, os) = (Err (g e), os)"
| "map_err g (Fault f, os) = (Fault f, os)"

fun lift_sys :: "('d \<Rightarrow> 'e) \<Rightarrow> ('d + 'a) \<times> 'os \<Rightarrow> ('e, 'a) outcome \<times> 'os" where
  "lift_sys g (Inr x, os) = (Ok x, os)"
| "lift_sys g (Inl e, os) = (Err (g e), os)"

lemma and_then_Ok:
  "and_then r f = (Ok y, os') \<longleftrightarrow> (\<exists>x os1. r = (Ok x, os1) \<and> f x os1 = (Ok y, os'))"
  by (cases "(r, f)" rule: and_then.cases) auto

lemma map_err_Ok: "map_err g r = (Ok x, os') \<longleftrightarrow> r = (Ok x, os')"
  by (cases "(g, r)" rule: map_err.cases) auto

lemma lift_sys_Ok: "lift_sys g r = (Ok x, os') \<longleftrightarrow> r = (Inr x, os')"
  by (cases "(g, r)" rule: lift_sys.cases) auto

definition req_buf_name :: "string \<Rightarrow> string" where
  "req_buf_name name = name @ ''_req_buf''"

definition resp_buf_name :: "string \<Rightarrow> string" where
  "resp_buf_name name = name @ ''_resp_buf''"

lemma buf_names_differ [simp]: "req_buf_name m \<noteq> resp_buf_name n" "resp_buf_name n \<noteq> req_buf_name m"
proof -
  have "rev (req_buf_name m) ! 4 = CHR ''q''" "rev (resp_buf_name n) ! 4 = CHR ''p''"
    by (simp_all add: req_buf_name_def resp_buf_name_def)
  then show "req_buf_name m \<noteq> resp_buf_name n" "resp_buf_name n \<noteq> req_buf_name m" by auto
qed

subsection \<open>Waiting for an object\<close>

text \<open>\<open>attempts\<close> failed so far; the sleep of 100 ms between two attempts is a step of \<open>env\<close>.\<close>

function wait_attempts ::
  "'os shm_sys \<Rightarrow> (nat \<Rightarrow> 'os \<Rightarrow> 'os) \<Rightarrow> string \<Rightarrow> ShmConfig \<Rightarrow> nat \<Rightarrow> 'os
   \<Rightarrow> (startup_error, ring) outcome \<times> 'os" where
  "wait_attempts sys env name config attempts os =
     (case ring_open sys name config os of
        (Ok r, os') \<Rightarrow> (Ok r, os')
      | (Fault f, os') \<Rightarrow> (Fault f, os')
      | (Err e, os') \<Rightarrow>
          if 50 < attempts + 1 then (Err (Timeout_waiting_for name), os')
          else wait_attempts sys env name config (attempts + 1) (env (attempts + 1) os'))"
  by auto

termination wait_attempts
  by (relation "measure (\<lambda>(sys, env, name, config, attempts, os). 51 - attempts)") auto

declare wait_attempts.simps [simp del]

text \<open>The three transports have their own copies of the loop.\<close>

definition wait_for_shm ::
  "'os shm_sys \<Rightarrow> (nat \<Rightarrow> 'os \<Rightarrow> 'os) \<Rightarrow> string \<Rightarrow> ShmConfig \<Rightarrow> 'os \<Rightarrow> (startup_error, ring) outcome \<times> 'os" where
  "wait_for_shm sys env name config os = wait_attempts sys env name config 0 os"

definition uds_wait_for_shm ::
  "'os shm_sys \<Rightarrow> (nat \<Rightarrow> 'os \<Rightarrow> 'os) \<Rightarrow> string \<Rightarrow> ShmConfig \<Rightarrow> 'os \<Rightarrow> (startup_error, ring) outcome \<times> 'os" where
  "uds_wait_for_shm sys env name config os = wait_attempts sys env name config 0 os"

definition efd_wait_for_shm ::
  "'os shm_sys \<Rightarrow> (nat \<Rightarrow> 'os \<Rightarrow> 'os) \<Rightarrow> string \<Rightarrow> ShmConfig \<Rightarrow> 'os \<Rightarrow> (startup_error, ring) outcome \<times> 'os" where
  "efd_wait_for_shm sys env name config os = wait_attempts sys env name config 0 os"

text \<open>The state before the attempt after \<open>j\<close> failed ones.\<close>

fun attempt_state ::
  "'os shm_sys \<Rightarrow> (nat \<Rightarrow> 'os \<Rightarrow> 'os) \<Rightarrow> string \<Rightarrow> ShmConfig \<Rightarrow> 'os \<Rightarrow> nat \<Rightarrow> 'os" where
  "attempt_state sys env name config os 0 = os"
| "attempt_state sys env name config os (Suc j) =
     env (Suc j) (snd (ring_open sys name config (attempt_state sys env name config os j)))"

subsection \<open>The calls of the constructors\<close>

datatype cmsg = ScmRights "int list" | OtherCmsg

text \<open>Sockets and descriptors: \<^verbatim>\<open>connect\<close>, \<^verbatim>\<open>bind\<close>, \<^verbatim>\<open>accept\<close>, \<^verbatim>\<open>exists\<close>, \<^verbatim>\<open>remove_file\<close>, \<^verbatim>\<open>sendmsg\<close> with
  one control message, waiting for readability, \<^verbatim>\<open>recvmsg\<close>, \<^verbatim>\<open>AsyncFd::new\<close>, \<^verbatim>\<open>try_clone\<close> and
  the close of a dropped owner.\<close>

record 'os net_sys =
  net_connect :: "string \<Rightarrow> 'os \<Rightarrow> (errno + int) \<times> 'os"
  net_bind :: "string \<Rightarrow> 'os \<Rightarrow> (errno + int) \<times> 'os"
  net_accept :: "int \<Rightarrow> 'os \<Rightarrow> (errno + int) \<times> 'os"
  net_exists :: "string \<Rightarrow> 'os \<Rightarrow> bool"
  net_remove_file :: "string \<Rightarrow> 'os \<Rightarrow> (errno + unit) \<times> 'os"
  net_sendmsg :: "int \<Rightarrow> bytes \<Rightarrow> cmsg list \<Rightarrow> 'os \<Rightarrow> (errno + nat) \<times> 'os"
  net_readable :: "int \<Rightarrow> 'os \<Rightarrow> (errno + unit) \<times> 'os"
  net_recvmsg :: "int \<Rightarrow> 'os \<Rightarrow> (errno + cmsg list) \<times> 'os"
  net_async_fd :: "int \<Rightarrow> 'os \<Rightarrow> (errno + int) \<times> 'os"
  net_try_clone :: "int \<Rightarrow> 'os \<Rightarrow> (errno + int) \<times> 'os"
  net_close :: "int \<Rightarrow> 'os \<Rightarrow> 'os"

definition notify_path :: "string \<Rightarrow> string" where
  "notify_path name = ''/tmp/'' @ name @ ''_notify.sock''"

definition control_path :: "string \<Rightarrow> string" where
  "control_path name = ''/tmp/'' @ name @ ''_control.sock''"

subsection \<open>The gateway's constructors\<close>

text \<open>\<open>env n\<close> is what happens during the wait for the object \<open>n\<close>.\<close>

definition shm_transport_new ::
  "'os shm_sys \<Rightarrow> (string \<Rightarrow> nat \<Rightarrow> 'os \<Rightarrow> 'os) \<Rightarrow> string \<Rightarrow> 'os
   \<Rightarrow> (startup_error, ring \<times> ring) outcome \<times> 'os" where
  "shm_transport_new sys env name os =
     and_then (wait_for_shm sys (env (req_buf_name name)) (req_buf_name name) ShmConfig_default os) (\<lambda>rq os1.
     and_then (wait_for_shm sys (env (resp_buf_name name)) (resp_buf_name name) ShmConfig_default os1) (\<lambda>rp os2.
       (Ok (rq, rp), os2)))"

definition uds_transport_new ::
  "'os shm_sys \<Rightarrow> 'os net_sys \<Rightarrow> (string \<Rightarrow> nat \<Rightarrow> 'os \<Rightarrow> 'os) \<Rightarrow> string \<Rightarrow> 'os
   \<Rightarrow> (startup_error, ring \<times> ring \<times> int) outcome \<times> 'os" where
  "uds_transport_new sys net env name os =
     and_then (uds_wait_for_shm sys (env (req_buf_name name)) (req_buf_name name) ShmConfig_default os) (\<lambda>rq os1.
     and_then (uds_wait_for_shm sys (env (resp_buf_name name)) (resp_buf_name name) ShmConfig_default os1) (\<lambda>rp os2.
     and_then (lift_sys Failed_to_connect (net_connect net (notify_path name) os2)) (\<lambda>fd os3.
       (Ok (rq, rp, fd), os3))))"

text \<open>The first descriptor of the first control message that carries any.\<close>

fun first_descriptor :: "cmsg list \<Rightarrow> int option" where
  "first_descriptor (ScmRights (fd # _) # cs) = Some fd"
| "first_descriptor (_ # cs) = first_descriptor cs"
| "first_descriptor [] = None"

text \<open>The loop ends only when the socket has a message or fails.\<close>

partial_function (option) recv_eventfd ::
  "'os net_sys \<Rightarrow> int \<Rightarrow> 'os \<Rightarrow> ((startup_error, int) outcome \<times> 'os) option" where
  "recv_eventfd net stream os =
     (case net_readable net stream os of
        (Inl e, os1) \<Rightarrow> Some (Err (Socket_error e), os1)
      | (Inr _, os1) \<Rightarrow>
        (case net_recvmsg net stream os1 of
           (Inl e, os2) \<Rightarrow>
             if e = EAGAIN then recv_eventfd net stream os2 else Some (Err (Socket_error e), os2)
         | (Inr msg, os2) \<Rightarrow>
             (case first_descriptor msg of
                None \<Rightarrow> Some (Err No_file_descriptor_received, os2)
              | Some fd \<Rightarrow>
                (case net_async_fd net fd os2 of
                   (Inl e, os3) \<Rightarrow> Some (Err (Failed_to_create_AsyncFd e), net_close net fd os3)
                 | (Inr afd, os3) \<Rightarrow> Some (Ok afd, os3)))))"

text \<open>The control stream is closed on every return, the first eventfd when the second fails.\<close>

definition efd_receive_pair ::
  "'os net_sys \<Rightarrow> int \<Rightarrow> 'os \<Rightarrow> ((startup_error, int \<times> int) outcome \<times> 'os) option" where
  "efd_receive_pair net stream os =
     Option.bind (recv_eventfd net stream os) (\<lambda>r1. case r1 of
       (Ok ev_q, os1) \<Rightarrow>
         Option.bind (recv_eventfd net stream os1) (\<lambda>r2. case r2 of
           (Ok ev_p, os2) \<Rightarrow> Some (Ok (ev_q, ev_p), net_close net stream os2)
         | (Err e, os2) \<Rightarrow> Some (Err e, net_close net stream (net_close net ev_q os2))
         | (Fault f, os2) \<Rightarrow> Some (Fault f, os2))
     | (Err e, os1) \<Rightarrow> Some (Err e, net_close net stream os1)
     | (Fault f, os1) \<Rightarrow> Some (Fault f, os1))"

definition efd_transport_new ::
  "'os shm_sys \<Rightarrow> 'os net_sys \<Rightarrow> (string \<Rightarrow> nat \<Rightarrow> 'os \<Rightarrow> 'os) \<Rightarrow> string \<Rightarrow> 'os
   \<Rightarrow> ((startup_error, ring \<times> ring \<times> int \<times> int) outcome \<times> 'os) option" where
  "efd_transport_new sys net env name os =
     (case and_then (efd_wait_for_shm sys (env (req_buf_name name)) (req_buf_name name) ShmConfig_default os) (\<lambda>rq os1.
           and_then (efd_wait_for_shm sys (env (resp_buf_name name)) (resp_buf_name name) ShmConfig_default os1) (\<lambda>rp os2.
           and_then (lift_sys Failed_to_connect (net_connect net (control_path name) os2)) (\<lambda>fd os3.
             (Ok (rq, rp, fd), os3)))) of
        (Ok (rq, rp, fd), os3) \<Rightarrow>
          map_option (\<lambda>r. and_then r (\<lambda>(ev_q, ev_p) os4. (Ok (rq, rp, ev_q, ev_p), os4)))
            (efd_receive_pair net fd os3)
      | (Err e, os3) \<Rightarrow> Some (Err e, os3)
      | (Fault f, os3) \<Rightarrow> Some (Fault f, os3))"

subsection \<open>The backend's constructors\<close>

text \<open>All three servers first create the two objects.\<close>

definition create_buffers ::
  "'os shm_sys \<Rightarrow> string \<Rightarrow> 'os \<Rightarrow> (startup_error, ring \<times> ring) outcome \<times> 'os" where
  "create_buffers sys name os =
     and_then (map_err Failed_to_create_request_buffer
       (ring_create sys (req_buf_name name) ShmConfig_default os)) (\<lambda>rq os1.
     and_then (map_err Failed_to_create_response_buffer
       (ring_create sys (resp_buf_name name) ShmConfig_default os1)) (\<lambda>rp os2.
       (Ok (rq, rp), os2)))"

definition shm_server_new ::
  "'os shm_sys \<Rightarrow> string \<Rightarrow> 'os \<Rightarrow> (startup_error, ring \<times> ring) outcome \<times> 'os" where
  "shm_server_new sys name os = create_buffers sys name os"

definition uds_server_new ::
  "'os shm_sys \<Rightarrow> 'os net_sys \<Rightarrow> string \<Rightarrow> 'os \<Rightarrow> (startup_error, ring \<times> ring \<times> int) outcome \<times> 'os" where
  "uds_server_new sys net name os =
     and_then (create_buffers sys name os) (\<lambda>(rq, rp) os2.
       let os3 = snd (net_remove_file net (notify_path name) os2) in
       and_then (lift_sys Failed_to_bind (net_bind net (notify_path name) os3)) (\<lambda>fd os4.
         (Ok (rq, rp, fd), os4)))"

text \<open>The eventfds created so far are closed when a later step fails.\<close>

definition efd_server_new ::
  "'os shm_sys \<Rightarrow> 'os efd_sys \<Rightarrow> 'os net_sys \<Rightarrow> string \<Rightarrow> 'os
   \<Rightarrow> (startup_error, ring \<times> ring \<times> int \<times> int \<times> int) outcome \<times> 'os" where
  "efd_server_new sys efds net name os =
     and_then (create_buffers sys name os) (\<lambda>(rq, rp) os2.
     and_then (lift_sys Failed_to_create_eventfd (sys_eventfd efds 0 [EFD_CLOEXEC, EFD_NONBLOCK] os2)) (\<lambda>ev_q os3.
       (case sys_eventfd efds 0 [EFD_CLOEXEC, EFD_NONBLOCK] os3 of
          (Inl e, os4) \<Rightarrow> (Err (Failed_to_create_eventfd e), net_close net ev_q os4)
        | (Inr ev_p, os4) \<Rightarrow>
          (case net_bind net (control_path name) (snd (net_remove_file net (control_path name) os4)) of
             (Inl e, os5) \<Rightarrow> (Err (Failed_to_bind e), net_close net ev_q (net_close net ev_p os5))
           | (Inr fd, os5) \<Rightarrow> (Ok (rq, rp, ev_q, ev_p, fd), os5)))))"

definition send_eventfd ::
  "'os net_sys \<Rightarrow> int \<Rightarrow> int \<Rightarrow> 'os \<Rightarrow> (startup_error, unit) outcome \<times> 'os" where
  "send_eventfd net stream fd os =
     and_then (lift_sys Socket_error (net_sendmsg net stream [1] [ScmRights [fd]] os)) (\<lambda>_ os1. (Ok (), os1))"

text \<open>What \<open>run\<close> does before its request loop: the descriptor the loop waits on. (On an error
  \<open>run\<close> returns and the process ends; the closes on the way are not recorded.)\<close>

definition efd_server_connect ::
  "'os net_sys \<Rightarrow> int \<Rightarrow> int \<Rightarrow> int \<Rightarrow> 'os \<Rightarrow> (startup_error, int) outcome \<times> 'os" where
  "efd_server_connect net control_listener ev_q ev_p os =
     and_then (lift_sys Failed_to_accept (net_accept net control_listener os)) (\<lambda>stream os1.
     and_then (send_eventfd net stream ev_q os1) (\<lambda>_ os2.
     and_then (send_eventfd net stream ev_p os2) (\<lambda>_ os3.
     and_then (lift_sys Socket_error (net_try_clone net ev_q os3)) (\<lambda>fd os4.
       lift_sys Failed_to_create_AsyncFd (net_async_fd net fd os4)))))"

subsection \<open>What the wait does\<close>

lemma wait_attempts_exact:
  assumes "a \<le> 50" "os = attempt_state sys env name config os0 a"
    and "\<forall>j < a. \<exists>e. fst (ring_open sys name config (attempt_state sys env name config os0 j)) = Err e"
  shows "\<exists>k \<le> 50. (\<forall>j < k. \<exists>e. fst (ring_open sys name config (attempt_state sys env name config os0 j)) = Err e)
    \<and> snd (wait_attempts sys env name config a os)
        = snd (ring_open sys name config (attempt_state sys env name config os0 k))
    \<and> (case fst (ring_open sys name config (attempt_state sys env name config os0 k)) of
         Ok r \<Rightarrow> fst (wait_attempts sys env name config a os) = Ok r
       | Fault f \<Rightarrow> fst (wait_attempts sys env name config a os) = Fault f
       | Err e \<Rightarrow> k = 50 \<and> fst (wait_attempts sys env name config a os) = Err (Timeout_waiting_for name))"
  using assms
proof (induction sys env name config a os rule: wait_attempts.induct)
  case (1 sys env name config a os)
  note st = 1(3)
  obtain res os' where res: "ring_open sys name config os = (res, os')" by fastforce
  have f: "fst (ring_open sys name config (attempt_state sys env name config os0 a)) = res"
    "snd (ring_open sys name config (attempt_state sys env name config os0 a)) = os'"
    using res st by simp_all
  note unfold = wait_attempts.simps [of sys env name config a os]
  show ?case
  proof (cases res)
    case (Ok r)
    then have "wait_attempts sys env name config a os = (Ok r, os')" by (simp add: unfold res)
    with Ok f 1(2,4) show ?thesis by (intro exI [of _ a]) simp
  next
    case (Fault x)
    then have "wait_attempts sys env name config a os = (Fault x, os')" by (simp add: unfold res)
    with Fault f 1(2,4) show ?thesis by (intro exI [of _ a]) simp
  next
    case (Err e)
    show ?thesis
    proof (cases "50 < a + 1")
      case True
      then have "a = 50" using 1(2) by simp
      moreover have "wait_attempts sys env name config a os = (Err (Timeout_waiting_for name), os')"
        using Err True by (simp add: unfold res)
      ultimately show ?thesis using Err f 1(4) by (intro exI [of _ 50]) simp
    next
      case False
      have unf: "wait_attempts sys env name config a os = wait_attempts sys env name config (a + 1) (env (a + 1) os')"
        using Err False by (simp add: unfold res)
      have "\<exists>e. fst (ring_open sys name config (attempt_state sys env name config os0 j)) = Err e" if "j < a + 1" for j
        using 1(4) f(1) Err that by (cases "j = a") auto
      then have prev: "\<forall>j < a + 1. \<exists>e. fst (ring_open sys name config (attempt_state sys env name config os0 j)) = Err e"
        by blast
      have next_state: "env (a + 1) os' = attempt_state sys env name config os0 (a + 1)"
        using f(2) by simp
      show ?thesis unfolding unf
        by (rule 1(1) [OF res [symmetric] Err False _ next_state prev]) (use False in simp)
    qed
  qed
qed

lemma wait_for_shm_same: "uds_wait_for_shm = wait_for_shm" "efd_wait_for_shm = wait_for_shm"
  by (simp_all add: fun_eq_iff wait_for_shm_def uds_wait_for_shm_def efd_wait_for_shm_def)

subsection \<open>The handshake over the objects\<close>

text \<open>The waits of other tasks leave the objects alone.\<close>

definition keeps_objects ::
  "('os \<Rightarrow> string \<Rightarrow> bytes option) \<Rightarrow> (nat \<Rightarrow> 'os \<Rightarrow> 'os) \<Rightarrow> bool" where
  "keeps_objects obj env \<longleftrightarrow> (\<forall>n os. obj (env n os) = obj os)"

lemma ring_open_keeps:
  assumes laws: "posix_shm sys obj bound"
  shows "obj (snd (ring_open sys name config os)) = obj os"
proof (cases "sys_shm_open sys name [O_RDWR] [S_IRUSR, S_IWUSR] os")
  case (Pair res1 os1)
  show ?thesis
  proof (cases res1)
    case (Inl e)
    with Pair have "sys_shm_open sys name [O_RDWR] [S_IRUSR, S_IWUSR] os = (Inl e, os1)" by simp
    with Pair Inl posix_open_failed [OF laws this] show ?thesis by (simp add: ring_open_def)
  next
    case (Inr fd)
    with Pair have o: "sys_shm_open sys name [O_RDWR] [S_IRUSR, S_IWUSR] os = (Inr fd, os1)" by simp
    note ob1 = posix_opened [OF laws o]
    obtain res2 os2 where m: "sys_map_mut sys fd os1 = (res2, os2)" by fastforce
    have "obj os2 = obj os1"
    proof (cases res2)
      case (Inl e)
      with m have "sys_map_mut sys fd os1 = (Inl e, os2)" by simp
      then show ?thesis by (rule posix_failed(2) [OF laws])
    next
      case (Inr mem)
      with m have "sys_map_mut sys fd os1 = (Inr mem, os2)" by simp
      then show ?thesis using ob1(3) by (rule posix_mapped(2) [OF laws])
    qed
    moreover have "snd (ring_open sys name config os) = os2"
      using o m by (simp add: ring_open_def Let_def split: sum.split)
    ultimately show ?thesis using ob1(2) by simp
  qed
qed

lemma attempt_state_keeps:
  "posix_shm sys obj bound \<Longrightarrow> keeps_objects obj env \<Longrightarrow>
     obj (attempt_state sys env name config os j) = obj os"
  by (induction j) (simp_all add: keeps_objects_def ring_open_keeps)

lemma wait_for_shm_cases:
  obtains k where "snd (wait_for_shm sys env name config os)
        = snd (ring_open sys name config (attempt_state sys env name config os k))"
    and "case fst (ring_open sys name config (attempt_state sys env name config os k)) of
         Ok r \<Rightarrow> fst (wait_for_shm sys env name config os) = Ok r
       | Fault f \<Rightarrow> fst (wait_for_shm sys env name config os) = Fault f
       | Err e \<Rightarrow> k = 50 \<and> fst (wait_for_shm sys env name config os) = Err (Timeout_waiting_for name)"
  using wait_attempts_exact [of 0 os sys env name config os] unfolding wait_for_shm_def by auto

lemma wait_for_shm_keeps:
  assumes "posix_shm sys obj bound" "keeps_objects obj env"
  shows "obj (snd (wait_for_shm sys env name config os)) = obj os"
  by (rule wait_for_shm_cases [of sys env name config os])
    (simp add: ring_open_keeps [OF assms(1)] attempt_state_keeps [OF assms])

text \<open>Waiting for an object that a server has created, and for one that nobody creates.\<close>

lemma wait_for_shm_created:
  assumes laws: "posix_shm sys obj bound" "keeps_objects obj env"
    and ob: "obj os name = Some (header_to_bytes (header r) @ area r)"
    and r: "r = fresh_ring (buffer_size config) m"
  shows "fst (wait_for_shm sys env name config os) = Ok r
    \<or> fst (wait_for_shm sys env name config os) = Err (Timeout_waiting_for name)"
proof (rule wait_for_shm_cases [of sys env name config os])
  fix k
  let ?o = "fst (ring_open sys name config (attempt_state sys env name config os k))"
  assume cs: "case ?o of
         Ok r \<Rightarrow> fst (wait_for_shm sys env name config os) = Ok r
       | Fault f \<Rightarrow> fst (wait_for_shm sys env name config os) = Fault f
       | Err e \<Rightarrow> k = 50 \<and> fst (wait_for_shm sys env name config os) = Err (Timeout_waiting_for name)"
  have "obj (attempt_state sys env name config os k) name = Some (header_to_bytes (header r) @ area r)"
    using ob by (simp add: attempt_state_keeps [OF laws])
  from ring_open_created [OF laws(1) this r] cs show ?thesis by (cases ?o) auto
qed

lemma ring_open_missing:
  assumes "posix_shm sys obj bound" "obj os name = None"
  shows "\<exists>e. fst (ring_open sys name config os) = Err e"
proof (cases "sys_shm_open sys name [O_RDWR] [S_IRUSR, S_IWUSR] os")
  case (Pair res os1)
  with posix_opened(1) [OF assms(1), of name "[S_IRUSR, S_IWUSR]" os] assms(2)
  have "\<exists>e. res = Inl e" by (cases res) auto
  with Pair show ?thesis by (auto simp: ring_open_def)
qed

lemma wait_for_shm_missing:
  assumes laws: "posix_shm sys obj bound" "keeps_objects obj env" and ob: "obj os name = None"
  shows "fst (wait_for_shm sys env name config os) = Err (Timeout_waiting_for name)"
proof (rule wait_for_shm_cases [of sys env name config os])
  fix k
  let ?o = "fst (ring_open sys name config (attempt_state sys env name config os k))"
  assume cs: "case ?o of
         Ok r \<Rightarrow> fst (wait_for_shm sys env name config os) = Ok r
       | Fault f \<Rightarrow> fst (wait_for_shm sys env name config os) = Fault f
       | Err e \<Rightarrow> k = 50 \<and> fst (wait_for_shm sys env name config os) = Err (Timeout_waiting_for name)"
  have "obj (attempt_state sys env name config os k) name = None"
    using ob by (simp add: attempt_state_keeps [OF laws])
  then obtain e where "?o = Err e" using ring_open_missing [OF laws(1)] by blast
  with cs show ?thesis by (simp only: outcome.case)
qed

subsection \<open>What the creation leaves\<close>

lemma default_total: "total_bytes ShmConfig_default < 2 ^ 63"
  by (simp add: total_bytes_def header_size_def ShmConfig_default_values)

text \<open>A create changes nothing, or its own object and nothing else.\<close>

lemma ring_create_leaves:
  assumes laws: "posix_shm sys obj bound" and step: "ring_create sys name config os = (res, os')"
  shows "obj os' = obj os \<or> (\<exists>m. obj os' = (obj os)(name \<mapsto> m))"
proof -
  let ?open = "sys_shm_open sys name shm_excl [S_IRUSR, S_IWUSR] os"
  obtain r1 os1 where o: "?open = (r1, os1)" by fastforce
  show ?thesis
  proof (cases r1)
    case (Inl e)
    with o have "?open = (Inl e, os1)" by simp
    moreover from this have "obj os1 = obj os" by (rule posix_open_failed [OF laws])
    ultimately show ?thesis using step by (simp add: ring_create_def shm_excl_def Let_def)
  next
    case (Inr fd)
    with o have o1: "?open = (Inr fd, os1)" by simp
    note ob1 = posix_excl_opened(2,3) [OF laws o1]
    obtain r2 os2 where t: "sys_ftruncate sys fd (sint (of_nat header_size + buffer_size config)) os1 = (r2, os2)"
      by fastforce
    have ob2: "\<exists>m. obj os2 = (obj os)(name \<mapsto> m) \<and> (\<forall>u. r2 = Inr u \<longrightarrow> bound os2 fd = Some name)"
    proof (cases r2)
      case (Inl e)
      with t have "obj os2 = obj os1" using posix_failed(1) [OF laws] by blast
      with ob1 Inl show ?thesis by auto
    next
      case (Inr u)
      with t have "sys_ftruncate sys fd (sint (of_nat header_size + buffer_size config)) os1 = (Inr u, os2)" by simp
      note tr = posix_truncated [OF laws this ob1(2), of "[]"]
      have "obj os2 = (obj os)(name \<mapsto> shm_zero_extend [] (nat (sint (of_nat header_size + buffer_size config))))"
        "bound os2 fd = Some name" using tr ob1 by simp_all
      then show ?thesis by blast
    qed
    show ?thesis
    proof (cases r2)
      case (Inl e)
      with step o1 t ob2 show ?thesis by (auto simp: ring_create_def shm_excl_def Let_def)
    next
      case (Inr u)
      with ob2 obtain m2 where m2: "obj os2 = (obj os)(name \<mapsto> m2)" "bound os2 fd = Some name" by auto
      obtain r3 os3 where m: "sys_map_mut sys fd os2 = (r3, os3)" by fastforce
      have ob3: "obj os3 = obj os2 \<and> (\<forall>x. r3 = Inr x \<longrightarrow> bound os3 = bound os2)"
      proof (cases r3)
        case (Inl e)
        with m have "obj os3 = obj os2" using posix_failed(2) [OF laws] by blast
        with Inl show ?thesis by simp
      next
        case (Inr x)
        with m have "sys_map_mut sys fd os2 = (Inr x, os3)" by simp
        from posix_mapped(2,3) [OF laws this m2(2)] show ?thesis by simp
      qed
      have "obj os' = obj os3 \<or> (\<exists>x y. r3 = Inr y \<and> os' = sys_store sys fd x os3)"
        using step o1 t Inr m
        by (auto simp: ring_create_def shm_excl_def Let_def split: sum.splits option.splits)
      then show ?thesis
      proof
        assume "\<exists>x y. r3 = Inr y \<and> os' = sys_store sys fd x os3"
        then obtain x y where "r3 = Inr y" "os' = sys_store sys fd x os3" by blast
        with ob3 m2 posix_stored [OF laws, of os3 fd name x] show ?thesis by auto
      qed (use ob3 m2 in auto)
    qed
  qed
qed

lemma create_buffers_Ok:
  assumes laws: "posix_shm sys obj bound" and ok: "create_buffers sys name os = (Ok (rq, rp), os')"
  shows "rq = fresh_ring (buffer_size ShmConfig_default) (replicate (unat (buffer_size ShmConfig_default)) 0)"
    and "rp = fresh_ring (buffer_size ShmConfig_default) (replicate (unat (buffer_size ShmConfig_default)) 0)"
    and "obj os' (req_buf_name name) = Some (header_to_bytes (header rq) @ area rq)"
    and "obj os' (resp_buf_name name) = Some (header_to_bytes (header rp) @ area rp)"
proof -
  obtain os1 where c: "ring_create sys (req_buf_name name) ShmConfig_default os = (Ok rq, os1)"
    "ring_create sys (resp_buf_name name) ShmConfig_default os1 = (Ok rp, os')"
    using ok by (auto simp: create_buffers_def and_then_Ok map_err_Ok)
  note q = ring_create_Ok [OF laws default_total c(1)]
  note p = ring_create_Ok [OF laws default_total c(2)]
  show "rq = fresh_ring (buffer_size ShmConfig_default) (replicate (unat (buffer_size ShmConfig_default)) 0)"
    "rp = fresh_ring (buffer_size ShmConfig_default) (replicate (unat (buffer_size ShmConfig_default)) 0)"
    by (rule q(1), rule p(1))
  show "obj os' (req_buf_name name) = Some (header_to_bytes (header rq) @ area rq)"
    "obj os' (resp_buf_name name) = Some (header_to_bytes (header rp) @ area rp)"
    using q(3) p(3) by simp_all
qed

lemma create_buffers_leaves:
  assumes laws: "posix_shm sys obj bound" and step: "create_buffers sys name os = (res, os')"
  shows "obj os' = obj os \<or> obj os' (req_buf_name name) \<noteq> None"
    and "n \<noteq> req_buf_name name \<Longrightarrow> n \<noteq> resp_buf_name name \<Longrightarrow> obj os' n = obj os n"
    and "fst (create_buffers sys name os) = Ok x \<Longrightarrow> obj os' (req_buf_name name) \<noteq> None"
proof -
  obtain r1 os1 where c1: "ring_create sys (req_buf_name name) ShmConfig_default os = (r1, os1)" by fastforce
  note l1 = ring_create_leaves [OF laws c1]
  obtain r2 os2 where c2: "ring_create sys (resp_buf_name name) ShmConfig_default os1 = (r2, os2)" by fastforce
  note l2 = ring_create_leaves [OF laws c2]
  have os': "os' = (case r1 of Ok rq \<Rightarrow> os2 | _ \<Rightarrow> os1)"
    using step c1 c2 by (cases r1; cases r2) (simp_all add: create_buffers_def)
  have ex: "obj os1 (req_buf_name name) \<noteq> None" if "r1 = Ok rq" for rq
    using ring_create_Ok(3) [OF laws default_total] c1 that by simp
  have ex2: "obj os' (req_buf_name name) \<noteq> None" if "r1 = Ok rq" for rq
    using ex [OF that] l2 os' that by auto
  show "obj os' = obj os \<or> obj os' (req_buf_name name) \<noteq> None"
    using l1 ex2 os' by (cases r1) auto
  show "n \<noteq> req_buf_name name \<Longrightarrow> n \<noteq> resp_buf_name name \<Longrightarrow> obj os' n = obj os n"
    using l1 l2 os' by (cases r1) auto
  show "fst (create_buffers sys name os) = Ok x \<Longrightarrow> obj os' (req_buf_name name) \<noteq> None"
    using ex2 c1 by (cases r1) (auto simp: create_buffers_def)
qed

lemma create_buffers_exists:
  assumes "posix_shm sys obj bound" "obj os (req_buf_name name) \<noteq> None"
  shows "create_buffers sys name os = (Err (Failed_to_create_request_buffer (Nix EEXIST)), os)"
  using ring_create_exists [OF assms, of ShmConfig_default] by (simp add: create_buffers_def)

end
