(* ===== verification/Messages.thy ===== *)
theory Messages
  imports Shm_Lib
begin

section \<open>The messages of the protocol and their encodings\<close>

text \<open>
  \<^verbatim>\<open>proto/src/echo.proto\<close>: the message structures. A Rust \<open>String\<close> is its UTF-8 bytes. The
  serialisation libraries (bincode for the notified transports, serde_json for the polling
  one) are a parameter, the record \<open>codec\<close>; what the code relies on is that decoding inverts
  encoding and that an encoded message is a non-empty vector of admissible length (bincode
  starts with the eight bytes of a length, JSON with a brace). \<open>ref_codec\<close> is one
  codec that does, in the layout bincode documents: little-endian 64-bit length prefixes and
  fixed-width integers.
\<close>

type_synonym utf8 = bytes
type_synonym i64 = "64 word"

record EchoRequest =
  req_message :: utf8
  req_timestamp_ns :: i64
  req_payload :: bytes

record EchoResponse =
  resp_message :: utf8
  resp_timestamp_ns :: i64
  resp_processing_time_us :: i64
  resp_payload :: bytes

subsection \<open>Durations\<close>

text \<open>A \<open>Duration\<close> is its nanoseconds; the conversions truncate and the casts wrap.\<close>

type_synonym duration = nat

definition as_nanos_i64 :: "duration \<Rightarrow> i64" where
  "as_nanos_i64 d = of_nat d"

definition as_micros_i64 :: "duration \<Rightarrow> i64" where
  "as_micros_i64 d = of_nat (d div 1000)"

definition from_micros :: "u64 \<Rightarrow> duration" where
  "from_micros us = unat us * 1000"

text \<open>The response echoes the request: the relation every server establishes.\<close>

definition echoes :: "EchoRequest \<Rightarrow> EchoResponse \<Rightarrow> bool" where
  "echoes req resp \<longleftrightarrow> resp_message resp = req_message req \<and> resp_payload resp = req_payload req"

subsection \<open>Encodings\<close>

record codec =
  enc_request :: "utf8 \<times> EchoRequest \<Rightarrow> string + bytes"
  dec_request :: "bytes \<Rightarrow> string + (utf8 \<times> EchoRequest)"
  enc_response :: "utf8 \<times> EchoResponse \<Rightarrow> string + bytes"
  dec_response :: "bytes \<Rightarrow> string + (utf8 \<times> EchoResponse)"

definition codec_laws :: "codec \<Rightarrow> bool" where
  "codec_laws c \<longleftrightarrow>
     (\<forall>x b. enc_request c x = Inr b \<longrightarrow> dec_request c b = Inr x \<and> b \<noteq> [] \<and> length b \<le> isize_max)
   \<and> (\<forall>x b. enc_response c x = Inr b \<longrightarrow> dec_response c b = Inr x \<and> b \<noteq> [] \<and> length b \<le> isize_max)"

lemma codec_request:
  "codec_laws c \<Longrightarrow> enc_request c x = Inr b \<Longrightarrow> dec_request c b = Inr x \<and> b \<noteq> [] \<and> length b \<le> isize_max"
  unfolding codec_laws_def by blast

lemma codec_response:
  "codec_laws c \<Longrightarrow> enc_response c x = Inr b \<Longrightarrow> dec_response c b = Inr x \<and> b \<noteq> [] \<and> length b \<le> isize_max"
  unfolding codec_laws_def by blast

subsection \<open>A reference codec\<close>

definition put_bytes :: "bytes \<Rightarrow> bytes" where
  "put_bytes s = le_encode 8 (length s) @ s"

definition get_bytes :: "bytes \<Rightarrow> (bytes \<times> bytes) option" where
  "get_bytes bs =
     (let n = le_decode (take 8 bs) in
      if length bs < 8 + n then None else Some (take n (drop 8 bs), drop (8 + n) bs))"

definition put_i64 :: "i64 \<Rightarrow> bytes" where
  "put_i64 w = le_encode 8 (unat w)"

definition get_i64 :: "bytes \<Rightarrow> (i64 \<times> bytes) option" where
  "get_i64 bs = (if length bs < 8 then None else Some (of_nat (le_decode (take 8 bs)), drop 8 bs))"

lemma get_put_bytes: "length s \<le> isize_max \<Longrightarrow> get_bytes (put_bytes s @ rest) = Some (s, rest)"
  by (simp add: get_bytes_def put_bytes_def le_decode_encode isize_max_def Let_def)

lemma get_put_i64: "get_i64 (put_i64 w @ rest) = Some (w, rest)"
  using unsigned_less [of w, where ?'a = nat]
  by (simp add: get_i64_def put_i64_def le_decode_encode)

definition ref_put_request :: "utf8 \<times> EchoRequest \<Rightarrow> bytes" where
  "ref_put_request x = put_bytes (fst x) @ put_bytes (req_message (snd x))
     @ put_i64 (req_timestamp_ns (snd x)) @ put_bytes (req_payload (snd x))"

definition ref_put_response :: "utf8 \<times> EchoResponse \<Rightarrow> bytes" where
  "ref_put_response x = put_bytes (fst x) @ put_bytes (resp_message (snd x))
     @ put_i64 (resp_timestamp_ns (snd x)) @ put_i64 (resp_processing_time_us (snd x))
     @ put_bytes (resp_payload (snd x))"

definition ref_get_request :: "bytes \<Rightarrow> (utf8 \<times> EchoRequest) option" where
  "ref_get_request bs =
     Option.bind (get_bytes bs) (\<lambda>(i, bs1).
     Option.bind (get_bytes bs1) (\<lambda>(m, bs2).
     Option.bind (get_i64 bs2) (\<lambda>(t, bs3).
     Option.bind (get_bytes bs3) (\<lambda>(p, _).
       Some (i, \<lparr>req_message = m, req_timestamp_ns = t, req_payload = p\<rparr>)))))"

definition ref_get_response :: "bytes \<Rightarrow> (utf8 \<times> EchoResponse) option" where
  "ref_get_response bs =
     Option.bind (get_bytes bs) (\<lambda>(i, bs1).
     Option.bind (get_bytes bs1) (\<lambda>(m, bs2).
     Option.bind (get_i64 bs2) (\<lambda>(t, bs3).
     Option.bind (get_i64 bs3) (\<lambda>(u, bs4).
     Option.bind (get_bytes bs4) (\<lambda>(p, _).
       Some (i, \<lparr>resp_message = m, resp_timestamp_ns = t, resp_processing_time_us = u,
         resp_payload = p\<rparr>))))))"

definition ref_codec :: codec where
  "ref_codec =
     \<lparr>enc_request = (\<lambda>x. if length (ref_put_request x) \<le> isize_max
        then Inr (ref_put_request x) else Inl ''too long''),
      dec_request = (\<lambda>bs. case ref_get_request bs of None \<Rightarrow> Inl ''malformed'' | Some x \<Rightarrow> Inr x),
      enc_response = (\<lambda>x. if length (ref_put_response x) \<le> isize_max
        then Inr (ref_put_response x) else Inl ''too long''),
      dec_response = (\<lambda>bs. case ref_get_response bs of None \<Rightarrow> Inl ''malformed'' | Some x \<Rightarrow> Inr x)\<rparr>"

lemma length_put_bytes [simp]: "length (put_bytes s) = 8 + length s"
  by (simp add: put_bytes_def)

lemma ref_get_put_request:
  assumes "length (ref_put_request x) \<le> isize_max"
  shows "ref_get_request (ref_put_request x) = Some x"
proof -
  have "length (fst x) \<le> isize_max" "length (req_message (snd x)) \<le> isize_max"
    "length (req_payload (snd x)) \<le> isize_max"
    using assms by (simp_all add: ref_put_request_def)
  then show ?thesis
    using get_put_bytes [of "req_payload (snd x)" "[]"]
    by (cases x) (simp add: ref_get_request_def ref_put_request_def get_put_bytes get_put_i64)
qed

lemma ref_get_put_response:
  assumes "length (ref_put_response x) \<le> isize_max"
  shows "ref_get_response (ref_put_response x) = Some x"
proof -
  have "length (fst x) \<le> isize_max" "length (resp_message (snd x)) \<le> isize_max"
    "length (resp_payload (snd x)) \<le> isize_max"
    using assms by (simp_all add: ref_put_response_def)
  then show ?thesis
    using get_put_bytes [of "resp_payload (snd x)" "[]"]
    by (cases x) (simp add: ref_get_response_def ref_put_response_def get_put_bytes get_put_i64)
qed

lemma put_bytes_not_Nil [simp]: "put_bytes s \<noteq> []"
  using length_put_bytes [of s] by (metis add_is_0 list.size(3) zero_neq_numeral)

lemma ref_put_not_Nil [simp]: "ref_put_request x \<noteq> []" "ref_put_response y \<noteq> []"
  by (simp_all add: ref_put_request_def ref_put_response_def)

lemma ref_codec_laws: "codec_laws ref_codec"
  by (auto simp: codec_laws_def ref_codec_def ref_get_put_request ref_get_put_response split: if_splits)

end
