(* ===== verification/Rpc.thy ===== *)
theory Rpc
  imports Message_Queue Messages
begin

section \<open>Remote calls over a pair of rings\<close>

text \<open>
  What the two notified transports have in common. \<^verbatim>\<open>shm_transport_uds.rs\<close> and
  \<^verbatim>\<open>shm_transport_eventfd.rs\<close> keep the same state in the gateway (the two rings, the map of
  pending requests, the calls in progress, the response listener with its buffer), and
  \<^verbatim>\<open>shm_server_uds.rs\<close> and \<^verbatim>\<open>shm_server_eventfd.rs\<close> the same state in the backend (the request
  loop with its buffer, the spawned workers). They differ in how they notify: theories
  \<open>Shm_Uds\<close> and \<open>Shm_Eventfd\<close> extend the record by the notification kernel and compose the
  operations below into the steps of the tasks.

  A oneshot sender is represented by the entry of the pending map that owns it: the sender of
  call \<open>i\<close> is alive exactly as long as the map holds \<open>i\<close> under the identifier of the call.
\<close>

subsection \<open>State\<close>

datatype call_error =
    Unserializable string
  | WriteFailed shm_error
  | NotifyFailed errno
  | FlushFailed errno
  | ChannelClosed

type_synonym call_result = "(call_error, EchoResponse) outcome"

datatype call_phase = Inserted | Written | Waiting | Finished call_result

record call =
  call_id :: utf8
  call_req :: EchoRequest
  call_phase :: call_phase
  mailbox :: "EchoResponse option"

text \<open>A listening task: waiting for a notification, with so many reads to make on one, about to
  hand over a response it has read, or ended.\<close>

datatype task = Awaiting | Serving nat | Dispatching nat utf8 EchoResponse | Exited errno

text \<open>A worker the server has spawned for a request.\<close>

datatype worker =
    Sleeping utf8 EchoRequest
  | Notifying utf8
  | Replied utf8
  | Unannounced utf8 errno
  | Lost utf8 call_error

record rpc =
  req_ring :: ring
  resp_ring :: ring
  pending :: "utf8 \<rightharpoonup> nat"
  calls :: "call list"
  listener :: task
  response_buf :: bytes
  server :: task
  request_buf :: bytes
  workers :: "worker list"
  crashed :: "fault option"

definition set_phase :: "nat \<Rightarrow> call_phase \<Rightarrow> 'z rpc_scheme \<Rightarrow> 'z rpc_scheme" where
  "set_phase i p s = s\<lparr>calls := (calls s)[i := (calls s ! i)\<lparr>call_phase := p\<rparr>]\<rparr>"

subsection \<open>The steps of a call\<close>

text \<open>The new identifier and sender go into the map.\<close>

definition rpc_insert :: "utf8 \<Rightarrow> EchoRequest \<Rightarrow> 'z rpc_scheme \<Rightarrow> 'z rpc_scheme" where
  "rpc_insert i req s =
     s\<lparr>calls := calls s @ [\<lparr>call_id = i, call_req = req, call_phase = Inserted, mailbox = None\<rparr>],
       pending := (pending s)(i \<mapsto> length (calls s))\<rparr>"

text \<open>Serialise the request and write it; either error ends the call at once.\<close>

definition rpc_send :: "codec \<Rightarrow> nat \<Rightarrow> 'z rpc_scheme \<Rightarrow> 'z rpc_scheme" where
  "rpc_send c i s =
     (let cl = calls s ! i in
      case enc_request c (call_id cl, call_req cl) of
        Inl e \<Rightarrow> set_phase i (Finished (Err (Unserializable e))) s
      | Inr payload \<Rightarrow>
        (case ring_write (req_ring s) payload of
           (Ok n, r) \<Rightarrow> set_phase i Written (s\<lparr>req_ring := r\<rparr>)
         | (Err e, r) \<Rightarrow> set_phase i (Finished (Err (WriteFailed e))) (s\<lparr>req_ring := r\<rparr>)
         | (Fault f, r) \<Rightarrow> s\<lparr>req_ring := r, crashed := Some f\<rparr>))"

text \<open>\<^verbatim>\<open>rx.await\<close>: the value, or the error once the sender is gone; otherwise the call waits.\<close>

definition rpc_receive :: "nat \<Rightarrow> 'z rpc_scheme \<Rightarrow> 'z rpc_scheme option" where
  "rpc_receive i s =
     (let cl = calls s ! i in
      case mailbox cl of
        Some resp \<Rightarrow> Some (set_phase i (Finished (Ok resp)) s)
      | None \<Rightarrow>
          if pending s (call_id cl) = Some i then None
          else Some (set_phase i (Finished (Err ChannelClosed)) s))"

subsection \<open>The steps of the response listener\<close>

text \<open>One read of a ring into the task's own buffer.\<close>

definition rpc_fetch_response :: "'z rpc_scheme \<Rightarrow> (shm_error, bytes) outcome \<times> 'z rpc_scheme" where
  "rpc_fetch_response s =
     (case ring_read (resp_ring s) (response_buf s) of
        (Ok n, buf, r) \<Rightarrow> (Ok (take (unat n) buf), s\<lparr>resp_ring := r, response_buf := buf\<rparr>)
      | (Err e, buf, r) \<Rightarrow> (Err e, s\<lparr>resp_ring := r, response_buf := buf\<rparr>)
      | (Fault f, buf, r) \<Rightarrow> (Fault f, s\<lparr>resp_ring := r, response_buf := buf, crashed := Some f\<rparr>))"

text \<open>Remove the sender from the map and send; a call that has ended has dropped its receiver.\<close>

definition deliver :: "call \<Rightarrow> EchoResponse \<Rightarrow> call" where
  "deliver cl resp =
     (case call_phase cl of Finished _ \<Rightarrow> cl | _ \<Rightarrow> cl\<lparr>mailbox := Some resp\<rparr>)"

definition rpc_dispatch :: "utf8 \<Rightarrow> EchoResponse \<Rightarrow> 'z rpc_scheme \<Rightarrow> 'z rpc_scheme" where
  "rpc_dispatch i resp s =
     (case pending s i of
        None \<Rightarrow> s
      | Some k \<Rightarrow> s\<lparr>pending := (pending s)(i := None),
                   calls := (calls s)[k := deliver (calls s ! k) resp]\<rparr>)"

subsection \<open>The steps of the server\<close>

definition rpc_fetch_request :: "'z rpc_scheme \<Rightarrow> (shm_error, bytes) outcome \<times> 'z rpc_scheme" where
  "rpc_fetch_request s =
     (case ring_read (req_ring s) (request_buf s) of
        (Ok n, buf, r) \<Rightarrow> (Ok (take (unat n) buf), s\<lparr>req_ring := r, request_buf := buf\<rparr>)
      | (Err e, buf, r) \<Rightarrow> (Err e, s\<lparr>req_ring := r, request_buf := buf\<rparr>)
      | (Fault f, buf, r) \<Rightarrow> (Fault f, s\<lparr>req_ring := r, request_buf := buf, crashed := Some f\<rparr>))"

definition rpc_spawn :: "utf8 \<Rightarrow> EchoRequest \<Rightarrow> 'z rpc_scheme \<Rightarrow> 'z rpc_scheme" where
  "rpc_spawn i req s = s\<lparr>workers := workers s @ [Sleeping i req]\<rparr>"

text \<open>The response of a worker whose processing took \<open>elapsed\<close>.\<close>

definition echo_response :: "duration \<Rightarrow> EchoRequest \<Rightarrow> EchoResponse" where
  "echo_response elapsed req =
     \<lparr>resp_message = req_message req, resp_timestamp_ns = as_nanos_i64 elapsed,
      resp_processing_time_us = as_micros_i64 elapsed, resp_payload = req_payload req\<rparr>"

definition set_worker :: "nat \<Rightarrow> worker \<Rightarrow> 'z rpc_scheme \<Rightarrow> 'z rpc_scheme" where
  "set_worker j w s = s\<lparr>workers := (workers s)[j := w]\<rparr>"

definition rpc_reply ::
  "codec \<Rightarrow> duration \<Rightarrow> nat \<Rightarrow> utf8 \<Rightarrow> EchoRequest \<Rightarrow> 'z rpc_scheme \<Rightarrow> 'z rpc_scheme" where
  "rpc_reply c elapsed j i req s =
     (case enc_response c (i, echo_response elapsed req) of
        Inl e \<Rightarrow> set_worker j (Lost i (Unserializable e)) s
      | Inr payload \<Rightarrow>
        (case ring_write (resp_ring s) payload of
           (Ok n, r) \<Rightarrow> set_worker j (Notifying i) (s\<lparr>resp_ring := r\<rparr>)
         | (Err e, r) \<Rightarrow> set_worker j (Lost i (WriteFailed e)) (s\<lparr>resp_ring := r\<rparr>)
         | (Fault f, r) \<Rightarrow> s\<lparr>resp_ring := r, crashed := Some f\<rparr>))"

lemma echo_response_echoes: "echoes req (echo_response elapsed req)"
  by (simp add: echoes_def echo_response_def)

subsection \<open>The actions of a run\<close>

text \<open>A call starts, a call moves, the response listener moves, the server moves, a worker moves
  (its processing having taken the given time).\<close>

datatype rpc_action =
    Start utf8 EchoRequest
  | Call nat
  | Listen
  | Serve
  | Work nat duration

text \<open>The next length prefix of either ring lies in one piece (see \<open>Ring_Straddle\<close>).\<close>

definition rings_fit :: "'z rpc_scheme \<Rightarrow> bool" where
  "rings_fit s \<longleftrightarrow> prefix_fits (req_ring s) \<and> prefix_fits (resp_ring s)"

end
