(* ===== verification/Rpc_Invariant.thy ===== *)
theory Rpc_Invariant
  imports Rpc "HOL-Library.Multiset"
begin

section \<open>The invariant of the remote calls\<close>

text \<open>
  Whatever the interleaving, and however the tasks are notified: the rings carry encoded
  requests and responses of calls, every identifier that is under way sits in exactly one place
  (request ring, worker, response ring, listener), and it is under way exactly while its sender
  is in the pending map and its request has been written. \<open>qs\<close> and \<open>ps\<close> are the requests and
  the responses in the two rings.
\<close>

subsection \<open>Rings that carry encoded values\<close>

definition carries :: "('a \<Rightarrow> string + bytes) \<Rightarrow> ring \<Rightarrow> 'a list \<Rightarrow> bool" where
  "carries enc r xs \<longleftrightarrow> (\<exists>ms. ring_rep r ms \<and> list_all2 (\<lambda>x m. enc x = Inr m) xs ms)"

lemma carries_empty: "ring_rep r [] \<Longrightarrow> carries enc r []"
  by (auto simp: carries_def)

lemma carries_write:
  assumes "carries enc r xs" "prefix_fits r" "enc x = Inr p" "length p \<le> isize_max"
  obtains (room) r' where "ring_write r p = (Ok (len_usize p), r')" "carries enc r' (xs @ [x])"
      "ring_cap r' = ring_cap r"
    | (full) r' where "ring_write r p = (Err BufferFull, r')" "carries enc r' xs"
      "ring_cap r' = ring_cap r"
proof -
  obtain ms where ms: "ring_rep r ms" "list_all2 (\<lambda>x m. enc x = Inr m) xs ms"
    using assms(1) by (auto simp: carries_def)
  obtain r' where r': "ring_write r p = (fst (queue_write (ring_cap r) ms p), r')"
    "ring_rep r' (snd (queue_write (ring_cap r) ms p))" "ring_cap r' = ring_cap r"
    using rq.enq_refines [OF ms(1) assms(2,4)] by blast
  show ?thesis
  proof (cases "frames_size ms + 4 + length p < ring_cap r")
    case True
    with r' ms assms(3) have "carries enc r' (xs @ [x])"
      by (auto simp: carries_def queue_write_def intro!: exI [of _ "ms @ [p]"] list_all2_appendI)
    with True r' room show ?thesis by (simp add: queue_write_def)
  next
    case False
    with r' ms have "carries enc r' xs" by (auto simp: carries_def queue_write_def)
    with False r' full show ?thesis by (simp add: queue_write_def)
  qed
qed

lemma carries_read:
  assumes "carries enc r xs" "length buf \<le> isize_max"
  obtains (empty) r' where "ring_read r buf = (Err BufferEmpty, buf, r')" "xs = []" "carries enc r' []"
    | (short) r' x xs' m where "ring_read r buf = (Err InvalidState, buf, r')" "xs = x # xs'"
      "carries enc r' xs" "enc x = Inr m" "length buf < length m"
    | (got) r' x xs' m where "ring_read r buf = (Ok (len_usize m), m @ drop (length m) buf, r')"
      "xs = x # xs'" "carries enc r' xs'" "enc x = Inr m" "length m \<le> length buf"
proof -
  obtain ms where ms: "ring_rep r ms" "list_all2 (\<lambda>x m. enc x = Inr m) xs ms"
    using assms(1) by (auto simp: carries_def)
  obtain r' where r': "ring_read r buf = (fst (queue_read ms buf), fst (snd (queue_read ms buf)), r')"
    "ring_rep r' (snd (snd (queue_read ms buf)))"
    using rq.deq_refines [OF ms(1) assms(2)] by blast
  show ?thesis
  proof (cases ms)
    case Nil
    with ms r' empty show ?thesis by (simp add: queue_read_def carries_def)
  next
    case (Cons m ms')
    then obtain x xs' where x: "xs = x # xs'" "enc x = Inr m" "list_all2 (\<lambda>x m. enc x = Inr m) xs' ms'"
      using ms(2) by (auto simp: list_all2_Cons2)
    show ?thesis
    proof (cases "length buf < length m")
      case True
      with Cons r' ms x short show ?thesis by (fastforce simp: queue_read_def carries_def)
    next
      case False
      with Cons r' x have "carries enc r' xs'" by (auto simp: queue_read_def carries_def)
      with False Cons r' x got show ?thesis by (simp add: queue_read_def)
    qed
  qed
qed

text \<open>A ring of 4 GiB at most holds fewer than \<open>2 ^ 30\<close> messages.\<close>

lemma carries_length: "carries enc r xs \<Longrightarrow> 4 * length xs < ring_cap r \<and> ring_cap r \<le> 2 ^ 32"
proof -
  assume "carries enc r xs"
  then obtain ms where ms: "ring_rep r ms" "length xs = length ms"
    by (auto simp: carries_def list_all2_lengthD)
  have "4 * length ms \<le> frames_size ms" by (induction ms) auto
  moreover have "frames_size ms < ring_cap r"
    using ring_rep_size [OF ms(1)] ring_used_less [OF ring_rep_wf [OF ms(1)]] by simp
  ultimately show ?thesis using ms ring_rep_wf [OF ms(1)] by (simp add: ring_wf_def)
qed

subsection \<open>The invariant\<close>

fun finished_phase :: "call_phase \<Rightarrow> bool" where
  "finished_phase (Finished r) = True"
| "finished_phase _ = False"

text \<open>The request of the call has reached the ring.\<close>

fun sent_phase :: "call_phase \<Rightarrow> bool" where
  "sent_phase Inserted = False"
| "sent_phase (Finished (Err (Unserializable e))) = False"
| "sent_phase (Finished (Err (WriteFailed e))) = False"
| "sent_phase _ = True"

abbreviation sent :: "call \<Rightarrow> bool" where
  "sent cl \<equiv> sent_phase (call_phase cl)"

fun worker_ids :: "worker \<Rightarrow> utf8 list" where
  "worker_ids (Sleeping i req) = [i]"
| "worker_ids (Lost i e) = [i]"
| "worker_ids _ = []"

fun task_ids :: "task \<Rightarrow> utf8 list" where
  "task_ids (Dispatching n i resp) = [i]"
| "task_ids _ = []"

definition inflight ::
  "'z rpc_scheme \<Rightarrow> (utf8 \<times> EchoRequest) list \<Rightarrow> (utf8 \<times> EchoResponse) list \<Rightarrow> utf8 list" where
  "inflight s qs ps =
     map fst qs @ concat (map worker_ids (workers s)) @ map fst ps @ task_ids (listener s)"

definition call_inv :: "'z rpc_scheme \<Rightarrow> nat \<Rightarrow> bool" where
  "call_inv s i \<longleftrightarrow>
     (let cl = calls s ! i in
        (\<not> sent cl \<longrightarrow> pending s (call_id cl) = Some i)
      \<and> (pending s (call_id cl) = Some i \<longrightarrow> mailbox cl = None \<and> (\<forall>r. call_phase cl \<noteq> Finished (Ok r)))
      \<and> (pending s (call_id cl) = Some i \<or> mailbox cl \<noteq> None \<or> finished_phase (call_phase cl))
      \<and> (\<forall>r. mailbox cl = Some r \<or> call_phase cl = Finished (Ok r) \<longrightarrow> echoes (call_req cl) r)
      \<and> call_phase cl \<noteq> Finished (Err ChannelClosed))"

definition calls_inv :: "'z rpc_scheme \<Rightarrow> bool" where
  "calls_inv s \<longleftrightarrow>
     (\<forall>i k. pending s i = Some k \<longrightarrow> k < length (calls s) \<and> call_id (calls s ! k) = i)
   \<and> (\<forall>k < length (calls s). call_inv s k)"

text \<open>The request, and an answer, of the call whose sender the map holds under an identifier.\<close>

definition request_of :: "'z rpc_scheme \<Rightarrow> utf8 \<Rightarrow> EchoRequest \<Rightarrow> bool" where
  "request_of s i req \<longleftrightarrow> (\<exists>k. pending s i = Some k \<and> call_req (calls s ! k) = req)"

definition answer_of :: "'z rpc_scheme \<Rightarrow> utf8 \<Rightarrow> EchoResponse \<Rightarrow> bool" where
  "answer_of s i resp \<longleftrightarrow> (\<exists>req. request_of s i req \<and> echoes req resp)"

definition expected :: "'z rpc_scheme \<Rightarrow> utf8 \<Rightarrow> bool" where
  "expected s i \<longleftrightarrow> (\<exists>k. pending s i = Some k \<and> sent (calls s ! k))"

definition flow_inv ::
  "'z rpc_scheme \<Rightarrow> (utf8 \<times> EchoRequest) list \<Rightarrow> (utf8 \<times> EchoResponse) list \<Rightarrow> bool" where
  "flow_inv s qs ps \<longleftrightarrow>
     distinct (inflight s qs ps)
   \<and> (\<forall>i. i \<in> set (inflight s qs ps) \<longleftrightarrow> expected s i)
   \<and> (\<forall>(i, req) \<in> set qs. request_of s i req)
   \<and> (\<forall>i req. Sleeping i req \<in> set (workers s) \<longrightarrow> request_of s i req)
   \<and> (\<forall>(i, resp) \<in> set ps. answer_of s i resp)
   \<and> (\<forall>n i resp. listener s = Dispatching n i resp \<longrightarrow> answer_of s i resp)"

definition rpc_inv ::
  "codec \<Rightarrow> 'z rpc_scheme \<Rightarrow> (utf8 \<times> EchoRequest) list \<Rightarrow> (utf8 \<times> EchoResponse) list \<Rightarrow> bool" where
  "rpc_inv c s qs ps \<longleftrightarrow>
     crashed s = None \<and> length (request_buf s) \<le> isize_max \<and> length (response_buf s) \<le> isize_max
   \<and> carries (enc_request c) (req_ring s) qs \<and> carries (enc_response c) (resp_ring s) ps
   \<and> calls_inv s \<and> flow_inv s qs ps"

lemma rpc_invD:
  assumes "rpc_inv c s qs ps"
  shows "crashed s = None" "length (request_buf s) \<le> isize_max" "length (response_buf s) \<le> isize_max"
    "carries (enc_request c) (req_ring s) qs" "carries (enc_response c) (resp_ring s) ps"
    "calls_inv s" "flow_inv s qs ps"
  using assms by (simp_all add: rpc_inv_def)

lemma call_invD:
  assumes "rpc_inv c s qs ps" "k < length (calls s)"
  shows "call_inv s k"
  using rpc_invD(6) [OF assms(1)] assms(2) by (simp add: calls_inv_def)

lemma pendingD:
  assumes "rpc_inv c s qs ps" "pending s i = Some k"
  shows "k < length (calls s) \<and> call_id (calls s ! k) = i"
  using rpc_invD(6) [OF assms(1)] assms(2) unfolding calls_inv_def by blast

subsection \<open>A call changes its phase\<close>

lemma set_phase_simps [simp]:
  "pending (set_phase k p s) = pending s" "workers (set_phase k p s) = workers s"
  "listener (set_phase k p s) = listener s" "server (set_phase k p s) = server s"
  "req_ring (set_phase k p s) = req_ring s" "resp_ring (set_phase k p s) = resp_ring s"
  "request_buf (set_phase k p s) = request_buf s" "response_buf (set_phase k p s) = response_buf s"
  "crashed (set_phase k p s) = crashed s" "length (calls (set_phase k p s)) = length (calls s)"
  by (simp_all add: set_phase_def)

lemma set_phase_nth:
  "j < length (calls s) \<Longrightarrow> calls (set_phase k p s) ! j =
     (if j = k then (calls s ! k)\<lparr>call_phase := p\<rparr> else calls s ! j)"
  by (simp add: set_phase_def nth_list_update)

lemma set_phase_ids [simp]: "map call_id (calls (set_phase k p s)) = map call_id (calls s)"
  by (cases "k < length (calls s)")
    (simp_all add: set_phase_def map_update list_update_same_conv list_update_beyond)

lemma set_phase_inv:
  assumes inv: "rpc_inv c s qs ps" and k: "k < length (calls s)"
    and p: "sent_phase p = sent (calls s ! k)" "finished_phase (call_phase (calls s ! k)) \<longrightarrow> finished_phase p"
      "p \<noteq> Finished (Err ChannelClosed)"
      "\<And>r. p = Finished (Ok r) \<Longrightarrow> echoes (call_req (calls s ! k)) r \<and> pending s (call_id (calls s ! k)) \<noteq> Some k"
  shows "rpc_inv c (set_phase k p s) qs ps"
proof -
  have nth: "call_id (calls (set_phase k p s) ! j) = call_id (calls s ! j)"
    "call_req (calls (set_phase k p s) ! j) = call_req (calls s ! j)"
    "mailbox (calls (set_phase k p s) ! j) = mailbox (calls s ! j)"
    "sent (calls (set_phase k p s) ! j) = sent (calls s ! j)" if "j < length (calls s)" for j
    using that p(1) by (simp_all add: set_phase_nth)
  have "call_inv (set_phase k p s) j" if j: "j < length (calls s)" for j
  proof (cases "j = k")
    case True
    with call_invD [OF inv k] k p show ?thesis
      by (auto simp: call_inv_def Let_def set_phase_nth)
  next
    case False
    with call_invD [OF inv j] j show ?thesis by (simp add: call_inv_def Let_def set_phase_nth)
  qed
  then have "calls_inv (set_phase k p s)"
    using rpc_invD(6) [OF inv] nth by (auto simp: calls_inv_def)
  moreover have "flow_inv (set_phase k p s) qs ps"
  proof -
    have "inflight (set_phase k p s) qs ps = inflight s qs ps" by (simp add: inflight_def)
    moreover have "request_of (set_phase k p s) = request_of s" "expected (set_phase k p s) = expected s"
      using pendingD [OF inv] nth by (auto simp: request_of_def expected_def fun_eq_iff)
    ultimately show ?thesis
      using rpc_invD(7) [OF inv] by (simp add: flow_inv_def answer_of_def)
  qed
  ultimately show ?thesis using inv by (simp add: rpc_inv_def)
qed

subsection \<open>A call is started and sent\<close>

lemma rpc_insert_inv:
  assumes inv: "rpc_inv c s qs ps" and fresh: "i \<notin> call_id ` set (calls s)"
  shows "rpc_inv c (rpc_insert i req s) qs ps"
proof -
  let ?t = "rpc_insert i req s" and ?n = "length (calls s)"
  have old: "k < ?n" "call_id (calls s ! k) = j" "calls ?t ! k = calls s ! k" "j \<noteq> i"
    if "pending s j = Some k" for j k
    using pendingD [OF inv that] fresh nth_mem [of k "calls s"]
    by (auto simp: rpc_insert_def nth_append)
  have none: "pending s i = None"
    using old(4) by (cases "pending s i") auto
  have "call_inv ?t k" if k: "k < length (calls ?t)" for k
  proof (cases "k = ?n")
    case True
    then show ?thesis by (simp add: call_inv_def Let_def rpc_insert_def)
  next
    case False
    then have k': "k < ?n" using k by (simp add: rpc_insert_def)
    have "call_id (calls s ! k) \<noteq> i" using fresh nth_mem [OF k'] by auto
    with call_invD [OF inv k'] k' show ?thesis
      by (simp add: call_inv_def Let_def rpc_insert_def nth_append)
  qed
  moreover have "\<forall>j k. pending ?t j = Some k \<longrightarrow> k < length (calls ?t) \<and> call_id (calls ?t ! k) = j"
    using old by (auto simp: rpc_insert_def nth_append less_SucI)
  ultimately have "calls_inv ?t" by (simp add: calls_inv_def)
  moreover have "flow_inv ?t qs ps"
  proof -
    have flow: "flow_inv s qs ps" using inv by (rule rpc_invD)
    have under: "inflight ?t qs ps = inflight s qs ps" by (simp add: inflight_def rpc_insert_def)
    have "expected ?t j = expected s j" for j
      using none old(3) [of j]
      by (cases "j = i") (auto simp: expected_def rpc_insert_def nth_append)
    moreover have req: "request_of s j q \<Longrightarrow> request_of ?t j q" for j q
      using none old(3) [of j] by (cases "j = i") (auto simp: request_of_def rpc_insert_def)
    moreover have "answer_of s j q \<Longrightarrow> answer_of ?t j q" for j q
      using req by (auto simp: answer_of_def)
    ultimately show ?thesis
      using flow under by (auto simp: flow_inv_def rpc_insert_def)
  qed
  ultimately show ?thesis using inv by (simp add: rpc_inv_def rpc_insert_def)
qed

text \<open>The request enters the ring.\<close>

lemma rpc_sent_inv:
  assumes inv: "rpc_inv c s qs ps" and k: "k < length (calls s)"
    and ph: "call_phase (calls s ! k) = Inserted"
    and ring: "carries (enc_request c) r (qs @ [(call_id (calls s ! k), call_req (calls s ! k))])"
  shows "rpc_inv c (set_phase k Written (s\<lparr>req_ring := r\<rparr>))
           (qs @ [(call_id (calls s ! k), call_req (calls s ! k))]) ps"
proof -
  let ?t = "set_phase k Written (s\<lparr>req_ring := r\<rparr>)" and ?i = "call_id (calls s ! k)"
  let ?qs = "qs @ [(?i, call_req (calls s ! k))]"
  have flow: "flow_inv s qs ps" using inv by (rule rpc_invD)
  have own: "pending s ?i = Some k" "mailbox (calls s ! k) = None"
    using call_invD [OF inv k] ph by (simp_all add: call_inv_def Let_def)
  then have new: "?i \<notin> set (inflight s qs ps)" using flow ph by (simp add: flow_inv_def expected_def)
  have nth: "calls ?t ! j = (if j = k then (calls s ! k)\<lparr>call_phase := Written\<rparr> else calls s ! j)"
    if "j < length (calls s)" for j
    using that by (simp add: set_phase_nth)
  have "call_inv ?t j" if j: "j < length (calls s)" for j
    using call_invD [OF inv j] own j ph by (auto simp: call_inv_def Let_def nth)
  then have "calls_inv ?t"
    using rpc_invD(6) [OF inv] nth by (auto simp: calls_inv_def)
  moreover have "flow_inv ?t ?qs ps"
  proof -
    have set: "set (inflight ?t ?qs ps) = insert ?i (set (inflight s qs ps))"
      by (auto simp: inflight_def)
    have "distinct (inflight ?t ?qs ps)"
      using flow new by (auto simp: flow_inv_def inflight_def)
    moreover have "expected ?t j \<longleftrightarrow> j = ?i \<or> expected s j" for j
      using own pendingD [OF inv, of j]
      by (auto simp: expected_def nth split: if_splits)
    moreover have "request_of ?t = request_of s"
      using pendingD [OF inv] by (auto simp: request_of_def nth fun_eq_iff split: if_splits)
    moreover have "request_of s ?i (call_req (calls s ! k))" using own by (simp add: request_of_def)
    ultimately show ?thesis
      using flow set by (auto simp: flow_inv_def answer_of_def)
  qed
  ultimately show ?thesis using inv ring by (simp add: rpc_inv_def)
qed

lemma rpc_send_inv:
  assumes codec: "codec_laws c" and inv: "rpc_inv c s qs ps" and k: "k < length (calls s)"
    and ph: "call_phase (calls s ! k) = Inserted" and fits: "prefix_fits (req_ring s)"
  obtains (written) r where
      "rpc_send c k s = set_phase k Written (s\<lparr>req_ring := r\<rparr>)" "ring_cap r = ring_cap (req_ring s)"
      "rpc_inv c (rpc_send c k s) (qs @ [(call_id (calls s ! k), call_req (calls s ! k))]) ps"
    | (refused) r e where
      "rpc_send c k s = set_phase k (Finished (Err e)) (s\<lparr>req_ring := r\<rparr>)"
      "ring_cap r = ring_cap (req_ring s)"
      "(\<exists>m. e = Unserializable m) \<or> e = WriteFailed BufferFull"
      "rpc_inv c (rpc_send c k s) qs ps"
proof -
  let ?x = "(call_id (calls s ! k), call_req (calls s ! k))"
  have same: "rpc_inv c (set_phase k (Finished (Err e)) (s\<lparr>req_ring := r\<rparr>)) qs ps"
    if "carries (enc_request c) r qs" "(\<exists>m. e = Unserializable m) \<or> e = WriteFailed BufferFull" for r e
  proof (rule set_phase_inv)
    show "rpc_inv c (s\<lparr>req_ring := r\<rparr>) qs ps"
      using inv that(1)
      by (simp add: rpc_inv_def calls_inv_def flow_inv_def inflight_def call_inv_def
        request_of_def answer_of_def expected_def)
  qed (use that(2) k ph in auto)
  show ?thesis
  proof (cases "enc_request c ?x")
    case (Inl m)
    then have e: "rpc_send c k s = set_phase k (Finished (Err (Unserializable m))) (s\<lparr>req_ring := req_ring s\<rparr>)"
      by (simp add: rpc_send_def)
    have "carries (enc_request c) (req_ring s) qs" using inv by (rule rpc_invD)
    from same [OF this] refused [OF e] e show ?thesis by simp
  next
    case (Inr p)
    then have "length p \<le> isize_max" using codec_request [OF codec] by blast
    with rpc_invD(4) [OF inv] fits Inr show ?thesis
    proof (cases rule: carries_write)
      case (room r')
      then have "rpc_send c k s = set_phase k Written (s\<lparr>req_ring := r'\<rparr>)"
        using Inr by (simp add: rpc_send_def)
      with room rpc_sent_inv [OF inv k ph room(2)] show ?thesis using written by simp
    next
      case (full r')
      then have "rpc_send c k s = set_phase k (Finished (Err (WriteFailed BufferFull))) (s\<lparr>req_ring := r'\<rparr>)"
        using Inr by (simp add: rpc_send_def)
      with full same show ?thesis using refused by simp
    qed
  qed
qed

lemma rpc_receive_inv:
  assumes inv: "rpc_inv c s qs ps" and k: "k < length (calls s)"
    and ph: "call_phase (calls s ! k) = Waiting" and t: "rpc_receive k s = Some t"
  obtains resp where "mailbox (calls s ! k) = Some resp" "t = set_phase k (Finished (Ok resp)) s"
    "rpc_inv c t qs ps"
proof -
  have ci: "call_inv s k" using inv k by (rule call_invD)
  obtain resp where m: "mailbox (calls s ! k) = Some resp"
    using ci t ph by (auto simp: call_inv_def Let_def rpc_receive_def split: option.splits if_splits)
  then have t': "t = set_phase k (Finished (Ok resp)) s" using t by (simp add: rpc_receive_def)
  have "rpc_inv c (set_phase k (Finished (Ok resp)) s) qs ps"
    using inv k ph m ci by (intro set_phase_inv) (auto simp: call_inv_def Let_def)
  with m t' that show ?thesis by simp
qed


subsection \<open>Parts the invariant does not look at\<close>

lemmas rpc_inv_unfold = rpc_inv_def calls_inv_def flow_inv_def inflight_def call_inv_def
  request_of_def answer_of_def expected_def

lemma rpc_inv_server [simp]: "rpc_inv c (s\<lparr>server := x\<rparr>) qs ps = rpc_inv c s qs ps"
  by (simp add: rpc_inv_unfold)

lemma rpc_inv_listener:
  assumes "task_ids (listener s) = []" "task_ids x = []"
  shows "rpc_inv c (s\<lparr>listener := x\<rparr>) qs ps = rpc_inv c s qs ps"
proof -
  have "listener s \<noteq> Dispatching n i resp" "x \<noteq> Dispatching n i resp" for n i resp
    using assms by auto
  with assms show ?thesis by (simp add: rpc_inv_unfold)
qed

lemma rpc_inv_req_ring:
  assumes "rpc_inv c s qs ps" "carries (enc_request c) r qs" "length b = length (request_buf s)"
  shows "rpc_inv c (s\<lparr>req_ring := r, request_buf := b\<rparr>) qs ps"
  using assms by (simp add: rpc_inv_unfold)

lemma rpc_inv_resp_ring:
  assumes "rpc_inv c s qs ps" "carries (enc_response c) r ps" "length b = length (response_buf s)"
  shows "rpc_inv c (s\<lparr>resp_ring := r, response_buf := b\<rparr>) qs ps"
  using assms by (simp add: rpc_inv_unfold)

subsection \<open>The listener reads and hands over\<close>

lemma rpc_fetch_response_inv:
  assumes codec: "codec_laws c" and inv: "rpc_inv c s qs ps" and idle: "task_ids (listener s) = []"
  obtains (empty) r b where
      "rpc_fetch_response s = (Err BufferEmpty, s\<lparr>resp_ring := r, response_buf := b\<rparr>)" "ps = []"
      "rpc_inv c (s\<lparr>resp_ring := r, response_buf := b\<rparr>) qs ps" "length b = length (response_buf s)"
    | (short) r b x ps' m where
      "rpc_fetch_response s = (Err InvalidState, s\<lparr>resp_ring := r, response_buf := b\<rparr>)" "ps = x # ps'"
      "enc_response c x = Inr m" "length (response_buf s) < length m"
      "rpc_inv c (s\<lparr>resp_ring := r, response_buf := b\<rparr>) qs ps" "length b = length (response_buf s)"
    | (got) r b m i resp ps' where
      "rpc_fetch_response s = (Ok m, s\<lparr>resp_ring := r, response_buf := b\<rparr>)" "m \<noteq> []"
      "ps = (i, resp) # ps'" "dec_response c m = Inr (i, resp)"
      "\<And>n. rpc_inv c (s\<lparr>resp_ring := r, response_buf := b, listener := Dispatching n i resp\<rparr>) qs ps'"
      "length b = length (response_buf s)"
proof -
  have ring: "carries (enc_response c) (resp_ring s) ps" "length (response_buf s) \<le> isize_max"
    using inv by (rule rpc_invD)+
  then show ?thesis
  proof (cases rule: carries_read)
    case (empty r')
    show ?thesis
      by (rule that(1) [where r = r' and b = "response_buf s"])
        (use empty rpc_inv_resp_ring [OF inv, of r' "response_buf s"] in \<open>simp_all add: rpc_fetch_response_def\<close>)
  next
    case (short r' x xs' m)
    show ?thesis
      by (rule that(2) [where r = r' and b = "response_buf s" and x = x and ps' = xs' and m = m])
        (use short rpc_inv_resp_ring [OF inv, of r' "response_buf s"] in \<open>simp_all add: rpc_fetch_response_def\<close>)
  next
    case (got r' x xs' m)
    obtain i resp where x: "x = (i, resp)" by fastforce
    define b where "b = m @ drop (length m) (response_buf s)"
    have m: "dec_response c m = Inr (i, resp)" "m \<noteq> []" "length m \<le> isize_max"
      using codec_response [OF codec] got(4) x by blast+
    have lb: "length b = length (response_buf s)" using got(5) by (simp add: b_def)
    have "rpc_fetch_response s = (Ok m, s\<lparr>resp_ring := r', response_buf := b\<rparr>)"
      using got m(3) by (simp add: rpc_fetch_response_def b_def)
    moreover have "rpc_inv c (s\<lparr>resp_ring := r', response_buf := b, listener := Dispatching n i resp\<rparr>) qs xs'" for n
      using inv got(2,3) x idle lb unfolding rpc_inv_unfold by auto
    ultimately show ?thesis using that(3) m got(2) x lb by blast
  qed
qed

text \<open>The response reaches the call that sent the request.\<close>

lemma rpc_dispatch_inv:
  assumes inv: "rpc_inv c s qs ps" and at: "listener s = Dispatching n i resp" and x: "task_ids x = []"
  shows "rpc_inv c ((rpc_dispatch i resp s)\<lparr>listener := x\<rparr>) qs ps"
    and "\<exists>k. pending s i = Some k"
proof -
  have flow: "flow_inv s qs ps" using inv by (rule rpc_invD)
  have mem: "i \<in> set (inflight s qs ps)" using at by (simp add: inflight_def)
  then have "expected s i" using flow by (simp add: flow_inv_def)
  then obtain k where k: "pending s i = Some k" "sent (calls s ! k)" by (auto simp: expected_def)
  then show "\<exists>k. pending s i = Some k" by blast
  have kl: "k < length (calls s)" "call_id (calls s ! k) = i" using pendingD [OF inv k(1)] by auto
  have echo: "echoes (call_req (calls s ! k)) resp"
    using flow at k(1) unfolding flow_inv_def answer_of_def request_of_def by auto
  define t where "t = (rpc_dispatch i resp s)\<lparr>listener := x\<rparr>"
  have t: "pending t = (pending s)(i := None)" "calls t = (calls s)[k := deliver (calls s ! k) resp]"
    "workers t = workers s" "listener t = x" "crashed t = crashed s" "request_buf t = request_buf s"
    "response_buf t = response_buf s" "req_ring t = req_ring s" "resp_ring t = resp_ring s"
    using k(1) by (simp_all add: t_def rpc_dispatch_def)
  have nth: "calls t ! j = (if j = k then deliver (calls s ! k) resp else calls s ! j)"
    if "j < length (calls s)" for j
    using that by (simp add: t nth_list_update)
  have same: "call_id (deliver cl r) = call_id cl" "call_req (deliver cl r) = call_req cl"
    "call_phase (deliver cl r) = call_phase cl" for cl r
    by (auto simp: deliver_def split: call_phase.split)
  have pend: "pending t = (pending s)(i := None)" and len: "length (calls t) = length (calls s)"
    by (simp_all add: t)
  have "call_inv t j" if j: "j < length (calls s)" for j
  proof (cases "j = k")
    case True
    with call_invD [OF inv kl(1)] k kl echo show ?thesis
      by (cases "call_phase (calls s ! k)")
        (auto simp: call_inv_def Let_def nth same pend deliver_def)
  next
    case False
    have "pending s (call_id (calls s ! j)) = Some j \<Longrightarrow> call_id (calls s ! j) \<noteq> i"
      using False k(1) by auto
    with call_invD [OF inv j] False j show ?thesis
      by (auto simp: call_inv_def Let_def nth pend)
  qed
  then have "calls_inv t"
    using rpc_invD(6) [OF inv] nth same by (auto simp: calls_inv_def pend len split: if_splits)
  moreover have "flow_inv t qs ps"
  proof -
    have under: "inflight s qs ps = inflight t qs ps @ [i]"
      using at x by (simp add: inflight_def t)
    have d: "distinct (inflight t qs ps @ [i])" "j \<in> set (inflight t qs ps @ [i]) \<longleftrightarrow> expected s j" for j
      using flow unfolding under [symmetric] flow_inv_def by auto
    have eq: "j \<noteq> i \<Longrightarrow> expected t j = expected s j" "\<not> expected t i"
      "j \<noteq> i \<Longrightarrow> request_of t j q = request_of s j q" for j q
      using pendingD [OF inv] by (auto simp: expected_def request_of_def pend nth same split: if_splits)
    have other: "j \<noteq> i" if "(j, q) \<in> set qs \<or> Sleeping j q \<in> set (workers s) \<or> (j, p) \<in> set ps" for j q p
    proof
      assume "j = i"
      with that have "i \<in> set (inflight t qs ps)"
        by (auto simp: inflight_def t intro!: image_eqI [of _ fst])
          (metis list.set_intros(1) worker_ids.simps(1))+
      with d(1) show False by simp
    qed
    have l: "listener t \<noteq> Dispatching n j r" for n j r using x by (auto simp: t)
    have w: "workers t = workers s" by (rule t)
    have iff: "j \<in> set (inflight t qs ps) \<longleftrightarrow> expected t j" for j
      using d(1) d(2) [of j] eq(1,2) by (cases "j = i") auto
    have "request_of t j q" if "(j, q) \<in> set qs \<or> Sleeping j q \<in> set (workers s)" for j q
      using that other [of j q] flow eq(3) unfolding flow_inv_def by auto
    moreover have "answer_of t j p" if "(j, p) \<in> set ps" for j p
      using that other [of j _ p] flow eq(3) unfolding flow_inv_def answer_of_def by auto
    ultimately show ?thesis
      using d(1) iff l w unfolding flow_inv_def by auto
  qed
  ultimately have "rpc_inv c t qs ps" using inv by (simp add: rpc_inv_def t)
  then show "rpc_inv c ((rpc_dispatch i resp s)\<lparr>listener := x\<rparr>) qs ps" by (simp add: t_def)
qed


subsection \<open>The server reads and its workers reply\<close>

lemma rpc_fetch_request_inv:
  assumes codec: "codec_laws c" and inv: "rpc_inv c s qs ps"
  obtains (empty) r b where
      "rpc_fetch_request s = (Err BufferEmpty, s\<lparr>req_ring := r, request_buf := b\<rparr>)" "qs = []"
      "rpc_inv c (s\<lparr>req_ring := r, request_buf := b\<rparr>) qs ps" "length b = length (request_buf s)"
    | (short) r b x qs' m where
      "rpc_fetch_request s = (Err InvalidState, s\<lparr>req_ring := r, request_buf := b\<rparr>)" "qs = x # qs'"
      "enc_request c x = Inr m" "length (request_buf s) < length m"
      "rpc_inv c (s\<lparr>req_ring := r, request_buf := b\<rparr>) qs ps" "length b = length (request_buf s)"
    | (got) r b m i req qs' where
      "rpc_fetch_request s = (Ok m, s\<lparr>req_ring := r, request_buf := b\<rparr>)" "m \<noteq> []"
      "qs = (i, req) # qs'" "dec_request c m = Inr (i, req)"
      "rpc_inv c (rpc_spawn i req (s\<lparr>req_ring := r, request_buf := b\<rparr>)) qs' ps"
      "length b = length (request_buf s)"
proof -
  have ring: "carries (enc_request c) (req_ring s) qs" "length (request_buf s) \<le> isize_max"
    using inv by (rule rpc_invD)+
  then show ?thesis
  proof (cases rule: carries_read)
    case (empty r')
    show ?thesis
      by (rule that(1) [where r = r' and b = "request_buf s"])
        (use empty rpc_inv_req_ring [OF inv, of r' "request_buf s"] in \<open>simp_all add: rpc_fetch_request_def\<close>)
  next
    case (short r' x xs' m)
    show ?thesis
      by (rule that(2) [where r = r' and b = "request_buf s" and x = x and qs' = xs' and m = m])
        (use short rpc_inv_req_ring [OF inv, of r' "request_buf s"] in \<open>simp_all add: rpc_fetch_request_def\<close>)
  next
    case (got r' x xs' m)
    obtain i req where x: "x = (i, req)" by fastforce
    define b where "b = m @ drop (length m) (request_buf s)"
    have m: "dec_request c m = Inr (i, req)" "m \<noteq> []" "length m \<le> isize_max"
      using codec_request [OF codec] got(4) x by blast+
    have lb: "length b = length (request_buf s)" using got(5) by (simp add: b_def)
    have "rpc_fetch_request s = (Ok m, s\<lparr>req_ring := r', request_buf := b\<rparr>)"
      using got m(3) by (simp add: rpc_fetch_request_def b_def)
    moreover have "rpc_inv c (rpc_spawn i req (s\<lparr>req_ring := r', request_buf := b\<rparr>)) xs' ps"
      using inv got(2,3) x lb unfolding rpc_inv_unfold rpc_spawn_def by auto
    ultimately show ?thesis using that(3) m got(2) x lb by blast
  qed
qed

lemma set_worker_simps [simp]:
  "calls (set_worker j w s) = calls s" "pending (set_worker j w s) = pending s"
  "listener (set_worker j w s) = listener s" "server (set_worker j w s) = server s"
  "req_ring (set_worker j w s) = req_ring s" "resp_ring (set_worker j w s) = resp_ring s"
  "request_buf (set_worker j w s) = request_buf s" "response_buf (set_worker j w s) = response_buf s"
  "crashed (set_worker j w s) = crashed s" "workers (set_worker j w s) = (workers s)[j := w]"
  by (simp_all add: set_worker_def)

text \<open>A worker that neither gains nor loses an identifier.\<close>

lemma set_worker_inv:
  assumes inv: "rpc_inv c s qs ps" and j: "j < length (workers s)"
    and w: "worker_ids w = worker_ids (workers s ! j)" "\<And>i req. w \<noteq> Sleeping i req"
  shows "rpc_inv c (set_worker j w s) qs ps"
proof -
  have "map worker_ids ((workers s)[j := w]) = map worker_ids (workers s)"
    using j w(1) by (simp add: map_update list_update_same_conv)
  moreover have "Sleeping i req \<in> set (workers s)" if "Sleeping i req \<in> set ((workers s)[j := w])" for i req
    using that set_update_subset_insert [of "workers s" j w] w(2) by blast
  ultimately show ?thesis
    using inv by (auto simp: rpc_inv_def calls_inv_def flow_inv_def inflight_def call_inv_def
        request_of_def answer_of_def expected_def set_worker_def)
qed

lemma rpc_reply_inv:
  assumes codec: "codec_laws c" and inv: "rpc_inv c s qs ps" and j: "j < length (workers s)"
    and w: "workers s ! j = Sleeping i req" and fits: "prefix_fits (resp_ring s)"
  obtains (replied) r where
      "rpc_reply c d j i req s = set_worker j (Notifying i) (s\<lparr>resp_ring := r\<rparr>)"
      "rpc_inv c (rpc_reply c d j i req s) qs (ps @ [(i, echo_response d req)])"
      "ring_cap r = ring_cap (resp_ring s)"
    | (lost) r e where
      "rpc_reply c d j i req s = set_worker j (Lost i e) (s\<lparr>resp_ring := r\<rparr>)"
      "(\<exists>m. e = Unserializable m) \<or> e = WriteFailed BufferFull"
      "rpc_inv c (rpc_reply c d j i req s) qs ps" "ring_cap r = ring_cap (resp_ring s)"
proof -
  let ?x = "(i, echo_response d req)"
  have flow: "flow_inv s qs ps" using inv by (rule rpc_invD)
  have same: "rpc_inv c (set_worker j (Lost i e) (s\<lparr>resp_ring := r\<rparr>)) qs ps"
    if "carries (enc_response c) r ps" for r e
  proof (rule set_worker_inv)
    show "rpc_inv c (s\<lparr>resp_ring := r\<rparr>) qs ps"
      using rpc_inv_resp_ring [OF inv that, of "response_buf s"] by simp
  qed (use j w in auto)
  show ?thesis
  proof (cases "enc_response c ?x")
    case (Inl m)
    then have e: "rpc_reply c d j i req s = set_worker j (Lost i (Unserializable m)) (s\<lparr>resp_ring := resp_ring s\<rparr>)"
      by (simp add: rpc_reply_def)
    have "carries (enc_response c) (resp_ring s) ps" using inv by (rule rpc_invD)
    from same [OF this] lost [OF e] e show ?thesis by simp
  next
    case (Inr p)
    then have "length p \<le> isize_max" using codec_response [OF codec] by blast
    with rpc_invD(5) [OF inv] fits Inr show ?thesis
    proof (cases rule: carries_write)
      case (full r')
      then have "rpc_reply c d j i req s = set_worker j (Lost i (WriteFailed BufferFull)) (s\<lparr>resp_ring := r'\<rparr>)"
        using Inr by (simp add: rpc_reply_def)
      with full same show ?thesis using lost by simp
    next
      case (room r')
      define t where "t = set_worker j (Notifying i) (s\<lparr>resp_ring := r'\<rparr>)"
      have e: "rpc_reply c d j i req s = t"
        using room Inr by (simp add: rpc_reply_def t_def)
      have tw: "workers t = take j (workers s) @ Notifying i # drop (Suc j) (workers s)"
        using j by (simp add: t_def set_worker_def upd_conv_take_nth_drop)
      have sw: "workers s = take j (workers s) @ Sleeping i req # drop (Suc j) (workers s)"
        using id_take_nth_drop [OF j] w by simp
      have mset: "mset (inflight t qs (ps @ [?x])) = mset (inflight s qs ps)"
      proof -
        have "concat (map worker_ids (workers s)) = concat (map worker_ids (take j (workers s)))
            @ [i] @ concat (map worker_ids (drop (Suc j) (workers s)))"
          by (subst sw) simp
        then show ?thesis by (simp add: inflight_def tw) (simp add: t_def)
      qed
      have "distinct (inflight t qs (ps @ [?x]))"
        using flow mset_eq_imp_distinct_iff [OF mset] by (simp add: flow_inv_def)
      moreover have "set (inflight t qs (ps @ [?x])) = set (inflight s qs ps)"
        using mset by (metis mset_eq_setD)
      moreover have "Sleeping k q \<in> set (workers s)" if "Sleeping k q \<in> set (workers t)" for k q
        using that by (subst sw) (auto simp: tw)
      moreover have "request_of s i req"
        using flow nth_mem [OF j] w by (auto simp: flow_inv_def)
      then have "answer_of s i (echo_response d req)"
        using echo_response_echoes by (auto simp: answer_of_def)
      moreover have "request_of t = request_of s" "expected t = expected s"
        by (auto simp: t_def request_of_def expected_def fun_eq_iff)
      ultimately have "flow_inv t qs (ps @ [?x])"
        using flow by (auto simp: flow_inv_def answer_of_def) (auto simp: t_def)
      moreover have "calls_inv t"
        using rpc_invD(6) [OF inv] by (simp add: t_def calls_inv_def call_inv_def)
      ultimately have "rpc_inv c t qs (ps @ [?x])"
        using inv room(2) by (simp add: rpc_inv_def t_def)
      with room e replied show ?thesis by (simp add: t_def)
    qed
  qed
qed


subsection \<open>Counting what is written but not yet announced\<close>

fun unnotified_phase :: "call_phase \<Rightarrow> bool" where
  "unnotified_phase Written = True"
| "unnotified_phase (Finished (Err (NotifyFailed e))) = True"
| "unnotified_phase _ = False"

definition unnotified :: "'z rpc_scheme \<Rightarrow> nat" where
  "unnotified s = length (filter (\<lambda>cl. unnotified_phase (call_phase cl)) (calls s))"

fun owed :: "task \<Rightarrow> nat" where
  "owed (Serving n) = n"
| "owed (Dispatching n i resp) = n"
| "owed _ = 0"

fun exited :: "task \<Rightarrow> bool" where
  "exited (Exited e) = True"
| "exited _ = False"

lemma unnotified_set_phase:
  assumes "k < length (calls s)"
  shows "unnotified (set_phase k p s) + (if unnotified_phase (call_phase (calls s ! k)) then 1 else 0)
       = unnotified s + (if unnotified_phase p then 1 else 0)"
  using filter_update_length [OF assms, of "\<lambda>cl. unnotified_phase (call_phase cl)"
      "(calls s ! k)\<lparr>call_phase := p\<rparr>"]
  by (simp add: unnotified_def set_phase_def)

lemma unnotified_insert [simp]: "unnotified (rpc_insert i req s) = unnotified s"
  by (simp add: unnotified_def rpc_insert_def)

lemma deliver_simps [simp]:
  "call_id (deliver cl r) = call_id cl" "call_req (deliver cl r) = call_req cl"
  "call_phase (deliver cl r) = call_phase cl"
  by (auto simp: deliver_def split: call_phase.split)

lemma phase_delivered:
  "k < length xs \<Longrightarrow> call_phase ((xs :: call list)[j := deliver (xs ! j) r] ! k) = call_phase (xs ! k)"
  by (cases "j = k") (simp_all add: nth_list_update)

lemma unnotified_dispatch:
  assumes "rpc_inv c s qs ps"
  shows "unnotified (rpc_dispatch i resp s) = unnotified s"
proof (cases "pending s i")
  case None
  then show ?thesis by (simp add: rpc_dispatch_def)
next
  case (Some k)
  then have "k < length (calls s)" using pendingD [OF assms] by blast
  from filter_update_length [OF this, of "\<lambda>cl. unnotified_phase (call_phase cl)" "deliver (calls s ! k) resp"] Some
  show ?thesis by (simp add: unnotified_def rpc_dispatch_def)
qed

text \<open>The identifiers and the requests of the calls only grow.\<close>

definition tickets :: "'z rpc_scheme \<Rightarrow> (utf8 \<times> EchoRequest) list" where
  "tickets s = map (\<lambda>cl. (call_id cl, call_req cl)) (calls s)"

lemma tickets_set_phase [simp]: "tickets (set_phase k p s) = tickets s"
  by (cases "k < length (calls s)")
    (simp_all add: tickets_def set_phase_def map_update list_update_same_conv list_update_beyond)

lemma tickets_insert [simp]: "tickets (rpc_insert i req s) = tickets s @ [(i, req)]"
  by (simp add: tickets_def rpc_insert_def)

lemma tickets_dispatch [simp]: "tickets (rpc_dispatch i resp s) = tickets s"
proof (cases "pending s i")
  case None
  then show ?thesis by (simp add: rpc_dispatch_def)
next
  case (Some k)
  then show ?thesis
    by (cases "k < length (calls s)")
      (simp_all add: tickets_def rpc_dispatch_def map_update list_update_same_conv list_update_beyond)
qed

lemma tickets_ids: "map fst (tickets s) = map call_id (calls s)"
  by (simp add: tickets_def)

text \<open>The encoded requests fit the server's buffer and any echo of them the listener's.\<close>

definition fits_buffers :: "codec \<Rightarrow> nat \<Rightarrow> nat \<Rightarrow> (utf8 \<times> EchoRequest) list \<Rightarrow> bool" where
  "fits_buffers c qn pn xs \<longleftrightarrow> (\<forall>(i, req) \<in> set xs.
     (\<forall>m. enc_request c (i, req) = Inr m \<longrightarrow> length m \<le> qn)
   \<and> (\<forall>resp m. echoes req resp \<longrightarrow> enc_response c (i, resp) = Inr m \<longrightarrow> length m \<le> pn))"

lemma fits_buffers_mono: "fits_buffers c qn pn (xs @ ys) \<Longrightarrow> fits_buffers c qn pn xs"
  by (auto simp: fits_buffers_def)

lemma request_of_ticket:
  assumes "rpc_inv c s qs ps" "request_of s i req"
  shows "(i, req) \<in> set (tickets s)"
proof -
  obtain k where "pending s i = Some k" "call_req (calls s ! k) = req"
    using assms(2) by (auto simp: request_of_def)
  then show ?thesis using pendingD [OF assms(1), of i k] by (auto simp: tickets_def)
qed

lemma fits_request:
  assumes inv: "rpc_inv c s (x # qs) ps" and f: "fits_buffers c qn pn (tickets s)"
    and m: "enc_request c x = Inr m"
  shows "length m \<le> qn"
proof -
  obtain i req where x: "x = (i, req)" by fastforce
  have "request_of s i req" using rpc_invD(7) [OF inv] x by (simp add: flow_inv_def)
  from request_of_ticket [OF inv this] f m x show ?thesis by (auto simp: fits_buffers_def)
qed

lemma fits_response:
  assumes inv: "rpc_inv c s qs (x # ps)" and f: "fits_buffers c qn pn (tickets s)"
    and m: "enc_response c x = Inr m"
  shows "length m \<le> pn"
proof -
  obtain i resp where x: "x = (i, resp)" by fastforce
  obtain req where "request_of s i req" "echoes req resp"
    using rpc_invD(7) [OF inv] x by (auto simp: flow_inv_def answer_of_def)
  with request_of_ticket [OF inv] f m x show ?thesis by (fastforce simp: fits_buffers_def)
qed


lemma tickets_frame [simp]:
  "tickets (s\<lparr>req_ring := r\<rparr>) = tickets s" "tickets (s\<lparr>resp_ring := r\<rparr>) = tickets s"
  "tickets (s\<lparr>request_buf := b\<rparr>) = tickets s" "tickets (s\<lparr>response_buf := b\<rparr>) = tickets s"
  "tickets (s\<lparr>server := x\<rparr>) = tickets s" "tickets (s\<lparr>listener := x\<rparr>) = tickets s"
  "tickets (s\<lparr>crashed := f\<rparr>) = tickets s"
  "tickets (rpc_spawn i req s) = tickets s" "tickets (set_worker j w s) = tickets s"
  by (simp_all add: tickets_def rpc_spawn_def)

lemma unnotified_frame [simp]:
  "unnotified (s\<lparr>req_ring := r\<rparr>) = unnotified s" "unnotified (s\<lparr>resp_ring := r\<rparr>) = unnotified s"
  "unnotified (s\<lparr>request_buf := b\<rparr>) = unnotified s" "unnotified (s\<lparr>response_buf := b\<rparr>) = unnotified s"
  "unnotified (s\<lparr>server := x\<rparr>) = unnotified s" "unnotified (s\<lparr>listener := x\<rparr>) = unnotified s"
  "unnotified (rpc_spawn i req s) = unnotified s" "unnotified (set_worker j w s) = unnotified s"
  by (simp_all add: unnotified_def rpc_spawn_def)

lemma rpc_spawn_simps [simp]:
  "workers (rpc_spawn i req s) = workers s @ [Sleeping i req]" "calls (rpc_spawn i req s) = calls s"
  "listener (rpc_spawn i req s) = listener s" "server (rpc_spawn i req s) = server s"
  "request_buf (rpc_spawn i req s) = request_buf s" "response_buf (rpc_spawn i req s) = response_buf s"
  "req_ring (rpc_spawn i req s) = req_ring s" "resp_ring (rpc_spawn i req s) = resp_ring s"
  "pending (rpc_spawn i req s) = pending s"
  by (simp_all add: rpc_spawn_def)

lemma rpc_dispatch_simps [simp]:
  "workers (rpc_dispatch i resp s) = workers s" "length (calls (rpc_dispatch i resp s)) = length (calls s)"
  "server (rpc_dispatch i resp s) = server s" "listener (rpc_dispatch i resp s) = listener s"
  "request_buf (rpc_dispatch i resp s) = request_buf s" "response_buf (rpc_dispatch i resp s) = response_buf s"
  "req_ring (rpc_dispatch i resp s) = req_ring s" "resp_ring (rpc_dispatch i resp s) = resp_ring s"
  by (simp_all add: rpc_dispatch_def split: option.split)

lemma rpc_insert_simps [simp]:
  "workers (rpc_insert i req s) = workers s" "server (rpc_insert i req s) = server s"
  "listener (rpc_insert i req s) = listener s"
  "request_buf (rpc_insert i req s) = request_buf s" "response_buf (rpc_insert i req s) = response_buf s"
  "req_ring (rpc_insert i req s) = req_ring s" "resp_ring (rpc_insert i req s) = resp_ring s"
  by (simp_all add: rpc_insert_def)


text \<open>Identifiers are not reused (version 4 UUIDs).\<close>

definition fresh_ids :: "'z rpc_scheme \<Rightarrow> bool" where
  "fresh_ids s \<longleftrightarrow> distinct (map fst (tickets s))"

lemma fresh_ids_prefix: "fresh_ids t \<Longrightarrow> tickets t = tickets s @ xs \<Longrightarrow> fresh_ids s"
  by (simp add: fresh_ids_def)

lemma fresh_ids_insert: "fresh_ids (rpc_insert i req s) \<Longrightarrow> i \<notin> call_id ` set (calls s)"
  unfolding fresh_ids_def tickets_insert by (force simp: tickets_def)

lemma set_update_other:
  assumes "v \<in> set xs"
  shows "v \<in> set (xs[j := w]) \<or> v = xs ! j"
proof -
  obtain l where "l < length xs" "xs ! l = v" using assms by (metis in_set_conv_nth)
  then show ?thesis by (cases "l = j") (auto simp: in_set_conv_nth intro!: exI [of _ l])
qed

lemma rpc_inv_boot:
  assumes "ring_rep rq []" "ring_rep rp []" and "req_ring s = rq" "resp_ring s = rp" "calls s = []"
    "pending s = Map.empty" "workers s = []" "listener s = Awaiting" "crashed s = None"
    "length (request_buf s) \<le> isize_max" "length (response_buf s) \<le> isize_max"
  shows "rpc_inv c s [] []"
  using assms by (simp add: rpc_inv_unfold carries_empty)

end
