(* ===== verification/Shm_Uds.thy ===== *)
theory Shm_Uds
  imports Rpc_Invariant
begin

section \<open>The transport with notifications over a socket\<close>

text \<open>
  \<^verbatim>\<open>gateway/src/shm_transport_uds.rs\<close> and \<^verbatim>\<open>backend/src/shm_server_uds.rs\<close>: requests and
  responses travel through the rings, and each side writes one byte to a stream socket after
  each message. The gateway's calls, its response listener, the backend's request listener and
  the workers it spawns are tasks; a step of the model is one step of one task up to its next
  await point or shared access, and the order of the steps is arbitrary. The socket is a
  parameter (\<open>sock_sys\<close>) with the documented behaviour of a stream (\<open>sock_laws\<close>).
\<close>

subsection \<open>The socket\<close>

datatype side = Gateway_End | Backend_End

fun peer :: "side \<Rightarrow> side" where
  "peer Gateway_End = Backend_End"
| "peer Backend_End = Gateway_End"

text \<open>\<open>sock_read_exact\<close> reads one byte; \<open>None\<close> is a read that has to wait.\<close>

record 'k sock_sys =
  sock_write_u8 :: "side \<Rightarrow> u8 \<Rightarrow> 'k \<Rightarrow> (errno + unit) \<times> 'k"
  sock_flush :: "side \<Rightarrow> 'k \<Rightarrow> (errno + unit) \<times> 'k"
  sock_read_exact :: "side \<Rightarrow> 'k \<Rightarrow> (errno + u8) option \<times> 'k"

definition sock_write_law :: "'k sock_sys \<Rightarrow> ('k \<Rightarrow> side \<Rightarrow> bytes) \<Rightarrow> bool" where
  "sock_write_law sys unread \<longleftrightarrow>
     (\<forall>e b k. unread (snd (sock_write_u8 sys e b k)) =
        (case fst (sock_write_u8 sys e b k) of
           Inl _ \<Rightarrow> unread k
         | Inr _ \<Rightarrow> (unread k)(peer e := unread k (peer e) @ [b])))
   \<and> (\<forall>e k. unread (snd (sock_flush sys e k)) = unread k)"

definition sock_read_law :: "'k sock_sys \<Rightarrow> ('k \<Rightarrow> side \<Rightarrow> bytes) \<Rightarrow> bool" where
  "sock_read_law sys unread \<longleftrightarrow>
     (\<forall>e k. case fst (sock_read_exact sys e k) of
        None \<Rightarrow> unread k e = [] \<and> unread (snd (sock_read_exact sys e k)) = unread k
      | Some (Inr b) \<Rightarrow> unread k e = b # unread (snd (sock_read_exact sys e k)) e
          \<and> unread (snd (sock_read_exact sys e k)) (peer e) = unread k (peer e)
      | Some (Inl _) \<Rightarrow> unread (snd (sock_read_exact sys e k)) (peer e) = unread k (peer e))"

definition sock_laws :: "'k sock_sys \<Rightarrow> ('k \<Rightarrow> side \<Rightarrow> bytes) \<Rightarrow> bool" where
  "sock_laws sys unread \<longleftrightarrow> sock_write_law sys unread \<and> sock_read_law sys unread"

subsection \<open>State\<close>

record 'k uds = rpc +
  socket :: 'k

text \<open>Both sides set up over mapped rings \<open>rq\<close> and \<open>rp\<close> and connected: no call yet.\<close>

definition uds_boot :: "ring \<Rightarrow> ring \<Rightarrow> 'k \<Rightarrow> 'k uds" where
  "uds_boot rq rp k =
     \<lparr>req_ring = rq, resp_ring = rp, pending = Map.empty, calls = [],
      listener = Awaiting, response_buf = replicate 131072 0,
      server = Awaiting, request_buf = replicate 65536 0, workers = [], crashed = None,
      socket = k\<rparr>"

subsection \<open>The gateway\<close>

definition uds_notify :: "'k sock_sys \<Rightarrow> nat \<Rightarrow> 'k uds \<Rightarrow> 'k uds" where
  "uds_notify sys k s =
     (case sock_write_u8 sys Gateway_End 1 (socket s) of
        (Inl e, n) \<Rightarrow> set_phase k (Finished (Err (NotifyFailed e))) (s\<lparr>socket := n\<rparr>)
      | (Inr _, n) \<Rightarrow>
        (case sock_flush sys Gateway_End n of
           (Inl e, n') \<Rightarrow> set_phase k (Finished (Err (FlushFailed e))) (s\<lparr>socket := n'\<rparr>)
         | (Inr _, n') \<Rightarrow> set_phase k Waiting (s\<lparr>socket := n'\<rparr>)))"

definition uds_call :: "codec \<Rightarrow> 'k sock_sys \<Rightarrow> nat \<Rightarrow> 'k uds \<Rightarrow> 'k uds option" where
  "uds_call c sys k s =
     (if length (calls s) \<le> k then None
      else case call_phase (calls s ! k) of
        Inserted \<Rightarrow> Some (rpc_send c k s)
      | Written \<Rightarrow> Some (uds_notify sys k s)
      | Waiting \<Rightarrow> rpc_receive k s
      | Finished r \<Rightarrow> None)"

text \<open>The listener drains the response ring on every byte it receives.\<close>

definition uds_listen :: "codec \<Rightarrow> 'k sock_sys \<Rightarrow> 'k uds \<Rightarrow> 'k uds option" where
  "uds_listen c sys s =
     (case listener s of
        Awaiting \<Rightarrow>
          (case sock_read_exact sys Gateway_End (socket s) of
             (None, n) \<Rightarrow> None
           | (Some (Inl e), n) \<Rightarrow> Some (s\<lparr>socket := n, listener := Exited e\<rparr>)
           | (Some (Inr b), n) \<Rightarrow> Some (s\<lparr>socket := n, listener := Serving 1\<rparr>))
      | Serving n \<Rightarrow>
          (case rpc_fetch_response s of
             (Err e, t) \<Rightarrow> Some (t\<lparr>listener := Awaiting\<rparr>)
           | (Fault f, t) \<Rightarrow> Some t
           | (Ok m, t) \<Rightarrow>
               (case dec_response c m of
                  Inl e \<Rightarrow> Some t
                | Inr (i, resp) \<Rightarrow> Some (t\<lparr>listener := Dispatching n i resp\<rparr>)))
      | Dispatching n i resp \<Rightarrow> Some ((rpc_dispatch i resp s)\<lparr>listener := Serving n\<rparr>)
      | Exited e \<Rightarrow> None)"

subsection \<open>The backend\<close>

text \<open>The request listener makes one read per byte and spawns one worker per request.\<close>

definition uds_serve :: "codec \<Rightarrow> 'k sock_sys \<Rightarrow> 'k uds \<Rightarrow> 'k uds option" where
  "uds_serve c sys s =
     (case server s of
        Awaiting \<Rightarrow>
          (case sock_read_exact sys Backend_End (socket s) of
             (None, n) \<Rightarrow> None
           | (Some (Inl e), n) \<Rightarrow> Some (s\<lparr>socket := n, server := Exited e\<rparr>)
           | (Some (Inr b), n) \<Rightarrow> Some (s\<lparr>socket := n, server := Serving 1\<rparr>))
      | Serving n \<Rightarrow>
          (case rpc_fetch_request s of
             (Err e, t) \<Rightarrow> Some (t\<lparr>server := Awaiting\<rparr>)
           | (Fault f, t) \<Rightarrow> Some t
           | (Ok m, t) \<Rightarrow>
               (case dec_request c m of
                  Inl e \<Rightarrow> Some (t\<lparr>server := Awaiting\<rparr>)
                | Inr (i, req) \<Rightarrow> Some ((rpc_spawn i req t)\<lparr>server := Awaiting\<rparr>)))
      | _ \<Rightarrow> None)"

text \<open>A worker sleeps at least the configured delay, replies and notifies.\<close>

definition uds_work ::
  "codec \<Rightarrow> 'k sock_sys \<Rightarrow> duration \<Rightarrow> nat \<Rightarrow> duration \<Rightarrow> 'k uds \<Rightarrow> 'k uds option" where
  "uds_work c sys delay j elapsed s =
     (if length (workers s) \<le> j then None
      else case workers s ! j of
        Sleeping i req \<Rightarrow>
          (if elapsed < delay then None else Some (rpc_reply c elapsed j i req s))
      | Notifying i \<Rightarrow>
          (case sock_write_u8 sys Backend_End 1 (socket s) of
             (Inl e, n) \<Rightarrow> Some (set_worker j (Unannounced i e) (s\<lparr>socket := n\<rparr>))
           | (Inr _, n) \<Rightarrow>
               Some (set_worker j (Replied i) (s\<lparr>socket := snd (sock_flush sys Backend_End n)\<rparr>)))
      | _ \<Rightarrow> None)"

subsection \<open>Runs\<close>

definition uds_step ::
  "codec \<Rightarrow> 'k sock_sys \<Rightarrow> duration \<Rightarrow> rpc_action \<Rightarrow> 'k uds \<Rightarrow> 'k uds option" where
  "uds_step c sys delay a s =
     (if crashed s \<noteq> None then None
      else case a of
        Start i req \<Rightarrow> Some (rpc_insert i req s)
      | Call k \<Rightarrow> uds_call c sys k s
      | Listen \<Rightarrow> uds_listen c sys s
      | Serve \<Rightarrow> uds_serve c sys s
      | Work j elapsed \<Rightarrow> uds_work c sys delay j elapsed s)"

inductive uds_reach ::
  "codec \<Rightarrow> 'k sock_sys \<Rightarrow> duration \<Rightarrow> 'k uds \<Rightarrow> 'k uds \<Rightarrow> bool" for c sys delay s0 where
  uds_refl: "uds_reach c sys delay s0 s0"
| uds_next: "uds_reach c sys delay s0 s \<Longrightarrow> rings_fit s \<Longrightarrow> uds_step c sys delay a s = Some t \<Longrightarrow>
     uds_reach c sys delay s0 t"


subsection \<open>The invariant\<close>

definition uds_request_ledger :: "('k \<Rightarrow> side \<Rightarrow> bytes) \<Rightarrow> 'k uds \<Rightarrow> 'a list \<Rightarrow> bool" where
  "uds_request_ledger unread s qs \<longleftrightarrow>
     (\<not> exited (server s) \<longrightarrow>
        length qs = length (unread (socket s) Backend_End) + unnotified s + owed (server s))"

definition uds_response_wake :: "('k \<Rightarrow> side \<Rightarrow> bytes) \<Rightarrow> 'k uds \<Rightarrow> 'a list \<Rightarrow> bool" where
  "uds_response_wake unread s ps \<longleftrightarrow>
     (ps = [] \<or> unread (socket s) Gateway_End \<noteq> [] \<or> (\<exists>i. Notifying i \<in> set (workers s))
      \<or> (\<exists>i e. Unannounced i e \<in> set (workers s)) \<or> listener s \<noteq> Awaiting)"

definition uds_inv ::
  "codec \<Rightarrow> ('k \<Rightarrow> side \<Rightarrow> bytes) \<Rightarrow> 'k uds
   \<Rightarrow> (utf8 \<times> EchoRequest) list \<Rightarrow> (utf8 \<times> EchoResponse) list \<Rightarrow> bool" where
  "uds_inv c unread s qs ps \<longleftrightarrow>
     rpc_inv c s qs ps
   \<and> length (request_buf s) = 65536 \<and> length (response_buf s) = 131072
   \<and> (server s = Awaiting \<or> server s = Serving 1 \<or> exited (server s))
   \<and> (fits_buffers c 65536 131072 (tickets s) \<longrightarrow>
        uds_request_ledger unread s qs \<and> uds_response_wake unread s ps)"

lemmas uds_inv_unfold = uds_inv_def uds_request_ledger_def uds_response_wake_def

lemma uds_inv_rpc: "uds_inv c unread s qs ps \<Longrightarrow> rpc_inv c s qs ps"
  by (simp add: uds_inv_def)

lemma rpc_inv_socket [simp]: "rpc_inv c (s\<lparr>socket := n\<rparr>) qs ps = rpc_inv c s qs ps"
  by (simp add: rpc_inv_unfold)

lemma socket_frame [simp]:
  "socket (set_phase k p s) = socket s" "socket (set_worker j w s) = socket s"
  "socket (rpc_spawn i req s) = socket s" "socket (rpc_insert i req s) = socket s"
  "socket (rpc_dispatch i resp s) = socket s"
  by (simp_all add: set_phase_def set_worker_def rpc_spawn_def rpc_insert_def rpc_dispatch_def
      split: option.split)

lemma uds_frame [simp]:
  "unnotified (s\<lparr>socket := n\<rparr>) = unnotified s" "tickets (s\<lparr>socket := n\<rparr>) = tickets s"
  by (simp_all add: unnotified_def tickets_def)

lemma sock_written:
  assumes "sock_laws sys unread" "sock_write_u8 sys e b k = (x, n)"
  shows "unread n = (case x of Inl _ \<Rightarrow> unread k | Inr _ \<Rightarrow> (unread k)(peer e := unread k (peer e) @ [b]))"
proof -
  have "unread (snd (sock_write_u8 sys e b k)) =
      (case fst (sock_write_u8 sys e b k) of Inl _ \<Rightarrow> unread k
         | Inr _ \<Rightarrow> (unread k)(peer e := unread k (peer e) @ [b]))"
    using assms(1) unfolding sock_laws_def sock_write_law_def by blast
  with assms(2) show ?thesis by simp
qed

lemma sock_flushed: "sock_laws sys unread \<Longrightarrow> unread (snd (sock_flush sys e k)) = unread k"
  unfolding sock_laws_def sock_write_law_def by blast

lemma sock_read:
  assumes "sock_laws sys unread" "sock_read_exact sys e k = (x, n)"
  shows "case x of None \<Rightarrow> unread k e = [] \<and> unread n = unread k
      | Some (Inr b) \<Rightarrow> unread k e = b # unread n e \<and> unread n (peer e) = unread k (peer e)
      | Some (Inl _) \<Rightarrow> unread n (peer e) = unread k (peer e)"
proof -
  have "case fst (sock_read_exact sys e k) of
        None \<Rightarrow> unread k e = [] \<and> unread (snd (sock_read_exact sys e k)) = unread k
      | Some (Inr b) \<Rightarrow> unread k e = b # unread (snd (sock_read_exact sys e k)) e
          \<and> unread (snd (sock_read_exact sys e k)) (peer e) = unread k (peer e)
      | Some (Inl _) \<Rightarrow> unread (snd (sock_read_exact sys e k)) (peer e) = unread k (peer e)"
    using assms(1) unfolding sock_laws_def sock_read_law_def by blast
  with assms(2) show ?thesis by (simp split: option.splits sum.splits)
qed

lemma uds_notify_inv:
  assumes laws: "sock_laws sys unread" and inv: "uds_inv c unread s qs ps"
    and k: "k < length (calls s)" and ph: "call_phase (calls s ! k) = Written"
  shows "uds_inv c unread (uds_notify sys k s) qs ps"
proof -
  obtain x n where w: "sock_write_u8 sys Gateway_End 1 (socket s) = (x, n)" by fastforce
  note un = sock_written [OF laws w]
  have rpc: "rpc_inv c (set_phase k p (s\<lparr>socket := m\<rparr>)) qs ps"
    if "p = Waiting \<or> (\<exists>e. p = Finished (Err (NotifyFailed e))) \<or> (\<exists>e. p = Finished (Err (FlushFailed e)))" for p m
    by (rule set_phase_inv) (use uds_inv_rpc [OF inv] k ph that in auto)
  have cnt: "unnotified (set_phase k p (s\<lparr>socket := m\<rparr>)) + 1
      = unnotified s + (if unnotified_phase p then 1 else 0)" for p m
    using unnotified_set_phase [of k "s\<lparr>socket := m\<rparr>" p] k ph by simp
  show ?thesis
  proof (cases x)
    case (Inl e)
    with w un cnt [of "Finished (Err (NotifyFailed e))" n] rpc [of "Finished (Err (NotifyFailed e))" n] inv
    show ?thesis by (auto simp: uds_notify_def uds_inv_unfold)
  next
    case (Inr u)
    obtain y n' where f: "sock_flush sys Gateway_End n = (y, n')" by fastforce
    then have "unread n' = unread n" using sock_flushed [OF laws, of Gateway_End n] by simp
    with un Inr have un': "unread n' = (unread (socket s))(Backend_End := unread (socket s) Backend_End @ [1])"
      by simp
    define p where "p = (case y of Inl e \<Rightarrow> Finished (Err (FlushFailed e)) | Inr _ \<Rightarrow> Waiting)"
    have e: "uds_notify sys k s = set_phase k p (s\<lparr>socket := n'\<rparr>)"
      using w Inr f by (simp add: uds_notify_def p_def split: sum.split)
    have "rpc_inv c (set_phase k p (s\<lparr>socket := n'\<rparr>)) qs ps"
      by (rule rpc) (auto simp: p_def split: sum.split)
    moreover have "\<not> unnotified_phase p" by (simp add: p_def split: sum.split)
    with cnt [of p n'] have "unnotified (set_phase k p (s\<lparr>socket := n'\<rparr>)) + 1 = unnotified s" by simp
    ultimately show ?thesis using inv un' by (auto simp: e uds_inv_unfold)
  qed
qed

lemma uds_call_inv:
  assumes codec: "codec_laws c" and laws: "sock_laws sys unread"
    and inv: "uds_inv c unread s qs ps" and fits: "rings_fit s" and st: "uds_call c sys k s = Some t"
  shows "\<exists>qs'. uds_inv c unread t qs' ps"
proof -
  have k: "k < length (calls s)" using st by (simp add: uds_call_def split: if_splits)
  note rpc = uds_inv_rpc [OF inv]
  show ?thesis
  proof (cases "call_phase (calls s ! k)")
    case Inserted
    then have t: "t = rpc_send c k s" using st k by (simp add: uds_call_def)
    have pf: "prefix_fits (req_ring s)" using fits by (simp add: rings_fit_def)
    from codec rpc k Inserted pf show ?thesis
    proof (cases rule: rpc_send_inv)
      case (written r)
      have "unnotified t = unnotified s + 1"
        using unnotified_set_phase [of k "s\<lparr>req_ring := r\<rparr>" Written] k Inserted t written(1)
        by (simp add: unnotified_def)
      with written inv t show ?thesis by (auto simp: uds_inv_unfold tickets_def [symmetric] intro!: exI)
    next
      case (refused r e)
      have "unnotified t = unnotified s"
        using unnotified_set_phase [of k "s\<lparr>req_ring := r\<rparr>" "Finished (Err e)"] k Inserted t refused(1,3)
        by (auto simp: unnotified_def)
      with refused inv t show ?thesis by (auto simp: uds_inv_unfold intro!: exI [of _ qs])
    qed
  next
    case Written
    then have "t = uds_notify sys k s" using st k by (simp add: uds_call_def)
    with uds_notify_inv [OF laws inv k Written] show ?thesis by blast
  next
    case Waiting
    then have "rpc_receive k s = Some t" using st k by (simp add: uds_call_def)
    with rpc k Waiting obtain resp where t: "t = set_phase k (Finished (Ok resp)) s" "rpc_inv c t qs ps"
      by (rule rpc_receive_inv)
    have "unnotified t = unnotified s"
      using unnotified_set_phase [OF k, of "Finished (Ok resp)"] Waiting by (simp add: t(1))
    with t inv show ?thesis by (auto simp: uds_inv_unfold intro!: exI [of _ qs])
  next
    case (Finished r)
    with st k show ?thesis by (simp add: uds_call_def)
  qed
qed


lemma uds_listen_inv:
  assumes codec: "codec_laws c" and laws: "sock_laws sys unread"
    and inv: "uds_inv c unread s qs ps" and st: "uds_listen c sys s = Some t"
  shows "\<exists>ps'. uds_inv c unread t qs ps'"
proof (cases "listener s")
  case Awaiting
  obtain x n where r: "sock_read_exact sys Gateway_End (socket s) = (x, n)" by fastforce
  obtain y where y: "t = s\<lparr>socket := n, listener := y\<rparr>" "y \<noteq> Awaiting" "task_ids y = []"
    "unread n Backend_End = unread (socket s) Backend_End"
    using st Awaiting r sock_read [OF laws r] by (auto simp: uds_listen_def split: option.splits sum.splits)
  have "rpc_inv c t qs ps"
    using uds_inv_rpc [OF inv] rpc_inv_listener [of "s\<lparr>socket := n\<rparr>" y c qs ps] Awaiting y(1,3) by simp
  with inv y show ?thesis by (auto simp: uds_inv_unfold intro!: exI [of _ ps])
next
  case (Serving n)
  then have idle: "task_ids (listener s) = []" by simp
  from codec uds_inv_rpc [OF inv] idle show ?thesis
  proof (cases rule: rpc_fetch_response_inv)
    case (empty r b)
    then have "t = s\<lparr>resp_ring := r, response_buf := b, listener := Awaiting\<rparr>"
      using st Serving by (simp add: uds_listen_def)
    with empty inv rpc_inv_listener [of "s\<lparr>resp_ring := r, response_buf := b\<rparr>" Awaiting c qs ps] idle
    show ?thesis by (auto simp: uds_inv_unfold intro!: exI [of _ ps])
  next
    case (short r b x ps' m)
    then have t: "t = s\<lparr>resp_ring := r, response_buf := b, listener := Awaiting\<rparr>"
      using st Serving by (simp add: uds_listen_def)
    have "\<not> fits_buffers c 65536 131072 (tickets s)"
      using fits_response [of c s qs x ps'] uds_inv_rpc [OF inv] short(2,3,4) inv
      by (fastforce simp: uds_inv_def)
    with short inv t rpc_inv_listener [of "s\<lparr>resp_ring := r, response_buf := b\<rparr>" Awaiting c qs ps] idle
    show ?thesis by (auto simp: uds_inv_unfold intro!: exI [of _ ps])
  next
    case (got r b m i resp ps')
    then have "t = s\<lparr>resp_ring := r, response_buf := b, listener := Dispatching n i resp\<rparr>"
      using st Serving by (simp add: uds_listen_def)
    with got inv show ?thesis by (auto simp: uds_inv_unfold intro!: exI [of _ ps'])
  qed
next
  case (Dispatching n i resp)
  then have t: "t = (rpc_dispatch i resp s)\<lparr>listener := Serving n\<rparr>"
    using st by (simp add: uds_listen_def)
  note rpc = uds_inv_rpc [OF inv]
  have "rpc_inv c t qs ps" unfolding t by (rule rpc_dispatch_inv(1) [OF rpc Dispatching]) simp
  with inv t unnotified_dispatch [OF rpc, of i resp] show ?thesis
    by (auto simp: uds_inv_unfold intro!: exI [of _ ps])
next
  case (Exited e)
  with st show ?thesis by (simp add: uds_listen_def)
qed

lemma uds_serve_inv:
  assumes codec: "codec_laws c" and laws: "sock_laws sys unread"
    and inv: "uds_inv c unread s qs ps" and st: "uds_serve c sys s = Some t"
  shows "\<exists>qs'. uds_inv c unread t qs' ps"
proof (cases "server s")
  case Awaiting
  obtain x n where r: "sock_read_exact sys Backend_End (socket s) = (x, n)" by fastforce
  note un = sock_read [OF laws r]
  show ?thesis
  proof (cases x)
    case None
    with st Awaiting r show ?thesis by (simp add: uds_serve_def)
  next
    case (Some z)
    with st Awaiting r inv un show ?thesis
      by (cases z) (auto simp: uds_serve_def uds_inv_unfold intro!: exI [of _ qs])
  qed
next
  case (Serving n)
  then have n: "n = 1" using inv by (auto simp: uds_inv_def)
  from codec uds_inv_rpc [OF inv] show ?thesis
  proof (cases rule: rpc_fetch_request_inv)
    case (empty r b)
    then have t: "t = s\<lparr>req_ring := r, request_buf := b, server := Awaiting\<rparr>"
      using st Serving by (simp add: uds_serve_def)
    have "\<not> fits_buffers c 65536 131072 (tickets s)"
      using inv empty(2) Serving n by (auto simp: uds_inv_unfold)
    with empty inv t show ?thesis by (auto simp: uds_inv_unfold intro!: exI [of _ qs])
  next
    case (short r b x qs' m)
    then have t: "t = s\<lparr>req_ring := r, request_buf := b, server := Awaiting\<rparr>"
      using st Serving by (simp add: uds_serve_def)
    have "\<not> fits_buffers c 65536 131072 (tickets s)"
      using fits_request [of c s x qs' ps] uds_inv_rpc [OF inv] short(2,3,4) inv
      by (fastforce simp: uds_inv_def)
    with short inv t show ?thesis by (auto simp: uds_inv_unfold intro!: exI [of _ qs])
  next
    case (got r b m i req qs')
    then have "t = (rpc_spawn i req (s\<lparr>req_ring := r, request_buf := b\<rparr>))\<lparr>server := Awaiting\<rparr>"
      using st Serving by (simp add: uds_serve_def)
    with got inv Serving n show ?thesis by (auto simp: uds_inv_unfold intro!: exI [of _ qs'])
  qed
next
  case (Dispatching n i resp)
  with st show ?thesis by (simp add: uds_serve_def)
next
  case (Exited e)
  with st show ?thesis by (simp add: uds_serve_def)
qed

text \<open>A worker that notifies leaves a byte for the listener, or is recorded as unannounced.\<close>

lemma uds_work_inv:
  assumes codec: "codec_laws c" and laws: "sock_laws sys unread"
    and inv: "uds_inv c unread s qs ps" and fits: "rings_fit s"
    and st: "uds_work c sys delay j d s = Some t"
  shows "\<exists>ps'. uds_inv c unread t qs ps'"
proof -
  have j: "j < length (workers s)" using st by (simp add: uds_work_def split: if_splits)
  note rpc = uds_inv_rpc [OF inv]
  show ?thesis
  proof (cases "workers s ! j")
    case (Sleeping i req)
    then have t: "t = rpc_reply c d j i req s" using st j by (auto simp: uds_work_def split: if_splits)
    have pf: "prefix_fits (resp_ring s)" using fits by (simp add: rings_fit_def)
    from codec rpc j Sleeping pf show ?thesis
    proof (cases rule: rpc_reply_inv [where d = d])
      case (replied r)
      have "Notifying i \<in> set ((workers s)[j := Notifying i])" using j by (simp add: set_update_memI)
      with replied inv t have "uds_inv c unread t qs (ps @ [(i, echo_response d req)])"
        by (auto simp: uds_inv_unfold)
      then show ?thesis by blast
    next
      case (lost r e)
      then show ?thesis
        using inv t set_update_other [of _ "workers s" j "Lost i e"] Sleeping by (auto simp: uds_inv_unfold intro!: exI [of _ ps])
    qed
  next
    case (Notifying i)
    obtain x n where w: "sock_write_u8 sys Backend_End 1 (socket s) = (x, n)" by fastforce
    note un = sock_written [OF laws w]
    have rpc': "rpc_inv c (set_worker j v (s\<lparr>socket := m\<rparr>)) qs ps"
      if "v = Replied i \<or> (\<exists>e. v = Unannounced i e)" for v m
      by (rule set_worker_inv) (use rpc j Notifying that in auto)
    show ?thesis
    proof (cases x)
      case (Inl e)
      then have t: "t = set_worker j (Unannounced i e) (s\<lparr>socket := n\<rparr>)"
        using st j Notifying w by (simp add: uds_work_def)
      have "Unannounced i e \<in> set (workers t)" using j by (simp add: t set_worker_def set_update_memI)
      with inv rpc' [of "Unannounced i e" n] t un Inl show ?thesis
        by (auto simp: uds_inv_unfold intro!: exI [of _ ps])
    next
      case (Inr u)
      define n' where "n' = snd (sock_flush sys Backend_End n)"
      have t: "t = set_worker j (Replied i) (s\<lparr>socket := n'\<rparr>)"
        using st j Notifying w Inr by (simp add: uds_work_def n'_def)
      have "unread n' = (unread (socket s))(Gateway_End := unread (socket s) Gateway_End @ [1])"
        using un Inr sock_flushed [OF laws] by (simp add: n'_def)
      with inv rpc' [of "Replied i" n'] t show ?thesis
        by (auto simp: uds_inv_unfold intro!: exI [of _ ps])
    qed
  qed (use st j in \<open>simp_all add: uds_work_def\<close>)
qed


subsection \<open>All reachable states\<close>

lemma uds_step_tickets:
  assumes "uds_step c sys delay a s = Some t"
  shows "\<exists>xs. tickets t = tickets s @ xs"
    and "(\<forall>i req. a \<noteq> Start i req) \<Longrightarrow> tickets t = tickets s"
proof -
  have "tickets t = tickets s @ (case a of Start i req \<Rightarrow> [(i, req)] | _ \<Rightarrow> [])"
    using assms
    by (auto simp: uds_step_def uds_call_def uds_notify_def uds_listen_def uds_serve_def uds_work_def
        rpc_send_def rpc_receive_def rpc_fetch_response_def rpc_fetch_request_def rpc_reply_def Let_def
        split: rpc_action.splits if_splits call_phase.splits task.splits option.splits sum.splits
          prod.splits outcome.splits worker.splits)
  then show "\<exists>xs. tickets t = tickets s @ xs" "(\<forall>i req. a \<noteq> Start i req) \<Longrightarrow> tickets t = tickets s"
    by (auto split: rpc_action.splits)
qed


lemma uds_step_inv:
  assumes codec: "codec_laws c" and laws: "sock_laws sys unread" and inv: "uds_inv c unread s qs ps"
    and fits: "rings_fit s" and st: "uds_step c sys delay a s = Some t" and ids: "fresh_ids t"
  shows "\<exists>qs' ps'. uds_inv c unread t qs' ps'"
proof (cases a)
  case (Start i req)
  then have t: "t = rpc_insert i req s" using st by (simp add: uds_step_def split: if_splits)
  have "rpc_inv c t qs ps"
    unfolding t by (rule rpc_insert_inv [OF uds_inv_rpc [OF inv] fresh_ids_insert]) (use ids t in simp)
  moreover have "fits_buffers c 65536 131072 (tickets t) \<Longrightarrow> fits_buffers c 65536 131072 (tickets s)"
    by (simp add: t fits_buffers_mono)
  ultimately have "uds_inv c unread t qs ps" using inv by (simp add: uds_inv_unfold t)
  then show ?thesis by blast
next
  case (Call k)
  then have "uds_call c sys k s = Some t" using st by (simp add: uds_step_def split: if_splits)
  with uds_call_inv [OF codec laws inv fits] show ?thesis by blast
next
  case Listen
  then have "uds_listen c sys s = Some t" using st by (simp add: uds_step_def split: if_splits)
  with uds_listen_inv [OF codec laws inv] show ?thesis by blast
next
  case Serve
  then have "uds_serve c sys s = Some t" using st by (simp add: uds_step_def split: if_splits)
  with uds_serve_inv [OF codec laws inv] show ?thesis by blast
next
  case (Work j d)
  then have "uds_work c sys delay j d s = Some t" using st by (simp add: uds_step_def split: if_splits)
  with uds_work_inv [OF codec laws inv fits] show ?thesis by blast
qed

lemma uds_boot_inv:
  assumes "ring_rep rq []" "ring_rep rp []" "unread k Gateway_End = []" "unread k Backend_End = []"
  shows "uds_inv c unread (uds_boot rq rp k) [] []"
proof -
  have "rpc_inv c (uds_boot rq rp k) [] []"
    using assms(1,2) by (rule rpc_inv_boot) (simp_all add: uds_boot_def isize_max_def)
  with assms(3,4) show ?thesis by (simp add: uds_inv_unfold uds_boot_def unnotified_def)
qed

lemma uds_reach_inv:
  assumes codec: "codec_laws c" and laws: "sock_laws sys unread" and inv0: "\<exists>qs ps. uds_inv c unread s0 qs ps"
    and reach: "uds_reach c sys delay s0 s" and ids: "fresh_ids s"
  shows "\<exists>qs ps. uds_inv c unread s qs ps"
  using reach ids
proof induction
  case uds_refl
  show ?case by (rule inv0)
next
  case (uds_next s a t)
  obtain xs where "tickets t = tickets s @ xs" using uds_step_tickets(1) [OF uds_next.hyps(3)] by blast
  then have "fresh_ids s" using uds_next.prems by (rule fresh_ids_prefix [rotated])
  then obtain qs ps where "uds_inv c unread s qs ps" using uds_next.IH by blast
  from uds_step_inv [OF codec laws this uds_next.hyps(2,3) uds_next.prems] show ?case .
qed

end
