(* ===== verification/Rpc_Examples.thy ===== *)
theory Rpc_Examples
  imports Rpc_Invariant Ring_Lifecycle
begin

section \<open>Concrete rings and messages\<close>

text \<open>
  What the witnesses of both notified transports share: the ring of the default configuration,
  a ring too small for any message of the protocol, and one request with its encodings.
\<close>

definition ring_default :: ring where
  "ring_default = fresh_ring (buffer_size ShmConfig_default) (replicate 67108864 0)"

lemma ring_default_nat:
  "ring_rep ring_default []" "ring_cap ring_default = 67108864" "ring_wp ring_default = 0"
  by (simp_all add: ring_default_def fresh_ring_rep ShmConfig_default_def)

definition req_hi :: EchoRequest where
  "req_hi = \<lparr>req_message = [104, 105], req_timestamp_ns = 0, req_payload = []\<rparr>"

lemma ref_enc_hi:
  "enc_request ref_codec ([1], req_hi) = Inr (ref_put_request ([1], req_hi))"
  "length (ref_put_request ([1], req_hi)) = 35"
  "enc_response ref_codec ([1], echo_response d req_hi) = Inr (ref_put_response ([1], echo_response d req_hi))"
  "length (ref_put_response ([1], echo_response d req_hi)) = 43"
  by (simp_all add: ref_codec_def ref_put_request_def ref_put_response_def req_hi_def echo_response_def
      put_i64_def isize_max_def)

definition ring_tiny :: ring where
  "ring_tiny = fresh_ring 16 (replicate 16 0)"

lemma ring_tiny_rep: "ring_rep ring_tiny []" "prefix_fits ring_tiny"
  by (simp_all add: ring_tiny_def fresh_ring_rep prefix_fits_def)

lemma ring_tiny_full:
  assumes "16 \<le> length p" "length p \<le> isize_max"
  shows "ring_write ring_tiny p = (Err BufferFull, ring_tiny)"
  using ring_tiny_rep(1) ring_rep_used [OF ring_tiny_rep(1)] assms
  by (intro ring_write_full) (simp_all add: ring_rep_wf ring_tiny_def)

lemma ref_fits_hi: "fits_buffers ref_codec 65536 131072 [([1], req_hi)]"
  "fits_buffers ref_codec 65536 65536 [([1], req_hi)]"
  by (auto simp: fits_buffers_def ref_codec_def ref_put_request_def ref_put_response_def req_hi_def
      put_i64_def echoes_def split: if_splits)

end
