(* ===== verification/Uds_Properties.thy ===== *)
theory Uds_Properties
  imports Shm_Uds Rpc_Examples
begin

section \<open>Properties of the socket-notified transport\<close>

text \<open>
  What the invariant of \<open>Shm_Uds\<close> means for the callers: a round trip succeeds, a response
  never reaches the wrong caller, no wake-up is lost while messages fit the buffers; and what
  the code does not provide: a caller whose response was refused, or whose listener has ended,
  waits for ever, and a call that fails leaves its entry in the pending map.
\<close>

subsection \<open>A reference socket\<close>

definition ref_sock :: "(side \<Rightarrow> bytes) sock_sys" where
  "ref_sock =
     \<lparr>sock_write_u8 = (\<lambda>e b k. (Inr (), k(peer e := k (peer e) @ [b]))),
      sock_flush = (\<lambda>e k. (Inr (), k)),
      sock_read_exact = (\<lambda>e k. case k e of [] \<Rightarrow> (None, k) | b # bs \<Rightarrow> (Some (Inr b), k(e := bs)))\<rparr>"

definition sock_quiet :: "side \<Rightarrow> bytes" where
  "sock_quiet e = []"

lemma peer_neq [simp]: "peer e \<noteq> e" "e \<noteq> peer e"
  by (cases e, simp_all)+

lemma ref_sock_laws: "sock_laws ref_sock (\<lambda>k. k)"
  by (auto simp: sock_laws_def sock_write_law_def sock_read_law_def ref_sock_def split: list.splits)

text \<open>A connected socket on which no write fails, nor a read at the given ends.\<close>

definition sock_healthy :: "side set \<Rightarrow> 'k sock_sys \<Rightarrow> ('k \<Rightarrow> side \<Rightarrow> bytes) \<Rightarrow> bool" where
  "sock_healthy es sys unread \<longleftrightarrow>
     (\<forall>e b k. \<exists>k'. sock_write_u8 sys e b k = (Inr (), k'))
   \<and> (\<forall>e k. \<exists>k'. sock_flush sys e k = (Inr (), k'))
   \<and> (\<forall>e \<in> es. \<forall>k. unread k e \<noteq> [] \<longrightarrow> (\<exists>b k'. sock_read_exact sys e k = (Some (Inr b), k')))"

lemma ref_sock_healthy: "sock_healthy es ref_sock (\<lambda>k. k)"
  by (auto simp: sock_healthy_def ref_sock_def neq_Nil_conv)

text \<open>On a connected socket a read with nothing to read waits.\<close>

definition sock_connected :: "'n sock_sys \<Rightarrow> ('n \<Rightarrow> side \<Rightarrow> bytes) \<Rightarrow> bool" where
  "sock_connected sys unread \<longleftrightarrow> (\<forall>e k. unread k e = [] \<longrightarrow> (\<exists>k'. sock_read_exact sys e k = (None, k')))"

lemma ref_sock_connected: "sock_connected ref_sock (\<lambda>k. k)"
  by (simp add: sock_connected_def ref_sock_def)

subsection \<open>Round trip\<close>

definition uds_idle :: "('k \<Rightarrow> side \<Rightarrow> bytes) \<Rightarrow> 'k uds \<Rightarrow> bool" where
  "uds_idle unread s \<longleftrightarrow> (\<forall>e. unread (socket s) e = []) \<and> crashed s = None \<and> server s = Awaiting \<and> listener s = Awaiting
     \<and> ring_rep (req_ring s) [] \<and> ring_rep (resp_ring s) []
     \<and> length (request_buf s) = 65536 \<and> length (response_buf s) = 131072"

text \<open>The first half: the request reaches a worker.\<close>

definition uds_at_worker :: "nat \<Rightarrow> utf8 \<Rightarrow> EchoRequest \<Rightarrow> ring \<Rightarrow> bytes \<Rightarrow> 'k \<Rightarrow> 'k uds \<Rightarrow> 'k uds" where
  "uds_at_worker n i req q b k s =
     s\<lparr>pending := (pending s)(i \<mapsto> n),
       calls := calls s @ [\<lparr>call_id = i, call_req = req, call_phase = Waiting, mailbox = None\<rparr>],
       req_ring := q, request_buf := b, workers := workers s @ [Sleeping i req], socket := k\<rparr>"

lemma uds_reach_trans:
  assumes "uds_reach c sys delay s t" "uds_reach c sys delay r s"
  shows "uds_reach c sys delay r t"
  using assms by induction (auto intro: uds_next)

lemma uds_request_moves:
  assumes codec: "codec_laws c" and laws: "sock_laws sys unread" and up: "sock_healthy {Backend_End} sys unread"
    and idle: "uds_idle unread s"
    and req: "enc_request c (i, req) = Inr m" "length m \<le> 65536"
    and room: "ring_wp (req_ring s) + length m + 8 \<le> ring_cap (req_ring s)"
    and fit: "prefix_fits (resp_ring s)"
  obtains q b k where "uds_reach c sys delay (rpc_insert i req s) (uds_at_worker (length (calls s)) i req q b k s)"
    and "prefix_fits q" "ring_rep q []" "length b = 65536" "\<And>e. unread k e = []"
proof -
  let ?n = "length (calls s)"
  note idleD = idle [unfolded uds_idle_def]
  have big: "length (request_buf s) \<le> isize_max" using idleD by (simp add: isize_max_def)
  define b where "b = m @ drop (length m) (request_buf s)"
  obtain q1 q2 where q: "ring_write (req_ring s) m = (Ok (len_usize m), q1)" "prefix_fits q1"
    "ring_read q1 (request_buf s) = (Ok (len_usize m), b, q2)" "prefix_fits q2" "ring_rep q2 []"
    unfolding b_def
    by (rule ring_one_message [of "req_ring s" m "request_buf s"]) (use idleD room req big in auto)
  have fitq: "prefix_fits (req_ring s)" using room by (simp add: prefix_fits_def)
  have dec: "dec_request c m = Inr (i, req)" "length m \<le> isize_max"
    using codec_request [OF codec req(1)] by auto
  have take: "take (length m) b = m" by (simp add: b_def)
  define call where "call = (\<lambda>ph. \<lparr>call_id = i, call_req = req, call_phase = ph, mailbox = None\<rparr>)"
  obtain k1 where k1: "sock_write_u8 sys Gateway_End 1 (socket s) = (Inr (), k1)"
    using up unfolding sock_healthy_def by blast
  obtain k2 where k2: "sock_flush sys Gateway_End k1 = (Inr (), k2)"
    using up unfolding sock_healthy_def by blast
  have u2: "unread k2 Backend_End = [1]" "unread k2 Gateway_End = []"
    using sock_written [OF laws k1] sock_flushed [OF laws, of Gateway_End k1] k2 idleD by simp_all
  then have "unread k2 Backend_End \<noteq> []" by simp
  then obtain y k3 where k3: "sock_read_exact sys Backend_End k2 = (Some (Inr y), k3)"
    using up unfolding sock_healthy_def by blast
  have u3: "unread k3 e = []" for e
    using sock_read [OF laws k3] u2 by (cases e) simp_all
  define s1 where "s1 = rpc_insert i req s"
  define s2 where "s2 = s1\<lparr>req_ring := q1, calls := calls s @ [call Written]\<rparr>"
  define s3 where "s3 = s2\<lparr>socket := k2, calls := calls s @ [call Waiting]\<rparr>"
  define s4 where "s4 = s3\<lparr>socket := k3, server := Serving 1\<rparr>"
  define s5 where "s5 = s4\<lparr>req_ring := q2, request_buf := b,
    server := Awaiting, workers := workers s @ [Sleeping i req]\<rparr>"
  note defs = s1_def s2_def s3_def s4_def s5_def rpc_insert_def
  note ev = uds_step_def uds_call_def uds_notify_def uds_serve_def
  have st2: "uds_step c sys delay (Call ?n) s1 = Some s2"
    using idleD q(1) req(1) by (simp add: ev defs rpc_send_def set_phase_def call_def)
  have st3: "uds_step c sys delay (Call ?n) s2 = Some s3"
    using idleD k1 k2 by (simp add: ev defs set_phase_def call_def)
  have st4: "uds_step c sys delay Serve s3 = Some s4"
    using idleD k3 by (simp add: ev defs)
  have st5: "uds_step c sys delay Serve s4 = Some s5"
    using idleD q(3) dec take by (simp add: ev defs rpc_fetch_request_def rpc_spawn_def)
  have f: "rings_fit s1" "rings_fit s2" "rings_fit s3" "rings_fit s4"
    using q fit fitq by (simp_all add: rings_fit_def defs)
  have "uds_reach c sys delay (rpc_insert i req s) s5"
    unfolding s1_def [symmetric]
    by (rule uds_next [OF _ f(4) st5], rule uds_next [OF _ f(3) st4], rule uds_next [OF _ f(2) st3],
        rule uds_next [OF _ f(1) st2], rule uds_refl)
  moreover have "s5 = uds_at_worker ?n i req q2 b k3 s"
    using idleD by (simp add: uds_at_worker_def defs call_def)
  moreover have "length b = 65536" using idleD req(2) by (simp add: b_def)
  ultimately show ?thesis using that q(4,5) u3 by simp
qed

lemma uds_start_reach:
  assumes "uds_idle unread s" "ring_wp (req_ring s) + length m + 8 \<le> ring_cap (req_ring s)" "prefix_fits (resp_ring s)"
  shows "uds_reach c sys delay s (rpc_insert i req s)"
  by (rule uds_next [OF uds_refl, where a = "Start i req"])
    (use assms in \<open>simp_all add: uds_idle_def uds_step_def rings_fit_def prefix_fits_def\<close>)

lemma uds_request_run:
  assumes codec: "codec_laws c" and laws: "sock_laws sys unread" and up: "sock_healthy {Backend_End} sys unread"
    and idle: "uds_idle unread s"
    and req: "enc_request c (i, req) = Inr m" "length m \<le> 65536"
    and room: "ring_wp (req_ring s) + length m + 8 \<le> ring_cap (req_ring s)"
    and fit: "prefix_fits (resp_ring s)"
  obtains q b k where "uds_reach c sys delay s (uds_at_worker (length (calls s)) i req q b k s)"
    and "prefix_fits q" "ring_rep q []" "length b = 65536" "\<And>e. unread k e = []"
proof -
  obtain q b k where "uds_reach c sys delay (rpc_insert i req s) (uds_at_worker (length (calls s)) i req q b k s)"
    "prefix_fits q" "ring_rep q []" "length b = 65536" "\<And>e. unread k e = []"
    by (rule uds_request_moves [OF assms, where delay = delay]) blast
  with that uds_reach_trans [OF this(1) uds_start_reach [OF idle room fit]] show ?thesis by blast
qed

text \<open>The second half: the response reaches the caller and the listener drains its ring.\<close>

lemma uds_response_moves:
  assumes codec: "codec_laws c" and laws: "sock_laws sys unread" and up: "sock_healthy UNIV sys unread"
    and idle: "uds_idle unread s" and delay: "delay \<le> d"
    and resp: "enc_response c (i, echo_response d req) = Inr p" "length p \<le> 131072"
    and room: "ring_wp (resp_ring s) + length p + 8 \<le> ring_cap (resp_ring s)"
    and at: "prefix_fits q" "ring_rep q []" "length b = 65536" "\<And>e. unread k3 e = []"
  shows "\<exists>t. uds_reach c sys delay (uds_at_worker (length (calls s)) i req q b k3 s) t \<and> uds_idle unread t \<and> rings_fit t
    \<and> workers t = workers s @ [Replied i]
    \<and> calls t = calls s @ [\<lparr>call_id = i, call_req = req,
        call_phase = Finished (Ok (echo_response d req)), mailbox = Some (echo_response d req)\<rparr>]"
proof -
  let ?n = "length (calls s)" and ?w = "length (workers s)" and ?resp = "echo_response d req"
  note idleD = idle [unfolded uds_idle_def]
  have big: "length (response_buf s) \<le> isize_max" using idleD by (simp add: isize_max_def)
  have fitp: "prefix_fits (resp_ring s)" using room by (simp add: prefix_fits_def)
  define bp where "bp = p @ drop (length p) (response_buf s)"
  obtain p1 p2 where p: "ring_write (resp_ring s) p = (Ok (len_usize p), p1)" "prefix_fits p1"
    "ring_read p1 (response_buf s) = (Ok (len_usize p), bp, p2)" "prefix_fits p2"
    "ring_rep p2 []" "\<And>b. ring_read p2 b = (Err BufferEmpty, b, p2)"
    unfolding bp_def
    by (rule ring_one_message [of "resp_ring s" p "response_buf s"]) (use idleD room resp big in auto)
  have dec: "dec_response c p = Inr (i, ?resp)" "length p \<le> isize_max"
    using codec_response [OF codec resp(1)] by auto
  have take: "take (length p) bp = p" by (simp add: bp_def)
  obtain k4 where k4: "sock_write_u8 sys Backend_End 1 k3 = (Inr (), k4)"
    using up unfolding sock_healthy_def by blast
  obtain k5 where k5: "sock_flush sys Backend_End k4 = (Inr (), k5)"
    using up unfolding sock_healthy_def by blast
  have u5: "unread k5 Gateway_End = [1]" "unread k5 Backend_End = []"
    using sock_written [OF laws k4] sock_flushed [OF laws, of Backend_End k4] k5 at(4) by simp_all
  then have "unread k5 Gateway_End \<noteq> []" by simp
  then obtain y k6 where k6: "sock_read_exact sys Gateway_End k5 = (Some (Inr y), k6)"
    using up unfolding sock_healthy_def by blast
  have u6: "unread k6 e = []" for e
    using sock_read [OF laws k6] u5 by (cases e) simp_all
  define call where "call = (\<lambda>ph mb. \<lparr>call_id = i, call_req = req, call_phase = ph, mailbox = mb\<rparr>)"
  define s5 where "s5 = uds_at_worker ?n i req q b k3 s"
  define s6 where "s6 = s5\<lparr>resp_ring := p1, workers := workers s @ [Notifying i]\<rparr>"
  define s7 where "s7 = s6\<lparr>socket := k5, workers := workers s @ [Replied i]\<rparr>"
  define s8 where "s8 = s7\<lparr>socket := k6, listener := Serving 1\<rparr>"
  define s9 where "s9 = s8\<lparr>resp_ring := p2, response_buf := bp, listener := Dispatching 1 i ?resp\<rparr>"
  define s10 where "s10 = s9\<lparr>pending := (pending s)(i := None),
    calls := calls s @ [call Waiting (Some ?resp)], listener := Serving 1\<rparr>"
  define s11 where "s11 = s10\<lparr>calls := calls s @ [call (Finished (Ok ?resp)) (Some ?resp)]\<rparr>"
  define s12 where "s12 = s11\<lparr>listener := Awaiting\<rparr>"
  note defs = s5_def s6_def s7_def s8_def s9_def s10_def s11_def s12_def uds_at_worker_def
  note ev = uds_step_def uds_call_def uds_listen_def uds_work_def
  have st6: "uds_step c sys delay (Work ?w d) s5 = Some s6"
    using idleD p(1) resp(1) delay by (simp add: ev defs rpc_reply_def set_worker_def)
  have st7: "uds_step c sys delay (Work ?w d) s6 = Some s7"
    using idleD k4 k5 by (simp add: ev defs set_worker_def)
  have st8: "uds_step c sys delay Listen s7 = Some s8"
    using idleD k6 by (simp add: ev defs)
  have st9: "uds_step c sys delay Listen s8 = Some s9"
    using idleD p(3) dec take by (simp add: ev defs rpc_fetch_response_def)
  have at9: "listener s9 = Dispatching 1 i ?resp" "crashed s9 = None"
    "pending s9 = (pending s)(i \<mapsto> ?n)" "calls s9 = calls s @ [call Waiting None]"
    using idleD by (simp_all add: defs call_def)
  have "rpc_dispatch i ?resp s9 = s9\<lparr>pending := (pending s)(i := None),
      calls := calls s @ [call Waiting (Some ?resp)]\<rparr>"
    by (simp add: rpc_dispatch_def at9 deliver_def call_def)
  then have st10: "uds_step c sys delay Listen s9 = Some s10"
    by (simp add: uds_step_def uds_listen_def at9(1,2) s10_def)
  have st11: "uds_step c sys delay (Call ?n) s10 = Some s11"
    using idleD by (simp add: ev defs rpc_receive_def set_phase_def call_def)
  have at11: "listener s11 = Serving 1" "crashed s11 = None" "resp_ring s11 = p2"
    using idleD by (simp_all add: defs)
  have "ring_read (resp_ring s11) (response_buf s11) = (Err BufferEmpty, response_buf s11, resp_ring s11)"
    by (simp add: at11(3) p(6))
  then have "rpc_fetch_response s11 = (Err BufferEmpty, s11)"
    by (simp add: rpc_fetch_response_def)
  then have st12: "uds_step c sys delay Listen s11 = Some s12"
    by (simp add: uds_step_def uds_listen_def at11 s12_def)
  have f: "rings_fit s5" "rings_fit s6" "rings_fit s7" "rings_fit s8" "rings_fit s9" "rings_fit s10" "rings_fit s11"
    using at p fitp by (simp_all add: rings_fit_def defs)
  have "uds_reach c sys delay s5 s12"
    by (rule uds_next [OF _ f(7) st12], rule uds_next [OF _ f(6) st11], rule uds_next [OF _ f(5) st10],
        rule uds_next [OF _ f(4) st9], rule uds_next [OF _ f(3) st8], rule uds_next [OF _ f(2) st7],
        rule uds_next [OF _ f(1) st6], rule uds_refl)
  moreover have "uds_idle unread s12"
    using idleD at p(5) u6 resp(2) by (simp add: uds_idle_def defs bp_def)
  moreover have "rings_fit s12" using at p by (simp add: rings_fit_def defs)
  ultimately show ?thesis by (intro exI [of _ s12]) (simp add: call_def defs)
qed

lemma uds_round_trip_moves:
  assumes codec: "codec_laws c" and laws: "sock_laws sys unread" and up: "sock_healthy UNIV sys unread"
    and idle: "uds_idle unread s" and delay: "delay \<le> d"
    and req: "enc_request c (i, req) = Inr m" "length m \<le> 65536"
    and resp: "enc_response c (i, echo_response d req) = Inr p" "length p \<le> 131072"
    and room: "ring_wp (req_ring s) + length m + 8 \<le> ring_cap (req_ring s)"
      "ring_wp (resp_ring s) + length p + 8 \<le> ring_cap (resp_ring s)"
  shows "\<exists>t. uds_reach c sys delay (rpc_insert i req s) t \<and> uds_idle unread t \<and> rings_fit t \<and> workers t = workers s @ [Replied i]
    \<and> calls t = calls s @ [\<lparr>call_id = i, call_req = req,
        call_phase = Finished (Ok (echo_response d req)), mailbox = Some (echo_response d req)\<rparr>]"
proof -
  have fitp: "prefix_fits (resp_ring s)" using room by (simp add: prefix_fits_def)
  obtain q b k where half: "uds_reach c sys delay (rpc_insert i req s) (uds_at_worker (length (calls s)) i req q b k s)"
    and at: "prefix_fits q" "ring_rep q []" "length b = 65536" "\<And>e. unread k e = []"
    by (rule uds_request_moves [OF codec laws _ idle req room(1) fitp])
      (use up in \<open>auto simp: sock_healthy_def\<close>)
  from uds_response_moves [OF codec laws up idle delay resp room(2) at] uds_reach_trans [OF _ half]
  show ?thesis by meson
qed

lemma uds_round_trip_run:
  assumes "codec_laws c" "sock_laws sys unread" "sock_healthy UNIV sys unread" "uds_idle unread s" "delay \<le> d"
    and "enc_request c (i, req) = Inr m" "length m \<le> 65536"
    and "enc_response c (i, echo_response d req) = Inr p" "length p \<le> 131072"
    and room: "ring_wp (req_ring s) + length m + 8 \<le> ring_cap (req_ring s)"
      "ring_wp (resp_ring s) + length p + 8 \<le> ring_cap (resp_ring s)"
  shows "\<exists>t. uds_reach c sys delay s t \<and> uds_idle unread t \<and> workers t = workers s @ [Replied i]
    \<and> calls t = calls s @ [\<lparr>call_id = i, call_req = req,
        call_phase = Finished (Ok (echo_response d req)), mailbox = Some (echo_response d req)\<rparr>]"
proof -
  have "prefix_fits (resp_ring s)" using room by (simp add: prefix_fits_def)
  from uds_start_reach [OF assms(4) room(1) this]
  have "uds_reach c sys delay s (rpc_insert i req s)" by blast
  with uds_round_trip_moves [OF assms] uds_reach_trans show ?thesis by blast
qed

subsection \<open>What a step cannot change\<close>

lemma uds_step_waiting:
  assumes "uds_step c sys delay a s = Some t" "k < length (calls s)"
    and "call_phase (calls s ! k) = Waiting" "rpc_receive k s = None"
  shows "k < length (calls t) \<and> call_phase (calls t ! k) = Waiting"
  using assms
  by (auto simp: phase_delivered uds_step_def uds_call_def uds_notify_def uds_listen_def uds_serve_def uds_work_def
      rpc_insert_def rpc_send_def rpc_receive_def rpc_fetch_response_def rpc_fetch_request_def
      rpc_reply_def rpc_dispatch_def Let_def set_phase_def nth_list_update nth_append
      split: rpc_action.splits if_splits call_phase.splits task.splits option.splits sum.splits
        prod.splits outcome.splits worker.splits)

lemma uds_step_lost:
  assumes "uds_step c sys delay a s = Some t" "Lost i e \<in> set (workers s)"
  shows "Lost i e \<in> set (workers t)"
proof -
  have upd: "workers s ! j \<noteq> Lost i e \<Longrightarrow> Lost i e \<in> set ((workers s)[j := w])" for j w
    using set_update_other [OF assms(2), of j w] by auto
  show ?thesis
  using assms
  by (auto simp: upd uds_step_def uds_call_def uds_notify_def uds_listen_def uds_serve_def uds_work_def
      rpc_insert_def rpc_send_def rpc_receive_def rpc_fetch_response_def rpc_fetch_request_def
      rpc_reply_def rpc_dispatch_def Let_def set_phase_def
      split: rpc_action.splits if_splits call_phase.splits task.splits option.splits sum.splits
        prod.splits outcome.splits worker.splits)
qed

lemma uds_step_deaf:
  assumes "uds_step c sys delay a s = Some t" "exited (listener s)" "fresh_ids t"
    and "k < length (calls s)" "call_phase (calls s ! k) = Waiting"
    and "mailbox (calls s ! k) = None" "pending s (call_id (calls s ! k)) = Some k"
  shows "exited (listener t) \<and> mailbox (calls t ! k) = None \<and> pending t (call_id (calls t ! k)) = Some k"
proof -
  have new: "call_id (calls s ! k) \<noteq> i" if "a = Start i req" for i req
  proof -
    have "t = rpc_insert i req s" using assms(1) that by (simp add: uds_step_def split: if_splits)
    with assms(3) have "i \<notin> call_id ` set (calls s)" by (simp add: fresh_ids_insert)
    with assms(4) show ?thesis by auto
  qed
  show ?thesis
    using assms new
    by (auto simp: uds_step_def uds_call_def uds_notify_def uds_listen_def uds_serve_def uds_work_def
        rpc_insert_def rpc_send_def rpc_receive_def rpc_fetch_response_def rpc_fetch_request_def
        rpc_reply_def rpc_dispatch_def Let_def set_phase_def set_worker_def rpc_spawn_def
        nth_list_update nth_append
        split: rpc_action.splits if_splits call_phase.splits task.splits option.splits sum.splits
          prod.splits outcome.splits worker.splits)
qed


text \<open>What the invariant says of one call.\<close>

lemma uds_lost_expected:
  assumes inv: "uds_inv c unread s qs ps" and lost: "Lost i e \<in> set (workers s)"
    and k: "k < length (calls s)" "call_id (calls s ! k) = i" and ids: "fresh_ids s"
  shows "pending s i = Some k \<and> mailbox (calls s ! k) = None"
proof -
  note rpc = uds_inv_rpc [OF inv]
  have "i \<in> set (inflight s qs ps)"
    using lost by (force simp: inflight_def intro: bexI [of _ "Lost i e"])
  then have "expected s i" using rpc_invD(7) [OF rpc] by (simp add: flow_inv_def)
  then obtain l where l: "pending s i = Some l" by (auto simp: expected_def)
  then have "l < length (calls s)" "call_id (calls s ! l) = i" using pendingD [OF rpc] by blast+
  then have "l = k"
    using ids k by (auto simp: fresh_ids_def tickets_def comp_def distinct_conv_nth)
  then show ?thesis using l k call_invD [OF rpc k(1)] by (simp add: call_inv_def Let_def)
qed

lemma uds_reach_fresh:
  assumes "uds_reach c sys delay s t" "fresh_ids t"
  shows "fresh_ids s"
  using assms
proof induction
  case (uds_next u a t)
  then show ?case using uds_step_tickets(1) [OF uds_next.hyps(3)] fresh_ids_prefix by blast
qed

lemma uds_reach_id:
  assumes "uds_reach c sys delay s t" "k < length (calls s)"
  shows "k < length (calls t) \<and> call_id (calls t ! k) = call_id (calls s ! k)"
proof -
  have "\<exists>xs. tickets t = tickets s @ xs"
    using assms(1)
  proof induction
    case (uds_next u a t)
    then show ?case using uds_step_tickets(1) [OF uds_next.hyps(3)] by (metis append_assoc)
  qed simp
  then obtain xs where "tickets t = tickets s @ xs" by blast
  then have "map fst (tickets t) = map fst (tickets s) @ map fst xs" by simp
  then have xs: "map call_id (calls t) = map call_id (calls s) @ map fst xs"
    by (simp only: tickets_ids)
  then have "length (map call_id (calls t)) = length (map call_id (calls s) @ map fst xs)" by (rule arg_cong)
  then have "length (calls t) = length (calls s) + length xs" by simp
  moreover have "map call_id (calls t) ! k = call_id (calls s ! k)"
    using assms(2) by (simp add: xs nth_append)
  ultimately show ?thesis using assms(2) by simp
qed


subsection \<open>A start state for the witnesses\<close>

definition uds_demo :: "(side \<Rightarrow> bytes) uds" where
  "uds_demo = uds_boot ring_default ring_default sock_quiet"

lemma uds_demo_idle: "uds_idle (\<lambda>k. k) uds_demo"
  by (simp add: sock_quiet_def uds_idle_def uds_demo_def uds_boot_def ring_default_nat)

lemma uds_demo_inv: "uds_inv c (\<lambda>k. k) uds_demo [] []"
  unfolding uds_demo_def by (rule uds_boot_inv) (simp_all add: ring_default_nat sock_quiet_def)

lemma uds_demo_done:
  obtains t where "uds_reach ref_codec ref_sock 1000 uds_demo t" "fresh_ids t"
    and "uds_idle (\<lambda>k. k) t" "workers t = [Replied [1]]"
    and "calls t = [\<lparr>call_id = [1], call_req = req_hi,
        call_phase = Finished (Ok (echo_response 1000 req_hi)), mailbox = Some (echo_response 1000 req_hi)\<rparr>]"
proof -
  have "\<exists>t. uds_reach ref_codec ref_sock 1000 uds_demo t
    \<and> uds_idle (\<lambda>k. k) t \<and> workers t = workers uds_demo @ [Replied [1]]
    \<and> calls t = calls uds_demo @ [\<lparr>call_id = [1], call_req = req_hi,
        call_phase = Finished (Ok (echo_response 1000 req_hi)), mailbox = Some (echo_response 1000 req_hi)\<rparr>]"
    by (rule uds_round_trip_run [OF ref_codec_laws ref_sock_laws ref_sock_healthy uds_demo_idle _
          ref_enc_hi(1) _ ref_enc_hi(3)])
      (simp_all add: ref_enc_hi uds_demo_def uds_boot_def ring_default_nat)
  then show ?thesis
    using that by (auto simp: uds_demo_def uds_boot_def fresh_ids_def tickets_def)
qed

subsection \<open>Consequences of the invariant\<close>

lemma uds_run_inv:
  assumes "codec_laws c" "sock_laws sys unread" "ring_rep rq []" "ring_rep rp []"
    and "unread k0 Gateway_End = []" "unread k0 Backend_End = []"
    and "uds_reach c sys delay (uds_boot rq rp k0) s" "fresh_ids s"
  shows "\<exists>qs ps. uds_inv c unread s qs ps"
  using uds_reach_inv [OF assms(1,2) _ assms(7,8)]
    uds_boot_inv [where unread = unread and k = k0, OF assms(3,4,5,6)] by blast

lemma uds_quiet_server:
  assumes laws: "sock_laws sys unread" and inv: "uds_inv c unread s qs ps"
    and fits: "fits_buffers c 65536 131072 (tickets s)" and quiet: "uds_serve c sys s = None"
    and up: "\<not> exited (server s)" and none: "unnotified s = 0" and codec: "codec_laws c"
  shows "qs = []"
proof -
  have "server s = Awaiting \<or> server s = Serving 1" using inv up by (auto simp: uds_inv_def)
  then have "server s = Awaiting"
    using quiet by (auto simp: uds_serve_def split: prod.splits outcome.splits sum.splits)
  moreover from this obtain n where "sock_read_exact sys Backend_End (socket s) = (None, n)"
    using quiet by (auto simp: uds_serve_def split: prod.splits option.splits sum.splits)
  with sock_read [OF laws this] have "unread (socket s) Backend_End = []" by simp
  ultimately show ?thesis using inv fits none by (simp add: uds_inv_unfold)
qed

lemma uds_quiet_listener:
  assumes laws: "sock_laws sys unread" and inv: "uds_inv c unread s qs ps"
    and fits: "fits_buffers c 65536 131072 (tickets s)" and quiet: "uds_listen c sys s = None"
    and up: "\<not> exited (listener s)"
    and none: "\<And>i. Notifying i \<notin> set (workers s)" "\<And>i e. Unannounced i e \<notin> set (workers s)"
  shows "ps = []" "task_ids (listener s) = []"
proof -
  have l: "listener s = Awaiting"
    using quiet up by (cases "listener s")
      (auto simp: uds_listen_def split: prod.splits outcome.splits sum.splits)
  then obtain n where "sock_read_exact sys Gateway_End (socket s) = (None, n)"
    using quiet by (auto simp: uds_listen_def split: prod.splits option.splits sum.splits)
  with sock_read [OF laws this] have "unread (socket s) Gateway_End = []" by simp
  with l inv fits none show "ps = []" by (simp add: uds_inv_unfold)
  show "task_ids (listener s) = []" by (simp add: l)
qed

text \<open>The tasks that run beside the calls, the listener, the server and the workers, cannot move.\<close>

definition uds_rests :: "codec \<Rightarrow> 'k sock_sys \<Rightarrow> duration \<Rightarrow> 'k uds \<Rightarrow> bool" where
  "uds_rests c sys delay s \<longleftrightarrow> uds_listen c sys s = None
     \<and> uds_serve c sys s = None \<and> (\<forall>j d. uds_work c sys delay j d s = None)"

lemma uds_quiet_workers:
  assumes "uds_rests c sys delay s"
  shows "Sleeping i req \<notin> set (workers s)" "Notifying i \<notin> set (workers s)"
proof -
  have q: "uds_work c sys delay j delay s = None" for j using assms by (simp add: uds_rests_def)
  show "Sleeping i req \<notin> set (workers s)"
  proof
    assume "Sleeping i req \<in> set (workers s)"
    then obtain j where "j < length (workers s)" "workers s ! j = Sleeping i req"
      by (metis in_set_conv_nth)
    with q [of j] show False by (simp add: uds_work_def)
  qed
  show "Notifying i \<notin> set (workers s)"
  proof
    assume "Notifying i \<in> set (workers s)"
    then obtain j where "j < length (workers s)" "workers s ! j = Notifying i"
      by (metis in_set_conv_nth)
    with q [of j] show False by (auto simp: uds_work_def split: prod.splits sum.splits)
  qed
qed

lemma uds_quiet_calls:
  assumes "uds_call c sys k s = None" "k < length (calls s)"
  shows "finished_phase (call_phase (calls s ! k))
    \<or> call_phase (calls s ! k) = Waiting \<and> mailbox (calls s ! k) = None
      \<and> pending s (call_id (calls s ! k)) = Some k"
  using assms
  by (cases "call_phase (calls s ! k)")
    (auto simp: uds_call_def rpc_receive_def Let_def split: option.splits if_splits)

subsection \<open>Properties\<close>

text \<open>C12. A call on an idle, healthy connection can complete: there is a schedule in which it
  returns the response of its own request, with the processing time of its worker; afterwards the
  connection is idle again. This for a request of at most 65536 and a response of at most 131072
  bytes, each of which lies in its ring, with its prefix and the next one, without reaching the end
  of the area.\<close>

theorem uds_round_trip:
  assumes "codec_laws c" "sock_laws sys unread" "sock_healthy UNIV sys unread" "uds_idle unread s" "delay \<le> d"
    and "enc_request c (i, req) = Inr m" "length m \<le> 65536"
    and "enc_response c (i, echo_response d req) = Inr p" "length p \<le> 131072"
    and "ring_wp (req_ring s) + length m + 8 \<le> ring_cap (req_ring s)"
    and "ring_wp (resp_ring s) + length p + 8 \<le> ring_cap (resp_ring s)"
  shows "\<exists>t. uds_reach c sys delay s t \<and> uds_idle unread t \<and> length (calls t) = length (calls s) + 1
    \<and> call_phase (last (calls t)) = Finished (Ok (echo_response d req))"
  using uds_round_trip_run [OF assms] by fastforce

theorem uds_round_trip_witness:
  "\<exists>t. uds_reach ref_codec ref_sock 1000 uds_demo t
    \<and> call_phase (last (calls t)) = Finished (Ok (echo_response 2000 req_hi))"
proof -
  have "\<exists>t. uds_reach ref_codec ref_sock 1000 uds_demo t \<and> uds_idle (\<lambda>k. k) t \<and> length (calls t) = length (calls uds_demo) + 1
    \<and> call_phase (last (calls t)) = Finished (Ok (echo_response 2000 req_hi))"
    by (rule uds_round_trip [OF ref_codec_laws ref_sock_laws ref_sock_healthy uds_demo_idle _
          ref_enc_hi(1) _ ref_enc_hi(3)])
      (simp_all add: ref_enc_hi uds_demo_def uds_boot_def ring_default_nat)
  then show ?thesis by blast
qed

text \<open>C6. No cross-talk: in every reachable state a call that has returned a response has
  returned an echo of its own request, whatever the interleaving of calls and workers; and no
  call ever returns \<open>Response channel closed\<close>. The state is one reached without meeting a
  straddling prefix, the identifiers are distinct.\<close>

theorem uds_no_cross_talk:
  assumes "codec_laws c" "sock_laws sys unread" "ring_rep rq []" "ring_rep rp []"
    and "unread k0 Gateway_End = []" "unread k0 Backend_End = []"
    and "uds_reach c sys delay (uds_boot rq rp k0) s" "fresh_ids s" "k < length (calls s)"
  shows "(\<forall>resp. call_phase (calls s ! k) = Finished (Ok resp) \<longrightarrow> echoes (call_req (calls s ! k)) resp)
    \<and> call_phase (calls s ! k) \<noteq> Finished (Err ChannelClosed) \<and> crashed s = None"
proof -
  obtain qs ps where "uds_inv c unread s qs ps" using uds_run_inv [OF assms(1-8)] by blast
  then have rpc: "rpc_inv c s qs ps" by (rule uds_inv_rpc)
  from call_invD [OF this assms(9)] rpc_invD(1) [OF rpc] show ?thesis
    by (simp add: call_inv_def Let_def)
qed

theorem uds_no_cross_talk_witness:
  "\<exists>t. call_phase (calls t ! 0) = Finished (Ok (echo_response 1000 req_hi))
     \<and> uds_reach ref_codec ref_sock 1000 uds_demo t \<and> echoes req_hi (echo_response 1000 req_hi)"
proof -
  obtain t where t: "uds_reach ref_codec ref_sock 1000 uds_demo t" "fresh_ids t"
    "calls t = [\<lparr>call_id = [1], call_req = req_hi,
      call_phase = Finished (Ok (echo_response 1000 req_hi)), mailbox = Some (echo_response 1000 req_hi)\<rparr>]"
    by (rule uds_demo_done)
  have "\<forall>resp. call_phase (calls t ! 0) = Finished (Ok resp) \<longrightarrow> echoes (call_req (calls t ! 0)) resp"
    using uds_no_cross_talk [OF ref_codec_laws ref_sock_laws _ _ _ _ t(1) [unfolded uds_demo_def] t(2), of 0] t(3)
    by (simp add: ring_default_nat sock_quiet_def)
  with t show ?thesis by (intro exI [of _ t]) simp
qed


text \<open>C10. Conservation: in every reachable state the identifiers under way (in the request
  ring, with a worker, in the response ring, with the listener) are distinct, and they are
  exactly those of the calls whose request was written and whose sender is still pending; so
  each such call is in exactly one place. A call whose sender is gone has its response or has
  ended.\<close>

theorem uds_conservation:
  assumes "codec_laws c" "sock_laws sys unread" "ring_rep rq []" "ring_rep rp []"
    and "unread k0 Gateway_End = []" "unread k0 Backend_End = []"
    and "uds_reach c sys delay (uds_boot rq rp k0) s" "fresh_ids s"
  shows "\<exists>qs ps. carries (enc_request c) (req_ring s) qs \<and> carries (enc_response c) (resp_ring s) ps
    \<and> distinct (inflight s qs ps) \<and> (\<forall>i. i \<in> set (inflight s qs ps) \<longleftrightarrow> expected s i)
    \<and> (\<forall>k < length (calls s). pending s (call_id (calls s ! k)) = Some k
         \<or> mailbox (calls s ! k) \<noteq> None \<or> finished_phase (call_phase (calls s ! k)))"
proof -
  obtain qs ps where "uds_inv c unread s qs ps" using uds_run_inv [OF assms] by blast
  then have rpc: "rpc_inv c s qs ps" by (rule uds_inv_rpc)
  have "\<forall>k < length (calls s). pending s (call_id (calls s ! k)) = Some k
      \<or> mailbox (calls s ! k) \<noteq> None \<or> finished_phase (call_phase (calls s ! k))"
    using call_invD [OF rpc] by (auto simp: call_inv_def Let_def)
  with rpc show ?thesis
    by (intro exI [of _ qs] exI [of _ ps]) (simp add: rpc_inv_def flow_inv_def)
qed

theorem uds_conservation_witness:
  "\<exists>t. length (calls t) = 1 \<and> (\<exists>qs ps. carries (enc_request ref_codec) (req_ring t) qs
     \<and> carries (enc_response ref_codec) (resp_ring t) ps \<and> distinct (inflight t qs ps))
     \<and> uds_reach ref_codec ref_sock 1000 uds_demo t"
proof -
  obtain t where t: "uds_reach ref_codec ref_sock 1000 uds_demo t" "fresh_ids t"
    "calls t = [\<lparr>call_id = [1], call_req = req_hi,
      call_phase = Finished (Ok (echo_response 1000 req_hi)), mailbox = Some (echo_response 1000 req_hi)\<rparr>]"
    by (rule uds_demo_done)
  have "\<exists>qs ps. carries (enc_request ref_codec) (req_ring t) qs
      \<and> carries (enc_response ref_codec) (resp_ring t) ps \<and> distinct (inflight t qs ps)"
    using uds_conservation [OF ref_codec_laws ref_sock_laws _ _ _ _ t(1) [unfolded uds_demo_def] t(2)]
    by (simp add: ring_default_nat sock_quiet_def) blast
  with t show ?thesis by (intro exI [of _ t]) simp
qed

text \<open>While the messages fit the buffers, the request ring holds exactly one request per unread
  notification byte, per request written but not yet announced, and per read the server is
  about to make: so each read the server makes on a notification finds a request.\<close>

theorem uds_request_ledger_exact:
  assumes "codec_laws c" "sock_laws sys unread" "ring_rep rq []" "ring_rep rp []"
    and "unread k0 Gateway_End = []" "unread k0 Backend_End = []"
    and "uds_reach c sys delay (uds_boot rq rp k0) s" "fresh_ids s"
    and "fits_buffers c 65536 131072 (tickets s)" "\<not> exited (server s)"
  shows "(\<exists>qs. carries (enc_request c) (req_ring s) qs
      \<and> length qs = length (unread (socket s) Backend_End) + unnotified s + owed (server s))
    \<and> (server s = Serving 1 \<longrightarrow> (\<exists>m. fst (rpc_fetch_request s) = Ok m))"
proof -
  obtain qs ps where inv: "uds_inv c unread s qs ps" using uds_run_inv [OF assms(1-8)] by blast
  have len: "length qs = length (unread (socket s) Backend_End) + unnotified s + owed (server s)"
    using inv assms(9,10) by (simp add: uds_inv_unfold)
  have "\<exists>m. fst (rpc_fetch_request s) = Ok m" if "server s = Serving 1"
    using assms(1) uds_inv_rpc [OF inv]
  proof (cases rule: rpc_fetch_request_inv)
    case (empty r b)
    with len that show ?thesis by simp
  next
    case (short r b x qs' m)
    with fits_request [of c s x qs' ps] uds_inv_rpc [OF inv] assms(9) inv show ?thesis
      by (fastforce simp: uds_inv_def)
  qed simp
  with len rpc_invD(4) [OF uds_inv_rpc [OF inv]] show ?thesis by blast
qed

theorem uds_request_ledger_exact_witness:
  "\<exists>qs. carries (enc_request ref_codec) (req_ring uds_demo) qs \<and> length qs = 0"
  using uds_request_ledger_exact [OF ref_codec_laws ref_sock_laws, of ring_default ring_default sock_quiet 1000 uds_demo]
    uds_refl [of ref_codec ref_sock 1000 uds_demo]
  by (simp add: ring_default_nat sock_quiet_def uds_demo_def uds_boot_def fresh_ids_def tickets_def
      fits_buffers_def unnotified_def)

text \<open>C8. No lost wake-up: in a run without straddling prefixes, whose identifiers differ and whose
  messages fit the buffers (requests 64 KiB, responses 128 KiB), while the request listener of the
  server and the response listener of the gateway have not exited, no request is written but not
  announced and no worker's notification failed: when the listener, the server and the workers
  cannot move any more, every call that cannot move has ended, except the calls whose worker could
  not serialise or write its response.\<close>

theorem uds_no_lost_wakeup:
  assumes "codec_laws c" "sock_laws sys unread" "ring_rep rq []" "ring_rep rp []"
    and "unread k0 Gateway_End = []" "unread k0 Backend_End = []"
    and "uds_reach c sys delay (uds_boot rq rp k0) s" "fresh_ids s"
    and "fits_buffers c 65536 131072 (tickets s)" "\<not> exited (server s)" "\<not> exited (listener s)"
    and "unnotified s = 0" "\<And>i e. Unannounced i e \<notin> set (workers s)"
    and "uds_rests c sys delay s" "uds_call c sys k s = None" "k < length (calls s)"
  shows "finished_phase (call_phase (calls s ! k)) \<or> (\<exists>e. Lost (call_id (calls s ! k)) e \<in> set (workers s))"
proof (cases "finished_phase (call_phase (calls s ! k))")
  case False
  obtain qs ps where inv: "uds_inv c unread s qs ps" using uds_run_inv [OF assms(1-8)] by blast
  let ?i = "call_id (calls s ! k)"
  have wait: "call_phase (calls s ! k) = Waiting" "pending s ?i = Some k"
    using uds_quiet_calls [OF assms(15,16)] False by auto
  have quiet: "uds_serve c sys s = None" "uds_listen c sys s = None"
    using assms(14) by (simp_all add: uds_rests_def)
  note idle = uds_quiet_server [OF assms(2) inv assms(9) quiet(1) assms(10,12,1)]
    uds_quiet_listener [OF assms(2) inv assms(9) quiet(2) assms(11) uds_quiet_workers(2) [OF assms(14)] assms(13)]
  have "expected s ?i" using wait by (simp add: expected_def)
  then have "?i \<in> set (inflight s qs ps)"
    using rpc_invD(7) [OF uds_inv_rpc [OF inv]] by (simp add: flow_inv_def)
  then obtain w where w: "w \<in> set (workers s)" "?i \<in> set (worker_ids w)"
    using idle by (auto simp: inflight_def)
  have "\<exists>e. w = Lost ?i e"
  proof (cases w)
    case (Sleeping i req)
    with w uds_quiet_workers(1) [OF assms(14)] show ?thesis by blast
  qed (use w in auto)
  with w show ?thesis by blast
qed simp


lemma uds_demo_done_quiet:
  assumes "uds_idle (\<lambda>k. k) t" "workers t = [Replied [1]]"
    and "calls t = [\<lparr>call_id = [1], call_req = req_hi,
        call_phase = Finished (Ok (echo_response 1000 req_hi)), mailbox = Some (echo_response 1000 req_hi)\<rparr>]"
  shows "uds_rests ref_codec ref_sock 1000 t" "uds_call ref_codec ref_sock k t = None"
  using assms
  by (auto simp: uds_rests_def uds_call_def uds_listen_def uds_serve_def uds_work_def uds_idle_def
      ref_sock_def nth_Cons' split: list.splits)

theorem uds_no_lost_wakeup_witness:
  "\<exists>t. uds_rests ref_codec ref_sock 1000 t \<and> length (calls t) = 1
     \<and> (finished_phase (call_phase (calls t ! 0)) \<or> (\<exists>e. Lost (call_id (calls t ! 0)) e \<in> set (workers t)))"
proof -
  obtain t where t: "uds_reach ref_codec ref_sock 1000 uds_demo t" "fresh_ids t"
    "uds_idle (\<lambda>k. k) t" "workers t = [Replied [1]]"
    "calls t = [\<lparr>call_id = [1], call_req = req_hi,
      call_phase = Finished (Ok (echo_response 1000 req_hi)), mailbox = Some (echo_response 1000 req_hi)\<rparr>]"
    by (rule uds_demo_done)
  note q = uds_demo_done_quiet [OF t(3,4,5)]
  have f: "fits_buffers ref_codec 65536 131072 (tickets t)" using ref_fits_hi t(5) by (simp add: tickets_def)
  have "finished_phase (call_phase (calls t ! 0)) \<or> (\<exists>e. Lost (call_id (calls t ! 0)) e \<in> set (workers t))"
    by (rule uds_no_lost_wakeup [OF ref_codec_laws ref_sock_laws ring_default_nat(1) ring_default_nat(1)
          _ _ t(1) [unfolded uds_demo_def] t(2) f _ _ _ _ q])
      (use t in \<open>simp_all add: sock_quiet_def uds_idle_def unnotified_def\<close>)
  with q(1) t(5) show ?thesis by (intro exI [of _ t]) simp
qed


subsection \<open>States for the witnesses of the failures\<close>

text \<open>A response ring too small for any response.\<close>

lemma uds_demo_lost:
  obtains s where "uds_reach ref_codec ref_sock 1000 (uds_boot ring_default ring_tiny sock_quiet) s"
    and "fresh_ids s" "length (calls s) = 1" "call_phase (calls s ! 0) = Waiting"
    and "Lost (call_id (calls s ! 0)) (WriteFailed BufferFull) \<in> set (workers s)"
proof -
  let ?b = "uds_boot ring_default ring_tiny sock_quiet"
  have idle: "uds_idle (\<lambda>k. k) ?b"
    by (simp add: uds_idle_def uds_boot_def ring_default_nat ring_tiny_rep sock_quiet_def)
  obtain q b k where half: "uds_reach ref_codec ref_sock 1000 ?b
      (uds_at_worker (length (calls ?b)) [1] req_hi q b k ?b)" and q: "prefix_fits q"
    by (rule uds_request_run [OF ref_codec_laws ref_sock_laws ref_sock_healthy idle ref_enc_hi(1),
          where delay = 1000])
      (use ring_tiny_rep in \<open>auto simp: ref_enc_hi uds_boot_def ring_default_nat\<close>)
  define u where "u = uds_at_worker (length (calls ?b)) [1] req_hi q b k ?b"
  define s where "s = set_worker 0 (Lost [1] (WriteFailed BufferFull)) u"
  have "ring_write ring_tiny (ref_put_response ([1], echo_response 1000 req_hi)) = (Err BufferFull, ring_tiny)"
    by (rule ring_tiny_full) (simp_all add: ref_enc_hi isize_max_def)
  then have "uds_step ref_codec ref_sock 1000 (Work 0 1000) u = Some s"
    by (simp add: uds_step_def uds_work_def u_def uds_at_worker_def uds_boot_def s_def rpc_reply_def
        ref_enc_hi set_worker_def)
  moreover have "rings_fit u" using q ring_tiny_rep(2) by (simp add: rings_fit_def u_def uds_at_worker_def uds_boot_def)
  ultimately have "uds_reach ref_codec ref_sock 1000 ?b s"
    using uds_next [OF half [folded u_def]] by blast
  then show ?thesis
    by (rule that) (simp_all add: s_def u_def uds_at_worker_def uds_boot_def fresh_ids_def tickets_def
        set_worker_def)
qed

text \<open>A socket on which the gateway's reads fail.\<close>

definition half_sock :: "(side \<Rightarrow> bytes) sock_sys" where
  "half_sock = ref_sock\<lparr>sock_read_exact := (\<lambda>e k. if e = Gateway_End then (Some (Inl (OtherErrno 104)), k)
     else case k e of [] \<Rightarrow> (None, k) | b # bs \<Rightarrow> (Some (Inr b), k(e := bs)))\<rparr>"

lemma half_sock_laws: "sock_laws half_sock (\<lambda>k. k)" "sock_healthy {Backend_End} half_sock (\<lambda>k. k)"
  by (auto simp: sock_laws_def sock_write_law_def sock_read_law_def sock_healthy_def half_sock_def
      ref_sock_def neq_Nil_conv split: list.splits)

lemma uds_demo_deaf:
  obtains s where "uds_reach ref_codec half_sock 1000 (uds_boot ring_default ring_default sock_quiet) s"
    and "fresh_ids s" "length (calls s) = 1" "call_phase (calls s ! 0) = Waiting"
    and "mailbox (calls s ! 0) = None" "exited (listener s)"
proof -
  let ?b = "uds_boot ring_default ring_default sock_quiet"
  have idle: "uds_idle (\<lambda>k. k) ?b"
    by (simp add: uds_idle_def uds_boot_def ring_default_nat sock_quiet_def)
  obtain q b k where half: "uds_reach ref_codec half_sock 1000 ?b
      (uds_at_worker (length (calls ?b)) [1] req_hi q b k ?b)" and q: "prefix_fits q"
    by (rule uds_request_run [OF ref_codec_laws half_sock_laws idle ref_enc_hi(1),
          where delay = 1000])
      (auto simp: ref_enc_hi uds_boot_def ring_default_nat prefix_fits_def)
  define u where "u = uds_at_worker (length (calls ?b)) [1] req_hi q b k ?b"
  define s where "s = u\<lparr>listener := Exited (OtherErrno 104)\<rparr>"
  have "uds_step ref_codec half_sock 1000 Listen u = Some s"
    by (simp add: uds_step_def uds_listen_def u_def uds_at_worker_def uds_boot_def s_def half_sock_def)
  moreover have "rings_fit u"
    using q by (simp add: rings_fit_def u_def uds_at_worker_def uds_boot_def prefix_fits_def ring_default_nat)
  ultimately have "uds_reach ref_codec half_sock 1000 ?b s"
    using uds_next [OF half [folded u_def]] by blast
  then show ?thesis
    by (rule that) (simp_all add: s_def u_def uds_at_worker_def uds_boot_def fresh_ids_def tickets_def)
qed

text \<open>A request ring too small for the request: the call fails at once.\<close>

lemma uds_demo_leak:
  obtains s where "uds_reach ref_codec ref_sock 1000 (uds_boot ring_tiny ring_tiny sock_quiet) s"
    and "fresh_ids s" "length (calls s) = 1" "call_id (calls s ! 0) = [1]"
    and "call_phase (calls s ! 0) = Finished (Err (WriteFailed BufferFull))"
proof -
  let ?b = "uds_boot ring_tiny ring_tiny sock_quiet"
  define u where "u = rpc_insert [1] req_hi ?b"
  define s where "s = set_phase 0 (Finished (Err (WriteFailed BufferFull))) u"
  have "ring_write ring_tiny (ref_put_request ([1], req_hi)) = (Err BufferFull, ring_tiny)"
    by (rule ring_tiny_full) (simp_all add: ref_enc_hi isize_max_def)
  then have st: "uds_step ref_codec ref_sock 1000 (Call 0) u = Some s"
    by (simp add: uds_step_def uds_call_def u_def rpc_insert_def uds_boot_def s_def rpc_send_def ref_enc_hi
        set_phase_def)
  have st0: "uds_step ref_codec ref_sock 1000 (Start [1] req_hi) ?b = Some u"
    by (simp add: uds_step_def u_def uds_boot_def)
  have fit: "rings_fit ?b" "rings_fit u"
    using ring_tiny_rep(2) by (simp_all add: rings_fit_def u_def rpc_insert_def uds_boot_def)
  have "uds_reach ref_codec ref_sock 1000 ?b s"
    by (rule uds_next [OF uds_next [OF uds_refl fit(1) st0] fit(2) st])
  then show ?thesis
    by (rule that) (simp_all add: s_def u_def rpc_insert_def uds_boot_def fresh_ids_def tickets_def set_phase_def)
qed


subsection \<open>What the code does not guarantee\<close>

text \<open>C37. A refused response is never reported: once the worker of a waiting call has failed to
  serialise or to write the response, the call waits in every later state. There is no timeout
  and no error reply.\<close>

theorem uds_refused_response_hangs:
  assumes "codec_laws c" "sock_laws sys unread" "ring_rep rq []" "ring_rep rp []"
    and "unread k0 Gateway_End = []" "unread k0 Backend_End = []"
    and "uds_reach c sys delay (uds_boot rq rp k0) s"
    and "k < length (calls s)" "call_phase (calls s ! k) = Waiting"
    and "Lost (call_id (calls s ! k)) e \<in> set (workers s)"
    and "uds_reach c sys delay s t" "fresh_ids t"
  shows "call_phase (calls t ! k) = Waiting"
proof -
  have "k < length (calls t) \<and> call_phase (calls t ! k) = Waiting
      \<and> Lost (call_id (calls t ! k)) e \<in> set (workers t)"
    using assms(11,12)
  proof induction
    case uds_refl
    show ?case using assms(8,9,10) by blast
  next
    case (uds_next u a t)
    have reach: "uds_reach c sys delay (uds_boot rq rp k0) u"
      using uds_next.hyps(1) assms(7) by (rule uds_reach_trans)
    have fresh: "fresh_ids u"
      using uds_step_tickets(1) [OF uds_next.hyps(3)] uds_next.prems fresh_ids_prefix by blast
    with uds_next.IH have IH: "k < length (calls u)" "call_phase (calls u ! k) = Waiting"
      "Lost (call_id (calls u ! k)) e \<in> set (workers u)" by blast+
    obtain qs ps where inv: "uds_inv c unread u qs ps" using uds_run_inv [OF assms(1-6) reach fresh] by blast
    have "rpc_receive k u = None"
      using uds_lost_expected [OF inv IH(3,1) refl fresh] by (simp add: rpc_receive_def Let_def)
    with uds_step_waiting [OF uds_next.hyps(3) IH(1,2)] uds_step_lost [OF uds_next.hyps(3) IH(3)]
      uds_reach_id [OF uds_reach.uds_next [OF uds_refl uds_next.hyps(2,3)] IH(1)]
    show ?case by simp
  qed
  then show ?thesis by simp
qed

theorem uds_refused_response_hangs_witness:
  "\<exists>s. Lost (call_id (calls s ! 0)) (WriteFailed BufferFull) \<in> set (workers s)
     \<and> (\<forall>t. uds_reach ref_codec ref_sock 1000 s t \<and> fresh_ids t \<longrightarrow> call_phase (calls t ! 0) = Waiting)"
proof -
  obtain s where s: "uds_reach ref_codec ref_sock 1000 (uds_boot ring_default ring_tiny sock_quiet) s"
    "fresh_ids s" "length (calls s) = 1" "call_phase (calls s ! 0) = Waiting"
    "Lost (call_id (calls s ! 0)) (WriteFailed BufferFull) \<in> set (workers s)"
    by (rule uds_demo_lost)
  have "call_phase (calls t ! 0) = Waiting" if "uds_reach ref_codec ref_sock 1000 s t" "fresh_ids t" for t
    by (rule uds_refused_response_hangs [OF ref_codec_laws ref_sock_laws ring_default_nat(1) ring_tiny_rep(1)
          _ _ s(1) _ s(4,5) that]) (use s(3) in \<open>simp_all add: sock_quiet_def\<close>)
  with s(5) show ?thesis by blast
qed

text \<open>When the response listener has ended on a socket error, every call that waits without a
  response waits in every later state: the listener's clone of the map does not own the
  senders, so \<^verbatim>\<open>rx.await\<close> never fails.\<close>

theorem uds_deaf_gateway_hangs:
  assumes "codec_laws c" "sock_laws sys unread" "ring_rep rq []" "ring_rep rp []"
    and "unread k0 Gateway_End = []" "unread k0 Backend_End = []"
    and "uds_reach c sys delay (uds_boot rq rp k0) s" "exited (listener s)"
    and "k < length (calls s)" "call_phase (calls s ! k) = Waiting" "mailbox (calls s ! k) = None"
    and "uds_reach c sys delay s t" "fresh_ids t"
  shows "call_phase (calls t ! k) = Waiting"
proof -
  have fresh: "fresh_ids s" using assms(12,13) by (rule uds_reach_fresh)
  obtain qs ps where "uds_inv c unread s qs ps" using uds_run_inv [OF assms(1-7) fresh] by blast
  from call_invD [OF uds_inv_rpc [OF this] assms(9)] assms(10,11)
  have pend: "pending s (call_id (calls s ! k)) = Some k" by (simp add: call_inv_def Let_def)
  have "k < length (calls t) \<and> call_phase (calls t ! k) = Waiting \<and> mailbox (calls t ! k) = None
      \<and> pending t (call_id (calls t ! k)) = Some k \<and> exited (listener t)"
    using assms(12,13)
  proof induction
    case uds_refl
    show ?case using assms(8-11) pend by blast
  next
    case (uds_next u a t)
    have "fresh_ids u"
      using uds_step_tickets(1) [OF uds_next.hyps(3)] uds_next.prems fresh_ids_prefix by blast
    with uds_next.IH have IH: "k < length (calls u)" "call_phase (calls u ! k) = Waiting"
      "mailbox (calls u ! k) = None" "pending u (call_id (calls u ! k)) = Some k" "exited (listener u)"
      by blast+
    have "rpc_receive k u = None" using IH(3,4) by (simp add: rpc_receive_def Let_def)
    with uds_step_waiting [OF uds_next.hyps(3) IH(1,2)]
      uds_step_deaf [OF uds_next.hyps(3) IH(5) uds_next.prems IH(1,2,3,4)]
    show ?case by simp
  qed
  then show ?thesis by simp
qed

theorem uds_deaf_gateway_hangs_witness:
  "\<exists>s. exited (listener s) \<and> length (calls s) = 1
     \<and> (\<forall>t. uds_reach ref_codec half_sock 1000 s t \<and> fresh_ids t \<longrightarrow> call_phase (calls t ! 0) = Waiting)"
proof -
  obtain s where s: "uds_reach ref_codec half_sock 1000 (uds_boot ring_default ring_default sock_quiet) s"
    "fresh_ids s" "length (calls s) = 1" "call_phase (calls s ! 0) = Waiting"
    "mailbox (calls s ! 0) = None" "exited (listener s)"
    by (rule uds_demo_deaf)
  have "call_phase (calls t ! 0) = Waiting" if "uds_reach ref_codec half_sock 1000 s t" "fresh_ids t" for t
    by (rule uds_deaf_gateway_hangs [OF ref_codec_laws half_sock_laws(1) ring_default_nat(1) ring_default_nat(1)
          _ _ s(1,6) _ s(4,5) that]) (use s(3) in \<open>simp_all add: sock_quiet_def\<close>)
  with s show ?thesis by blast
qed

text \<open>A call that fails before its request reaches the ring (serialisation error, full ring)
  leaves its sender in the pending map, in every later state as well: no message carries its
  identifier, so nothing ever removes it.\<close>

theorem uds_failed_call_leaks:
  assumes "codec_laws c" "sock_laws sys unread" "ring_rep rq []" "ring_rep rp []"
    and "unread k0 Gateway_End = []" "unread k0 Backend_End = []"
    and "uds_reach c sys delay (uds_boot rq rp k0) s" "fresh_ids s" "k < length (calls s)"
    and "call_phase (calls s ! k) = Finished (Err (WriteFailed e))
      \<or> call_phase (calls s ! k) = Finished (Err (Unserializable m))"
  shows "pending s (call_id (calls s ! k)) = Some k"
proof -
  obtain qs ps where "uds_inv c unread s qs ps" using uds_run_inv [OF assms(1-8)] by blast
  from call_invD [OF uds_inv_rpc [OF this] assms(9)] assms(10) show ?thesis
    by (auto simp: call_inv_def Let_def)
qed

theorem uds_failed_call_leaks_witness:
  "\<exists>s. call_phase (calls s ! 0) = Finished (Err (WriteFailed BufferFull)) \<and> pending s [1] = Some 0
     \<and> uds_reach ref_codec ref_sock 1000 (uds_boot ring_tiny ring_tiny sock_quiet) s"
proof -
  obtain s where s: "uds_reach ref_codec ref_sock 1000 (uds_boot ring_tiny ring_tiny sock_quiet) s"
    "fresh_ids s" "length (calls s) = 1" "call_id (calls s ! 0) = [1]"
    "call_phase (calls s ! 0) = Finished (Err (WriteFailed BufferFull))"
    by (rule uds_demo_leak)
  have "pending s (call_id (calls s ! 0)) = Some 0"
    by (rule uds_failed_call_leaks [OF ref_codec_laws ref_sock_laws ring_tiny_rep(1) ring_tiny_rep(1)
          _ _ s(1,2)]) (use s(3,5) in \<open>simp_all add: sock_quiet_def\<close>)
  with s show ?thesis by (intro exI [of _ s]) simp
qed

end
