(* ===== verification/Shm_Eventfd.thy ===== *)
theory Shm_Eventfd
  imports Rpc_Invariant Event_Fd
begin

section \<open>The transport with notifications over eventfds\<close>

text \<open>
  \<^verbatim>\<open>gateway/src/shm_transport_eventfd.rs\<close> and \<^verbatim>\<open>backend/src/shm_server_eventfd.rs\<close>: as in
  \<open>Shm_Uds\<close>, but each side adds one to the counter of an eventfd after each message, and the
  listener of the other side takes the whole counter and makes that many reads. The two
  eventfds are created by the backend and passed to the gateway, so each process has its own
  descriptors of the two files: the gateway \<open>request_event\<close> and \<open>response_event\<close>, the backend
  \<open>request_async_fd\<close> (a duplicate its loop waits on) and \<open>server_response_event\<close>. That they name
  the same two files, in these roles, is \<open>efd_linked\<close>; the start of the two programs establishes
  it (\<open>descriptors_match\<close> in theory \<open>Descriptors\<close>).
\<close>

subsection \<open>State\<close>

record 'k efd_rpc = rpc +
  kernel :: 'k
  request_event :: int
  response_event :: int
  request_async_fd :: int
  server_response_event :: int

definition efd_boot :: "ring \<Rightarrow> ring \<Rightarrow> int \<times> int \<Rightarrow> int \<times> int \<Rightarrow> 'k \<Rightarrow> 'k efd_rpc" where
  "efd_boot rq rp gateway_fds backend_fds k =
     \<lparr>req_ring = rq, resp_ring = rp, pending = Map.empty, calls = [],
      listener = Awaiting, response_buf = replicate 65536 0,
      server = Awaiting, request_buf = replicate 65536 0, workers = [], crashed = None,
      kernel = k, request_event = fst gateway_fds, response_event = snd gateway_fds,
      request_async_fd = fst backend_fds, server_response_event = snd backend_fds\<rparr>"

subsection \<open>The gateway's notifications\<close>

definition signal_eventfd :: "'k efd_sys \<Rightarrow> int \<Rightarrow> 'k \<Rightarrow> (errno + unit) \<times> 'k" where
  "signal_eventfd sys fd k =
     (case sys_write sys fd (u64_to_ne_bytes 1) k of
        (Inr _, k') \<Rightarrow> (Inr (), k')
      | (Inl EAGAIN, k') \<Rightarrow> (Inr (), k')
      | (Inl e, k') \<Rightarrow> (Inl e, k'))"

text \<open>The bytes of a read land at the start of a zeroed buffer of eight.\<close>

definition count_of :: "bytes \<Rightarrow> u64" where
  "count_of buf = u64_from_ne_bytes (take 8 (buf @ replicate 8 0))"

text \<open>One turn of the waiting loop: a positive count, an error, or \<open>None\<close> to wait again.\<close>

definition wait_eventfd_async :: "'k efd_sys \<Rightarrow> int \<Rightarrow> 'k \<Rightarrow> (errno + u64) option \<times> 'k" where
  "wait_eventfd_async sys fd k =
     (case sys_read sys fd 8 k of
        (Inr buf, k') \<Rightarrow> (if 0 < count_of buf then (Some (Inr (count_of buf)), k') else (None, k'))
      | (Inl EAGAIN, k') \<Rightarrow> (None, k')
      | (Inl e, k') \<Rightarrow> (Some (Inl e), k'))"

definition efd_notify :: "'k efd_sys \<Rightarrow> nat \<Rightarrow> 'k efd_rpc \<Rightarrow> 'k efd_rpc" where
  "efd_notify sys k s =
     (case signal_eventfd sys (request_event s) (kernel s) of
        (Inl e, n) \<Rightarrow> set_phase k (Finished (Err (NotifyFailed e))) (s\<lparr>kernel := n\<rparr>)
      | (Inr _, n) \<Rightarrow> set_phase k Waiting (s\<lparr>kernel := n\<rparr>))"

definition efd_call :: "codec \<Rightarrow> 'k efd_sys \<Rightarrow> nat \<Rightarrow> 'k efd_rpc \<Rightarrow> 'k efd_rpc option" where
  "efd_call c sys k s =
     (if length (calls s) \<le> k then None
      else case call_phase (calls s ! k) of
        Inserted \<Rightarrow> Some (rpc_send c k s)
      | Written \<Rightarrow> Some (efd_notify sys k s)
      | Waiting \<Rightarrow> rpc_receive k s
      | Finished r \<Rightarrow> None)"

text \<open>The rest of a \<^verbatim>\<open>for _ in 0..count\<close> loop with \<open>n\<close> iterations to go.\<close>

definition resume :: "nat \<Rightarrow> task" where
  "resume n = (if n = 0 then Awaiting else Serving n)"

text \<open>The listener leaves the loop at the first read that fails or returns an empty message; an
  error of the wait is logged and the wait is repeated.\<close>

definition efd_listen :: "codec \<Rightarrow> 'k efd_sys \<Rightarrow> 'k efd_rpc \<Rightarrow> 'k efd_rpc option" where
  "efd_listen c sys s =
     (case listener s of
        Awaiting \<Rightarrow>
          (case wait_eventfd_async sys (response_event s) (kernel s) of
             (None, n) \<Rightarrow> None
           | (Some (Inl e), n) \<Rightarrow> Some (s\<lparr>kernel := n\<rparr>)
           | (Some (Inr cnt), n) \<Rightarrow> Some (s\<lparr>kernel := n, listener := resume (unat cnt)\<rparr>))
      | Serving n \<Rightarrow>
          (case rpc_fetch_response s of
             (Err e, t) \<Rightarrow> Some (t\<lparr>listener := Awaiting\<rparr>)
           | (Fault f, t) \<Rightarrow> Some t
           | (Ok m, t) \<Rightarrow>
               if m = [] then Some (t\<lparr>listener := Awaiting\<rparr>)
               else (case dec_response c m of
                  Inl e \<Rightarrow> Some (t\<lparr>listener := resume (n - 1)\<rparr>)
                | Inr (i, resp) \<Rightarrow> Some (t\<lparr>listener := Dispatching (n - 1) i resp\<rparr>)))
      | Dispatching n i resp \<Rightarrow> Some ((rpc_dispatch i resp s)\<lparr>listener := resume n\<rparr>)
      | Exited e \<Rightarrow> None)"

subsection \<open>The backend\<close>

text \<open>The backend has its own copies of the two notification functions.\<close>

definition server_signal_eventfd :: "'k efd_sys \<Rightarrow> int \<Rightarrow> 'k \<Rightarrow> (errno + unit) \<times> 'k" where
  "server_signal_eventfd sys fd k =
     (case sys_write sys fd (u64_to_ne_bytes 1) k of
        (Inr _, k') \<Rightarrow> (Inr (), k')
      | (Inl EAGAIN, k') \<Rightarrow> (Inr (), k')
      | (Inl e, k') \<Rightarrow> (Inl e, k'))"

definition server_wait_eventfd :: "'k efd_sys \<Rightarrow> int \<Rightarrow> 'k \<Rightarrow> (errno + u64) option \<times> 'k" where
  "server_wait_eventfd sys fd k =
     (case sys_read sys fd 8 k of
        (Inr buf, k') \<Rightarrow> (if 0 < count_of buf then (Some (Inr (count_of buf)), k') else (None, k'))
      | (Inl EAGAIN, k') \<Rightarrow> (None, k')
      | (Inl e, k') \<Rightarrow> (Some (Inl e), k'))"

text \<open>The server makes all reads of the count, whatever their outcome; an error of the wait ends
  it.\<close>

definition efd_serve :: "codec \<Rightarrow> 'k efd_sys \<Rightarrow> 'k efd_rpc \<Rightarrow> 'k efd_rpc option" where
  "efd_serve c sys s =
     (case server s of
        Awaiting \<Rightarrow>
          (case server_wait_eventfd sys (request_async_fd s) (kernel s) of
             (None, n) \<Rightarrow> None
           | (Some (Inl e), n) \<Rightarrow> Some (s\<lparr>kernel := n, server := Exited e\<rparr>)
           | (Some (Inr cnt), n) \<Rightarrow> Some (s\<lparr>kernel := n, server := resume (unat cnt)\<rparr>))
      | Serving n \<Rightarrow>
          (case rpc_fetch_request s of
             (Err e, t) \<Rightarrow> Some (t\<lparr>server := resume (n - 1)\<rparr>)
           | (Fault f, t) \<Rightarrow> Some t
           | (Ok m, t) \<Rightarrow>
               if m = [] then Some (t\<lparr>server := resume (n - 1)\<rparr>)
               else (case dec_request c m of
                  Inl e \<Rightarrow> Some (t\<lparr>server := resume (n - 1)\<rparr>)
                | Inr (i, req) \<Rightarrow> Some ((rpc_spawn i req t)\<lparr>server := resume (n - 1)\<rparr>)))
      | _ \<Rightarrow> None)"

definition efd_work ::
  "codec \<Rightarrow> 'k efd_sys \<Rightarrow> duration \<Rightarrow> nat \<Rightarrow> duration \<Rightarrow> 'k efd_rpc \<Rightarrow> 'k efd_rpc option" where
  "efd_work c sys delay j elapsed s =
     (if length (workers s) \<le> j then None
      else case workers s ! j of
        Sleeping i req \<Rightarrow>
          (if elapsed < delay then None else Some (rpc_reply c elapsed j i req s))
      | Notifying i \<Rightarrow>
          (case server_signal_eventfd sys (server_response_event s) (kernel s) of
             (Inl e, n) \<Rightarrow> Some (set_worker j (Unannounced i e) (s\<lparr>kernel := n\<rparr>))
           | (Inr _, n) \<Rightarrow> Some (set_worker j (Replied i) (s\<lparr>kernel := n\<rparr>)))
      | _ \<Rightarrow> None)"

subsection \<open>Runs\<close>

definition efd_step ::
  "codec \<Rightarrow> 'k efd_sys \<Rightarrow> duration \<Rightarrow> rpc_action \<Rightarrow> 'k efd_rpc \<Rightarrow> 'k efd_rpc option" where
  "efd_step c sys delay a s =
     (if crashed s \<noteq> None then None
      else case a of
        Start i req \<Rightarrow> Some (rpc_insert i req s)
      | Call k \<Rightarrow> efd_call c sys k s
      | Listen \<Rightarrow> efd_listen c sys s
      | Serve \<Rightarrow> efd_serve c sys s
      | Work j elapsed \<Rightarrow> efd_work c sys delay j elapsed s)"

inductive efd_reach ::
  "codec \<Rightarrow> 'k efd_sys \<Rightarrow> duration \<Rightarrow> 'k efd_rpc \<Rightarrow> 'k efd_rpc \<Rightarrow> bool" for c sys delay s0 where
  efd_refl: "efd_reach c sys delay s0 s0"
| efd_next: "efd_reach c sys delay s0 s \<Longrightarrow> rings_fit s \<Longrightarrow> efd_step c sys delay a s = Some t \<Longrightarrow>
     efd_reach c sys delay s0 t"

subsection \<open>The notifications on open eventfds\<close>

lemma server_signal_same: "server_signal_eventfd = signal_eventfd"
  by (simp add: fun_eq_iff server_signal_eventfd_def signal_eventfd_def)

lemma server_wait_same: "server_wait_eventfd = wait_eventfd_async"
  by (simp add: fun_eq_iff server_wait_eventfd_def wait_eventfd_async_def)

lemma count_of_u64 [simp]: "count_of (u64_to_ne_bytes w) = w"
  by (simp add: count_of_def)

lemma signal_open:
  assumes "efd_laws sys view" "shown view k fd = Some (c, sem)"
  obtains k' where "signal_eventfd sys fd k = (Inr (), k')"
    and "counts_to view k fd (if c < efd_max then c + 1 else c, sem) k'"
proof (cases "c < efd_max")
  case True
  then have w: "fst (sys_write sys fd (u64_to_ne_bytes 1) k) = Inr 8"
    "counts_to view k fd (c + 1, sem) (snd (sys_write sys fd (u64_to_ne_bytes 1) k))"
    using efd_write_one(2) [OF assms] by simp_all
  with True that [of "snd (sys_write sys fd (u64_to_ne_bytes 1) k)"] show ?thesis
    by (simp add: signal_eventfd_def split_def)
next
  case False
  then have "sys_write sys fd (u64_to_ne_bytes 1) k = (Inl EAGAIN, k)"
    using efd_write_one(1) [OF assms] by simp
  with False that [of k] assms(2) show ?thesis by (simp add: signal_eventfd_def counts_to_refl)
qed

lemma wait_open:
  assumes "efd_laws sys view" "shown view k fd = Some (c, False)"
  obtains (zero) "c = 0" "wait_eventfd_async sys fd k = (None, k)"
    | (count) k' where "0 < c" "wait_eventfd_async sys fd k = (Some (Inr (of_nat c)), k')"
      "counts_to view k fd (0, False) k'" "unat (of_nat c :: u64) = c"
proof (cases "c = 0")
  case True
  then have "sys_read sys fd 8 k = (Inl EAGAIN, k)" using efd_zero [OF assms(1)] assms(2) by blast
  with True zero show ?thesis by (simp add: wait_eventfd_async_def)
next
  case False
  then have pos: "0 < c" by simp
  obtain k' where k': "sys_read sys fd 8 k = (Inr (u64_to_ne_bytes (of_nat c)), k')"
    "counts_to view k fd (0, False) k'"
    by (rule efd_positive [OF assms pos]) simp
  have c: "unat (of_nat c :: u64) = c"
    using efd_count_bound [OF assms] by (simp add: unat_of_nat efd_max_def)
  then have "0 < (of_nat c :: u64)" using pos by (simp add: word_less_nat_alt)
  with k' c pos count show ?thesis by (simp add: wait_eventfd_async_def)
qed

text \<open>The four descriptors of a link, and one whose counters stand at zero.\<close>

definition efd_linked :: "'k efd_view \<Rightarrow> 'k \<Rightarrow> int \<times> int \<Rightarrow> int \<times> int \<Rightarrow> bool" where
  "efd_linked view k gateway_fds backend_fds \<longleftrightarrow>
     file_at view k (fst backend_fds) = file_at view k (fst gateway_fds)
   \<and> file_at view k (snd backend_fds) = file_at view k (snd gateway_fds)
   \<and> file_at view k (fst gateway_fds) \<noteq> file_at view k (snd gateway_fds)"

definition efd_fresh :: "'k efd_view \<Rightarrow> 'k \<Rightarrow> int \<times> int \<Rightarrow> int \<times> int \<Rightarrow> bool" where
  "efd_fresh view k gateway_fds backend_fds \<longleftrightarrow> efd_linked view k gateway_fds backend_fds
   \<and> shown view k (fst gateway_fds) = Some (0, False) \<and> shown view k (snd gateway_fds) = Some (0, False)"

abbreviation gateway_fds :: "'k efd_rpc \<Rightarrow> int \<times> int" where
  "gateway_fds s \<equiv> (request_event s, response_event s)"

abbreviation backend_fds :: "'k efd_rpc \<Rightarrow> int \<times> int" where
  "backend_fds s \<equiv> (request_async_fd s, server_response_event s)"

lemma linked_shown:
  assumes "efd_linked view k gs bs"
  shows "shown view k (fst bs) = shown view k (fst gs)" "shown view k (snd bs) = shown view k (snd gs)"
  using assms by (simp_all add: efd_linked_def shown_def)

lemma counts_to_linked: "counts_to view k fd e k' \<Longrightarrow> efd_linked view k' gs bs = efd_linked view k gs bs"
  by (simp add: efd_linked_def counts_to_files)

lemma linked_counts:
  assumes "efd_linked view k gs bs"
  shows "counts_to view k (fst bs) e k' = counts_to view k (fst gs) e k'"
    and "counts_to view k (snd bs) e k' = counts_to view k (snd gs) e k'"
    and "counts_to view k (fst gs) e k' \<Longrightarrow> shown view k' (fst gs) = Some e \<and> shown view k' (snd gs) = shown view k (snd gs)"
    and "counts_to view k (snd gs) e k' \<Longrightarrow> shown view k' (snd gs) = Some e \<and> shown view k' (fst gs) = shown view k (fst gs)"
  using assms by (auto simp: efd_linked_def counts_to_def)

subsection \<open>The invariant\<close>

fun announcing_worker :: "worker \<Rightarrow> bool" where
  "announcing_worker (Notifying i) = True"
| "announcing_worker _ = False"

definition announcing :: "'z rpc_scheme \<Rightarrow> nat" where
  "announcing s = length (filter announcing_worker (workers s))"

fun task_running :: "task \<Rightarrow> bool" where
  "task_running (Serving n) = (0 < n)"
| "task_running (Exited e) = False"
| "task_running _ = True"

text \<open>Both counters are open, so no notification has failed and no task has ended; while the
  messages fit the buffers the counters account for the contents of the rings.\<close>

definition efd_ledger ::
  "(int \<Rightarrow> (nat \<times> bool) option) \<Rightarrow> 'k efd_rpc \<Rightarrow> 'a list \<Rightarrow> 'b list \<Rightarrow> bool" where
  "efd_ledger v s qs ps \<longleftrightarrow>
     v (request_event s) = Some (length qs - unnotified s - owed (server s), False)
   \<and> unnotified s + owed (server s) \<le> length qs
   \<and> v (response_event s) = Some (length ps - announcing s - owed (listener s), False)
   \<and> announcing s + owed (listener s) \<le> length ps"

definition efd_inv ::
  "codec \<Rightarrow> 'k efd_view \<Rightarrow> 'k efd_rpc
   \<Rightarrow> (utf8 \<times> EchoRequest) list \<Rightarrow> (utf8 \<times> EchoResponse) list \<Rightarrow> bool" where
  "efd_inv c view s qs ps \<longleftrightarrow>
     rpc_inv c s qs ps
   \<and> length (request_buf s) = 65536 \<and> length (response_buf s) = 65536
   \<and> efd_linked view (kernel s) (gateway_fds s) (backend_fds s)
   \<and> (\<exists>cq. shown view (kernel s) (request_event s) = Some (cq, False))
   \<and> (\<exists>cp. shown view (kernel s) (response_event s) = Some (cp, False))
   \<and> task_running (server s) \<and> task_running (listener s) \<and> task_ids (server s) = []
   \<and> (\<forall>k < length (calls s). \<forall>e. call_phase (calls s ! k) \<noteq> Finished (Err (NotifyFailed e)))
   \<and> (\<forall>i e. Unannounced i e \<notin> set (workers s))
   \<and> (fits_buffers c 65536 65536 (tickets s) \<longrightarrow> efd_ledger (shown view (kernel s)) s qs ps)"

lemmas efd_inv_unfold = efd_inv_def efd_ledger_def

lemma efd_inv_rpc: "efd_inv c view s qs ps \<Longrightarrow> rpc_inv c s qs ps"
  by (simp add: efd_inv_def)

lemma rpc_inv_kernel [simp]: "rpc_inv c (s\<lparr>kernel := n\<rparr>) qs ps = rpc_inv c s qs ps"
  by (simp add: rpc_inv_unfold)

lemma efd_frame [simp]:
  "unnotified (s\<lparr>kernel := n\<rparr>) = unnotified s" "tickets (s\<lparr>kernel := n\<rparr>) = tickets s"
  "announcing (s\<lparr>kernel := n\<rparr>) = announcing s"
  "kernel (set_phase k p s) = kernel s" "kernel (set_worker j w s) = kernel s"
  "kernel (rpc_spawn i req s) = kernel s" "kernel (rpc_insert i req s) = kernel s"
  "kernel (rpc_dispatch i resp s) = kernel s"
  "request_event (set_phase k p s) = request_event s" "request_event (set_worker j w s) = request_event s"
  "request_event (rpc_spawn i req s) = request_event s" "request_event (rpc_insert i req s) = request_event s"
  "request_event (rpc_dispatch i resp s) = request_event s"
  "response_event (set_phase k p s) = response_event s" "response_event (set_worker j w s) = response_event s"
  "response_event (rpc_spawn i req s) = response_event s" "response_event (rpc_insert i req s) = response_event s"
  "request_async_fd (set_phase k p s) = request_async_fd s" "request_async_fd (set_worker j w s) = request_async_fd s"
  "request_async_fd (rpc_spawn i req s) = request_async_fd s" "request_async_fd (rpc_insert i req s) = request_async_fd s"
  "request_async_fd (rpc_dispatch i resp s) = request_async_fd s"
  "server_response_event (set_phase k p s) = server_response_event s" "server_response_event (set_worker j w s) = server_response_event s"
  "server_response_event (rpc_spawn i req s) = server_response_event s" "server_response_event (rpc_insert i req s) = server_response_event s"
  "server_response_event (rpc_dispatch i resp s) = server_response_event s"
  "response_event (rpc_dispatch i resp s) = response_event s"
  by (simp_all add: unnotified_def tickets_def announcing_def set_phase_def set_worker_def rpc_spawn_def
      rpc_insert_def rpc_dispatch_def split: option.split)

lemma announcing_frame [simp]:
  "announcing (s\<lparr>req_ring := r\<rparr>) = announcing s" "announcing (s\<lparr>resp_ring := r\<rparr>) = announcing s"
  "announcing (s\<lparr>request_buf := b\<rparr>) = announcing s" "announcing (s\<lparr>response_buf := b\<rparr>) = announcing s"
  "announcing (s\<lparr>server := x\<rparr>) = announcing s" "announcing (s\<lparr>listener := x\<rparr>) = announcing s"
  "announcing (set_phase k p s) = announcing s" "announcing (rpc_insert i req s) = announcing s"
  "announcing (rpc_dispatch i resp s) = announcing s" "announcing (rpc_spawn i req s) = announcing s"
  by (simp_all add: announcing_def)

lemma announcing_set_worker:
  assumes "j < length (workers s)"
  shows "announcing (set_worker j w s) + (if announcing_worker (workers s ! j) then 1 else 0)
       = announcing s + (if announcing_worker w then 1 else 0)"
  using filter_update_length [OF assms, of announcing_worker w] by (simp add: announcing_def)

lemma resume_simps [simp]:
  "owed (resume n) = n" "task_running (resume n)" "task_ids (resume n) = []"
  by (simp_all add: resume_def)

text \<open>Rings of 4 GiB at most keep the counters far below their maximum.\<close>

lemma efd_counter_room:
  assumes inv: "efd_inv c view s qs ps"
  shows "length qs < efd_max" "length ps < efd_max"
  using carries_length [OF rpc_invD(4) [OF efd_inv_rpc [OF inv]]]
    carries_length [OF rpc_invD(5) [OF efd_inv_rpc [OF inv]]]
  by (simp_all add: efd_max_def)

lemma efd_invD_linked: "efd_inv c view s qs ps \<Longrightarrow> efd_linked view (kernel s) (gateway_fds s) (backend_fds s)"
  by (simp add: efd_inv_def)

text \<open>A new count on one of the two files, seen through the descriptors of both sides.\<close>

lemma efd_request_count:
  assumes inv: "efd_inv c view s qs ps" and up: "counts_to view (kernel s) (request_event s) e n"
  shows "shown view n (request_event s) = Some e" "shown view n (response_event s) = shown view (kernel s) (response_event s)"
    "efd_linked view n (gateway_fds s) (backend_fds s)"
  using linked_counts(3) [OF efd_invD_linked [OF inv], of e n] counts_to_linked [OF up] efd_invD_linked [OF inv] up by simp_all

lemma efd_response_count:
  assumes inv: "efd_inv c view s qs ps" and up: "counts_to view (kernel s) (response_event s) e n"
  shows "shown view n (response_event s) = Some e" "shown view n (request_event s) = shown view (kernel s) (request_event s)"
    "efd_linked view n (gateway_fds s) (backend_fds s)"
  using linked_counts(4) [OF efd_invD_linked [OF inv], of e n] counts_to_linked [OF up] efd_invD_linked [OF inv] up by simp_all

lemma efd_backend_fds:
  assumes inv: "efd_inv c view s qs ps"
  shows "shown view (kernel s) (request_async_fd s) = shown view (kernel s) (request_event s)"
    "shown view (kernel s) (server_response_event s) = shown view (kernel s) (response_event s)"
    "counts_to view (kernel s) (request_async_fd s) e n = counts_to view (kernel s) (request_event s) e n"
    "counts_to view (kernel s) (server_response_event s) e n = counts_to view (kernel s) (response_event s) e n"
  using linked_shown [OF efd_invD_linked [OF inv]] linked_counts(1,2) [OF efd_invD_linked [OF inv]] by simp_all

lemma efd_notify_inv:
  assumes laws: "efd_laws sys view" and inv: "efd_inv c view s qs ps"
    and k: "k < length (calls s)" and ph: "call_phase (calls s ! k) = Written"
  shows "efd_inv c view (efd_notify sys k s) qs ps"
proof -
  obtain cq where cq: "shown view (kernel s) (request_event s) = Some (cq, False)"
    using inv by (auto simp: efd_inv_def)
  obtain n where sig: "signal_eventfd sys (request_event s) (kernel s) = (Inr (), n)"
    and up: "counts_to view (kernel s) (request_event s) (if cq < efd_max then cq + 1 else cq, False) n"
    by (rule signal_open [OF laws cq])
  note v = efd_request_count [OF inv up]
  have e: "efd_notify sys k s = set_phase k Waiting (s\<lparr>kernel := n\<rparr>)"
    using sig by (simp add: efd_notify_def)
  have rpc: "rpc_inv c (set_phase k Waiting (s\<lparr>kernel := n\<rparr>)) qs ps"
    by (rule set_phase_inv) (use efd_inv_rpc [OF inv] k ph in auto)
  have cnt: "unnotified (set_phase k Waiting (s\<lparr>kernel := n\<rparr>)) + 1 = unnotified s"
    using unnotified_set_phase [of k "s\<lparr>kernel := n\<rparr>" Waiting] k ph by simp
  have "efd_ledger (shown view n) (set_phase k Waiting (s\<lparr>kernel := n\<rparr>)) qs ps"
    if "fits_buffers c 65536 65536 (tickets s)"
  proof -
    have led: "efd_ledger (shown view (kernel s)) s qs ps" using inv that by (simp add: efd_inv_def)
    then have "cq = length qs - unnotified s - owed (server s)" using cq by (simp add: efd_ledger_def)
    then have "cq < efd_max" using efd_counter_room(1) [OF inv] by simp
    then show ?thesis using led cnt v cq inv by (auto simp: efd_ledger_def efd_inv_def)
  qed
  moreover have "\<forall>l < length (calls s). \<forall>x. call_phase (calls (set_phase k Waiting (s\<lparr>kernel := n\<rparr>)) ! l)
      \<noteq> Finished (Err (NotifyFailed x))"
    using inv by (simp add: efd_inv_def set_phase_nth)
  ultimately show ?thesis
    using inv rpc v by (simp add: e efd_inv_def)
qed

lemma efd_call_inv:
  assumes codec: "codec_laws c" and laws: "efd_laws sys view"
    and inv: "efd_inv c view s qs ps" and fits: "rings_fit s" and st: "efd_call c sys k s = Some t"
  shows "\<exists>qs'. efd_inv c view t qs' ps"
proof -
  have k: "k < length (calls s)" using st by (simp add: efd_call_def split: if_splits)
  note rpc = efd_inv_rpc [OF inv]
  have phases: "\<forall>l < length (calls s). \<forall>x. call_phase (calls (set_phase k p s') ! l) \<noteq> Finished (Err (NotifyFailed x))"
    if "calls s' = calls s" "\<And>x. p \<noteq> Finished (Err (NotifyFailed x))" for p and s' :: "'a efd_rpc"
    using inv that by (auto simp: efd_inv_def set_phase_nth)
  show ?thesis
  proof (cases "call_phase (calls s ! k)")
    case Inserted
    then have t: "t = rpc_send c k s" using st k by (simp add: efd_call_def)
    have pf: "prefix_fits (req_ring s)" using fits by (simp add: rings_fit_def)
    from codec rpc k Inserted pf show ?thesis
    proof (cases rule: rpc_send_inv)
      case (written r)
      have "unnotified t = unnotified s + 1"
        using unnotified_set_phase [of k "s\<lparr>req_ring := r\<rparr>" Written] k Inserted t written(1) by simp
      with written inv t phases [of "s\<lparr>req_ring := r\<rparr>" Written] show ?thesis
        by (auto simp: efd_inv_unfold intro!: exI)
    next
      case (refused r e)
      have "unnotified t = unnotified s"
        using unnotified_set_phase [of k "s\<lparr>req_ring := r\<rparr>" "Finished (Err e)"] k Inserted t refused(1,3)
        by auto
      with refused inv t phases [of "s\<lparr>req_ring := r\<rparr>" "Finished (Err e)"] show ?thesis
        by (auto simp: efd_inv_unfold intro!: exI [of _ qs])
    qed
  next
    case Written
    then have "t = efd_notify sys k s" using st k by (simp add: efd_call_def)
    with efd_notify_inv [OF laws inv k Written] show ?thesis by blast
  next
    case Waiting
    then have "rpc_receive k s = Some t" using st k by (simp add: efd_call_def)
    with rpc k Waiting obtain resp where t: "t = set_phase k (Finished (Ok resp)) s" "rpc_inv c t qs ps"
      by (rule rpc_receive_inv)
    have "unnotified t = unnotified s"
      using unnotified_set_phase [OF k, of "Finished (Ok resp)"] Waiting by (simp add: t(1))
    with t inv phases [of s "Finished (Ok resp)"] show ?thesis
      by (auto simp: efd_inv_unfold intro!: exI [of _ qs])
  next
    case (Finished r)
    with st k show ?thesis by (simp add: efd_call_def)
  qed
qed


lemma efd_listen_inv:
  assumes codec: "codec_laws c" and laws: "efd_laws sys view"
    and inv: "efd_inv c view s qs ps" and st: "efd_listen c sys s = Some t"
  shows "\<exists>ps'. efd_inv c view t qs ps'"
proof (cases "listener s")
  case Awaiting
  obtain cp where cp: "shown view (kernel s) (response_event s) = Some (cp, False)"
    using inv by (auto simp: efd_inv_def)
  from laws cp show ?thesis
  proof (cases rule: wait_open)
    case zero
    with st Awaiting show ?thesis by (simp add: efd_listen_def)
  next
    case (count n)
    then have t: "t = s\<lparr>kernel := n, listener := resume cp\<rparr>"
      using st Awaiting by (simp add: efd_listen_def)
    have "rpc_inv c t qs ps"
      using efd_inv_rpc [OF inv] rpc_inv_listener [of "s\<lparr>kernel := n\<rparr>" "resume cp" c qs ps] Awaiting
      by (simp add: t)
    with inv efd_response_count [OF inv count(3)] cp Awaiting show ?thesis
      by (auto simp: t efd_inv_unfold intro!: exI [of _ ps])
  qed
next
  case (Serving n)
  then have idle: "task_ids (listener s) = []" and n: "0 < n" using inv by (auto simp: efd_inv_def)
  from codec efd_inv_rpc [OF inv] idle show ?thesis
  proof (cases rule: rpc_fetch_response_inv)
    case (empty r b)
    then have t: "t = s\<lparr>resp_ring := r, response_buf := b, listener := Awaiting\<rparr>"
      using st Serving by (simp add: efd_listen_def)
    have "\<not> fits_buffers c 65536 65536 (tickets s)"
      using inv empty(2) Serving n by (auto simp: efd_inv_unfold)
    with empty inv t rpc_inv_listener [of "s\<lparr>resp_ring := r, response_buf := b\<rparr>" Awaiting c qs ps] idle
    show ?thesis by (auto simp: efd_inv_unfold intro!: exI [of _ ps])
  next
    case (short r b x ps' m)
    then have t: "t = s\<lparr>resp_ring := r, response_buf := b, listener := Awaiting\<rparr>"
      using st Serving by (simp add: efd_listen_def)
    have "\<not> fits_buffers c 65536 65536 (tickets s)"
      using fits_response [of c s qs x ps'] efd_inv_rpc [OF inv] short(2,3,4) inv
      by (fastforce simp: efd_inv_def)
    with short inv t rpc_inv_listener [of "s\<lparr>resp_ring := r, response_buf := b\<rparr>" Awaiting c qs ps] idle
    show ?thesis by (auto simp: efd_inv_unfold intro!: exI [of _ ps])
  next
    case (got r b m i resp ps')
    then have "t = s\<lparr>resp_ring := r, response_buf := b, listener := Dispatching (n - 1) i resp\<rparr>"
      using st Serving by (simp add: efd_listen_def)
    with got inv Serving n show ?thesis
      by (auto simp: efd_inv_unfold intro!: exI [of _ ps'])
  qed
next
  case (Dispatching n i resp)
  then have t: "t = (rpc_dispatch i resp s)\<lparr>listener := resume n\<rparr>"
    using st by (simp add: efd_listen_def)
  note rpc = efd_inv_rpc [OF inv]
  have "rpc_inv c t qs ps" unfolding t by (rule rpc_dispatch_inv(1) [OF rpc Dispatching]) simp
  moreover have "\<forall>l < length (calls s). \<forall>e. call_phase (calls (rpc_dispatch i resp s) ! l) \<noteq> Finished (Err (NotifyFailed e))"
    using inv by (auto simp: efd_inv_def rpc_dispatch_def phase_delivered split: option.split)
  ultimately show ?thesis
    using inv t unnotified_dispatch [OF rpc, of i resp] Dispatching
    by (auto simp: efd_inv_unfold intro!: exI [of _ ps])
next
  case (Exited e)
  with st show ?thesis by (simp add: efd_listen_def)
qed

lemma efd_serve_inv:
  assumes codec: "codec_laws c" and laws: "efd_laws sys view"
    and inv: "efd_inv c view s qs ps" and st: "efd_serve c sys s = Some t"
  shows "\<exists>qs'. efd_inv c view t qs' ps"
proof (cases "server s")
  case Awaiting
  obtain cq where cq: "shown view (kernel s) (request_event s) = Some (cq, False)"
    using inv by (auto simp: efd_inv_def)
  then have "shown view (kernel s) (request_async_fd s) = Some (cq, False)" by (simp add: efd_backend_fds [OF inv])
  with laws show ?thesis
  proof (cases rule: wait_open)
    case zero
    with st Awaiting show ?thesis by (simp add: efd_serve_def server_wait_same)
  next
    case (count n)
    then have t: "t = s\<lparr>kernel := n, server := resume cq\<rparr>"
      using st Awaiting by (simp add: efd_serve_def server_wait_same)
    note v = efd_request_count [OF inv count(3) [unfolded efd_backend_fds(3) [OF inv]]]
    with t inv v count(4) cq Awaiting show ?thesis
      by (auto simp: t efd_inv_unfold intro!: exI [of _ qs])
  qed
next
  case (Serving n)
  then have n: "0 < n" using inv by (auto simp: efd_inv_def)
  from codec efd_inv_rpc [OF inv] show ?thesis
  proof (cases rule: rpc_fetch_request_inv)
    case (empty r b)
    then have t: "t = s\<lparr>req_ring := r, request_buf := b, server := resume (n - 1)\<rparr>"
      using st Serving by (simp add: efd_serve_def)
    have "\<not> fits_buffers c 65536 65536 (tickets s)"
      using inv empty(2) Serving n by (auto simp: efd_inv_unfold)
    with empty inv t show ?thesis by (auto simp: efd_inv_unfold intro!: exI [of _ qs])
  next
    case (short r b x qs' m)
    then have t: "t = s\<lparr>req_ring := r, request_buf := b, server := resume (n - 1)\<rparr>"
      using st Serving by (simp add: efd_serve_def)
    have "\<not> fits_buffers c 65536 65536 (tickets s)"
      using fits_request [of c s x qs' ps] efd_inv_rpc [OF inv] short(2,3,4) inv
      by (fastforce simp: efd_inv_def)
    with short inv t show ?thesis by (auto simp: efd_inv_unfold intro!: exI [of _ qs])
  next
    case (got r b m i req qs')
    then have "t = (rpc_spawn i req (s\<lparr>req_ring := r, request_buf := b\<rparr>))\<lparr>server := resume (n - 1)\<rparr>"
      using st Serving by (simp add: efd_serve_def)
    with got inv Serving n show ?thesis
      by (auto simp: efd_inv_unfold intro!: exI [of _ qs'])
  qed
next
  case (Dispatching n i resp)
  with st show ?thesis by (simp add: efd_serve_def)
next
  case (Exited e)
  with st show ?thesis by (simp add: efd_serve_def)
qed

lemma efd_work_inv:
  assumes codec: "codec_laws c" and laws: "efd_laws sys view"
    and inv: "efd_inv c view s qs ps" and fits: "rings_fit s"
    and st: "efd_work c sys delay j d s = Some t"
  shows "\<exists>ps'. efd_inv c view t qs ps'"
proof -
  have j: "j < length (workers s)" using st by (simp add: efd_work_def split: if_splits)
  note rpc = efd_inv_rpc [OF inv]
  have una: "Unannounced i e \<notin> set ((workers s)[j := w])" if "\<And>i e. w \<noteq> Unannounced i e" for i e w
    using inv that set_update_subset_insert [of "workers s" j w] unfolding efd_inv_def by blast
  show ?thesis
  proof (cases "workers s ! j")
    case (Sleeping i req)
    then have t: "t = rpc_reply c d j i req s" using st j by (auto simp: efd_work_def split: if_splits)
    have pf: "prefix_fits (resp_ring s)" using fits by (simp add: rings_fit_def)
    from codec rpc j Sleeping pf show ?thesis
    proof (cases rule: rpc_reply_inv [where d = d])
      case (replied r)
      have "announcing t = announcing s + 1"
        using announcing_set_worker [of j "s\<lparr>resp_ring := r\<rparr>" "Notifying i"] j Sleeping replied(1) t by simp
      with replied inv t una [of "Notifying i"]
      have "efd_inv c view t qs (ps @ [(i, echo_response d req)])"
        by (auto simp: efd_inv_unfold)
      then show ?thesis by blast
    next
      case (lost r e)
      have "announcing t = announcing s"
        using announcing_set_worker [of j "s\<lparr>resp_ring := r\<rparr>" "Lost i e"] j Sleeping lost(1) t by simp
      with lost inv t una [of "Lost i e"] show ?thesis
        by (auto simp: efd_inv_unfold intro!: exI [of _ ps])
    qed
  next
    case (Notifying i)
    obtain cp where cp: "shown view (kernel s) (response_event s) = Some (cp, False)"
      using inv by (auto simp: efd_inv_def)
    obtain n where sig: "signal_eventfd sys (server_response_event s) (kernel s) = (Inr (), n)"
      and up: "counts_to view (kernel s) (response_event s) (if cp < efd_max then cp + 1 else cp, False) n"
      using signal_open [OF laws, of "kernel s" "server_response_event s" cp False] cp efd_backend_fds [OF inv] by metis
    note v = efd_response_count [OF inv up]
    have t: "t = set_worker j (Replied i) (s\<lparr>kernel := n\<rparr>)"
      using st j Notifying sig by (simp add: efd_work_def server_signal_same)
    have rpc': "rpc_inv c t qs ps"
      unfolding t by (rule set_worker_inv) (use rpc j Notifying in auto)
    have cnt: "announcing t + 1 = announcing s"
      using announcing_set_worker [of j "s\<lparr>kernel := n\<rparr>" "Replied i"] j Notifying t by simp
    have "efd_ledger (shown view n) t qs ps" if "fits_buffers c 65536 65536 (tickets s)"
    proof -
      have led: "efd_ledger (shown view (kernel s)) s qs ps" using inv that by (simp add: efd_inv_def)
      then have "cp = length ps - announcing s - owed (listener s)" using cp by (simp add: efd_ledger_def)
      then have "cp < efd_max" using efd_counter_room(2) [OF inv] by simp
      then show ?thesis using led cnt v cp inv by (auto simp: t efd_ledger_def efd_inv_def)
    qed
    with inv rpc' v una [of "Replied i"] have "efd_inv c view t qs ps"
      by (auto simp: t efd_inv_def)
    then show ?thesis by blast
  qed (use st j in \<open>simp_all add: efd_work_def\<close>)
qed


subsection \<open>All reachable states\<close>

lemma efd_step_tickets:
  assumes "efd_step c sys delay a s = Some t"
  shows "\<exists>xs. tickets t = tickets s @ xs"
    and "(\<forall>i req. a \<noteq> Start i req) \<Longrightarrow> tickets t = tickets s"
proof -
  have "tickets t = tickets s @ (case a of Start i req \<Rightarrow> [(i, req)] | _ \<Rightarrow> [])"
    using assms
    by (auto simp: efd_step_def efd_call_def efd_notify_def efd_listen_def efd_serve_def efd_work_def
        rpc_send_def rpc_receive_def rpc_fetch_response_def rpc_fetch_request_def rpc_reply_def Let_def
        split: rpc_action.splits if_splits call_phase.splits task.splits option.splits sum.splits
          prod.splits outcome.splits worker.splits)
  then show "\<exists>xs. tickets t = tickets s @ xs" "(\<forall>i req. a \<noteq> Start i req) \<Longrightarrow> tickets t = tickets s"
    by (auto split: rpc_action.splits)
qed

lemma efd_step_inv:
  assumes codec: "codec_laws c" and laws: "efd_laws sys view" and inv: "efd_inv c view s qs ps"
    and fits: "rings_fit s" and st: "efd_step c sys delay a s = Some t" and ids: "fresh_ids t"
  shows "\<exists>qs' ps'. efd_inv c view t qs' ps'"
proof (cases a)
  case (Start i req)
  then have t: "t = rpc_insert i req s" using st by (simp add: efd_step_def split: if_splits)
  have "rpc_inv c t qs ps"
    unfolding t by (rule rpc_insert_inv [OF efd_inv_rpc [OF inv] fresh_ids_insert]) (use ids t in simp)
  moreover have "fits_buffers c 65536 65536 (tickets t) \<Longrightarrow> fits_buffers c 65536 65536 (tickets s)"
    by (simp add: t fits_buffers_mono)
  moreover have "\<forall>l < length (calls t). \<forall>e. call_phase (calls t ! l) \<noteq> Finished (Err (NotifyFailed e))"
    using inv by (auto simp: t efd_inv_def rpc_insert_def nth_append)
  ultimately have "efd_inv c view t qs ps" using inv by (simp add: efd_inv_unfold t)
  then show ?thesis by blast
next
  case (Call k)
  then have "efd_call c sys k s = Some t" using st by (simp add: efd_step_def split: if_splits)
  with efd_call_inv [OF codec laws inv fits] show ?thesis by blast
next
  case Listen
  then have "efd_listen c sys s = Some t" using st by (simp add: efd_step_def split: if_splits)
  with efd_listen_inv [OF codec laws inv] show ?thesis by blast
next
  case Serve
  then have "efd_serve c sys s = Some t" using st by (simp add: efd_step_def split: if_splits)
  with efd_serve_inv [OF codec laws inv] show ?thesis by blast
next
  case (Work j d)
  then have "efd_work c sys delay j d s = Some t" using st by (simp add: efd_step_def split: if_splits)
  with efd_work_inv [OF codec laws inv fits] show ?thesis by blast
qed

lemma efd_boot_inv:
  assumes "ring_rep rq []" "ring_rep rp []" "efd_fresh view k gs bs"
  shows "efd_inv c view (efd_boot rq rp gs bs k) [] []"
proof -
  have "rpc_inv c (efd_boot rq rp gs bs k) [] []"
    using assms(1,2) by (rule rpc_inv_boot) (simp_all add: efd_boot_def isize_max_def)
  with assms(3) show ?thesis
    by (simp add: efd_inv_unfold efd_fresh_def efd_boot_def unnotified_def announcing_def)
qed

lemma efd_reach_inv:
  assumes codec: "codec_laws c" and laws: "efd_laws sys view" and inv0: "\<exists>qs ps. efd_inv c view s0 qs ps"
    and reach: "efd_reach c sys delay s0 s" and ids: "fresh_ids s"
  shows "\<exists>qs ps. efd_inv c view s qs ps"
  using reach ids
proof induction
  case efd_refl
  show ?case by (rule inv0)
next
  case (efd_next s a t)
  obtain xs where "tickets t = tickets s @ xs" using efd_step_tickets(1) [OF efd_next.hyps(3)] by blast
  then have "fresh_ids s" using efd_next.prems by (rule fresh_ids_prefix [rotated])
  then obtain qs ps where "efd_inv c view s qs ps" using efd_next.IH by blast
  from efd_step_inv [OF codec laws this efd_next.hyps(2,3) efd_next.prems] show ?case .
qed

lemma efd_run_inv:
  assumes "codec_laws c" "efd_laws sys view" "ring_rep rq []" "ring_rep rp []" "efd_fresh view k0 gs bs"
    and "efd_reach c sys delay (efd_boot rq rp gs bs k0) s" "fresh_ids s"
  shows "\<exists>qs ps. efd_inv c view s qs ps"
  using efd_reach_inv [OF assms(1,2) _ assms(6,7)]
    efd_boot_inv [where view = view and k = k0, OF assms(3-5)] by blast

end
