(* ===== verification/Shm_Polling.thy ===== *)
theory Shm_Polling
  imports Rpc_Examples
begin

section \<open>The polling transport\<close>

text \<open>
  \<^verbatim>\<open>ShmTransport\<close> of \<^verbatim>\<open>gateway/src/transport.rs\<close> and \<^verbatim>\<open>run_shm_server\<close> of
  \<^verbatim>\<open>backend/src/main.rs\<close>: JSON messages without an identifier, no notification. A call writes
  its request and then reads the response ring until it gets a response, whoever asked for it,
  or until 30 seconds have passed; the server handles one request at a time. A step is one
  iteration of one of the loops; the order of the steps is arbitrary.
\<close>

subsection \<open>The JSON codec\<close>

record json_codec =
  json_enc_request :: "EchoRequest \<Rightarrow> string + bytes"
  json_dec_request :: "bytes \<Rightarrow> string + EchoRequest"
  json_enc_response :: "EchoResponse \<Rightarrow> string + bytes"
  json_dec_response :: "bytes \<Rightarrow> string + EchoResponse"

definition json_laws :: "json_codec \<Rightarrow> bool" where
  "json_laws c \<longleftrightarrow>
     (\<forall>x b. json_enc_request c x = Inr b \<longrightarrow> json_dec_request c b = Inr x \<and> length b \<le> isize_max)
   \<and> (\<forall>x b. json_enc_response c x = Inr b \<longrightarrow> json_dec_response c b = Inr x \<and> length b \<le> isize_max)"

lemma json_request:
  "json_laws c \<Longrightarrow> json_enc_request c x = Inr b \<Longrightarrow> json_dec_request c b = Inr x \<and> length b \<le> isize_max"
  unfolding json_laws_def by blast

lemma json_response:
  "json_laws c \<Longrightarrow> json_enc_response c x = Inr b \<Longrightarrow> json_dec_response c b = Inr x \<and> length b \<le> isize_max"
  unfolding json_laws_def by blast

text \<open>The reference codec with a fixed identifier satisfies them.\<close>

definition ref_json :: json_codec where
  "ref_json =
     \<lparr>json_enc_request = (\<lambda>x. enc_request ref_codec ([1], x)),
      json_dec_request = (\<lambda>b. map_sum id snd (dec_request ref_codec b)),
      json_enc_response = (\<lambda>x. enc_response ref_codec ([1], x)),
      json_dec_response = (\<lambda>b. map_sum id snd (dec_response ref_codec b))\<rparr>"

lemma ref_json_laws: "json_laws ref_json"
  using codec_request [OF ref_codec_laws] codec_response [OF ref_codec_laws]
  by (auto simp: json_laws_def ref_json_def)

subsection \<open>State\<close>

datatype poll_error = PUnserializable string | PWriteFailed shm_error | PTimeout | PMalformed string

datatype poll_phase = PStarted | PPolling | PFinished "(poll_error, EchoResponse) outcome"

record pcall =
  pcall_req :: EchoRequest
  pcall_phase :: poll_phase
  pcall_buf :: bytes

datatype poll_server = PIdle | PWorking EchoRequest

text \<open>
  \<open>written\<close>, \<open>taken\<close> and \<open>dropped\<close> record, for the statements only, the calls in the order in
  which their requests entered the ring, the responses in the order in which calls took them,
  and the number of responses the server could not send.
\<close>

record polling =
  p_req_ring :: ring
  p_resp_ring :: ring
  pcalls :: "pcall list"
  p_server :: poll_server
  p_request_buf :: bytes
  p_crashed :: "fault option"
  written :: "nat list"
  taken :: "(nat \<times> EchoResponse) list"
  dropped :: nat

definition poll_boot :: "ring \<Rightarrow> ring \<Rightarrow> polling" where
  "poll_boot rq rp = \<lparr>p_req_ring = rq, p_resp_ring = rp, pcalls = [], p_server = PIdle,
     p_request_buf = replicate 65536 0, p_crashed = None, written = [], taken = [], dropped = 0\<rparr>"

definition set_pcall :: "nat \<Rightarrow> pcall \<Rightarrow> polling \<Rightarrow> polling" where
  "set_pcall k cl s = s\<lparr>pcalls := (pcalls s)[k := cl]\<rparr>"

subsection \<open>The call\<close>

definition poll_start :: "EchoRequest \<Rightarrow> polling \<Rightarrow> polling" where
  "poll_start req s =
     s\<lparr>pcalls := pcalls s @ [\<lparr>pcall_req = req, pcall_phase = PStarted, pcall_buf = replicate 65536 0\<rparr>]\<rparr>"

definition poll_timeout :: duration where
  "poll_timeout = 30 * 1000000000"

definition poll_send :: "json_codec \<Rightarrow> nat \<Rightarrow> polling \<Rightarrow> polling" where
  "poll_send c k s =
     (let cl = pcalls s ! k in
      case json_enc_request c (pcall_req cl) of
        Inl e \<Rightarrow> set_pcall k (cl\<lparr>pcall_phase := PFinished (Err (PUnserializable e))\<rparr>) s
      | Inr payload \<Rightarrow>
        (case ring_write (p_req_ring s) payload of
           (Ok n, r) \<Rightarrow>
             (set_pcall k (cl\<lparr>pcall_phase := PPolling\<rparr>) s)\<lparr>p_req_ring := r, written := written s @ [k]\<rparr>
         | (Err e, r) \<Rightarrow>
             (set_pcall k (cl\<lparr>pcall_phase := PFinished (Err (PWriteFailed e))\<rparr>) s)\<lparr>p_req_ring := r\<rparr>
         | (Fault f, r) \<Rightarrow> s\<lparr>p_req_ring := r, p_crashed := Some f\<rparr>))"

text \<open>One turn of the polling loop, \<open>elapsed\<close> after its start. Any read error counts as \<open>no data
  available\<close>.\<close>

definition poll_turn :: "json_codec \<Rightarrow> nat \<Rightarrow> duration \<Rightarrow> polling \<Rightarrow> polling" where
  "poll_turn c k elapsed s =
     (let cl = pcalls s ! k in
      if poll_timeout < elapsed then set_pcall k (cl\<lparr>pcall_phase := PFinished (Err PTimeout)\<rparr>) s
      else case ring_read (p_resp_ring s) (pcall_buf cl) of
        (Ok n, buf, r) \<Rightarrow>
          (case json_dec_response c (take (unat n) buf) of
             Inr resp \<Rightarrow>
               (set_pcall k (cl\<lparr>pcall_phase := PFinished (Ok resp), pcall_buf := buf\<rparr>) s)
                 \<lparr>p_resp_ring := r, taken := taken s @ [(k, resp)]\<rparr>
           | Inl e \<Rightarrow>
               (set_pcall k (cl\<lparr>pcall_phase := PFinished (Err (PMalformed e)), pcall_buf := buf\<rparr>) s)
                 \<lparr>p_resp_ring := r\<rparr>)
      | (Err e, buf, r) \<Rightarrow> (set_pcall k (cl\<lparr>pcall_buf := buf\<rparr>) s)\<lparr>p_resp_ring := r\<rparr>
      | (Fault f, buf, r) \<Rightarrow> s\<lparr>p_resp_ring := r, p_crashed := Some f\<rparr>)"

definition poll_call :: "json_codec \<Rightarrow> nat \<Rightarrow> duration \<Rightarrow> polling \<Rightarrow> polling option" where
  "poll_call c k elapsed s =
     (if length (pcalls s) \<le> k then None
      else case pcall_phase (pcalls s ! k) of
        PStarted \<Rightarrow> Some (poll_send c k s)
      | PPolling \<Rightarrow> Some (poll_turn c k elapsed s)
      | PFinished r \<Rightarrow> None)"

subsection \<open>The server\<close>

text \<open>A request that does not parse is skipped, a response that cannot be sent is dropped.\<close>

definition poll_receive :: "json_codec \<Rightarrow> polling \<Rightarrow> polling" where
  "poll_receive c s =
     (case ring_read (p_req_ring s) (p_request_buf s) of
        (Ok n, buf, r) \<Rightarrow>
          (case json_dec_request c (take (unat n) buf) of
             Inr req \<Rightarrow> s\<lparr>p_req_ring := r, p_request_buf := buf, p_server := PWorking req\<rparr>
           | Inl e \<Rightarrow> s\<lparr>p_req_ring := r, p_request_buf := buf\<rparr>)
      | (Err e, buf, r) \<Rightarrow> s\<lparr>p_req_ring := r, p_request_buf := buf\<rparr>
      | (Fault f, buf, r) \<Rightarrow> s\<lparr>p_req_ring := r, p_crashed := Some f\<rparr>)"

definition poll_response :: "duration \<Rightarrow> duration \<Rightarrow> EchoRequest \<Rightarrow> EchoResponse" where
  "poll_response since_recv processing req =
     \<lparr>resp_message = req_message req, resp_timestamp_ns = as_nanos_i64 since_recv,
      resp_processing_time_us = as_micros_i64 processing, resp_payload = req_payload req\<rparr>"

definition poll_reply :: "json_codec \<Rightarrow> duration \<Rightarrow> duration \<Rightarrow> EchoRequest \<Rightarrow> polling \<Rightarrow> polling" where
  "poll_reply c since_recv processing req s =
     (case json_enc_response c (poll_response since_recv processing req) of
        Inl e \<Rightarrow> s\<lparr>p_server := PIdle, dropped := dropped s + 1\<rparr>
      | Inr payload \<Rightarrow>
        (case ring_write (p_resp_ring s) payload of
           (Ok n, r) \<Rightarrow> s\<lparr>p_server := PIdle, p_resp_ring := r\<rparr>
         | (Err e, r) \<Rightarrow> s\<lparr>p_server := PIdle, p_resp_ring := r, dropped := dropped s + 1\<rparr>
         | (Fault f, r) \<Rightarrow> s\<lparr>p_resp_ring := r, p_crashed := Some f\<rparr>))"

text \<open>One step of \<^verbatim>\<open>run_shm_server\<close>: a read, or the end of the processing delay.\<close>

definition run_shm_server ::
  "json_codec \<Rightarrow> duration \<Rightarrow> duration \<Rightarrow> duration \<Rightarrow> polling \<Rightarrow> polling option" where
  "run_shm_server c delay since_recv processing s =
     (case p_server s of
        PIdle \<Rightarrow> Some (poll_receive c s)
      | PWorking req \<Rightarrow>
          if processing < delay then None else Some (poll_reply c since_recv processing req s))"

subsection \<open>Runs\<close>

datatype poll_action = PStart EchoRequest | PCall nat duration | PServe duration duration

definition poll_step :: "json_codec \<Rightarrow> duration \<Rightarrow> poll_action \<Rightarrow> polling \<Rightarrow> polling option" where
  "poll_step c delay a s =
     (if p_crashed s \<noteq> None then None
      else case a of
        PStart req \<Rightarrow> Some (poll_start req s)
      | PCall k elapsed \<Rightarrow> poll_call c k elapsed s
      | PServe d1 d2 \<Rightarrow> run_shm_server c delay d1 d2 s)"

definition poll_fits :: "polling \<Rightarrow> bool" where
  "poll_fits s \<longleftrightarrow> prefix_fits (p_req_ring s) \<and> prefix_fits (p_resp_ring s)"

inductive poll_reach :: "json_codec \<Rightarrow> duration \<Rightarrow> polling \<Rightarrow> polling \<Rightarrow> bool" for c delay s0 where
  poll_refl: "poll_reach c delay s0 s0"
| poll_next: "poll_reach c delay s0 s \<Longrightarrow> poll_fits s \<Longrightarrow> poll_step c delay a s = Some t \<Longrightarrow>
     poll_reach c delay s0 t"

inductive_cases poll_reachE: "poll_reach c delay s0 s"

subsection \<open>Responses are handed out in the order of the requests\<close>

fun server_holds :: "poll_server \<Rightarrow> EchoRequest list" where
  "server_holds PIdle = []"
| "server_holds (PWorking req) = [req]"

text \<open>The requests in writing order: those answered, the one in work, those still in the ring.\<close>

definition written_reqs :: "polling \<Rightarrow> EchoRequest list" where
  "written_reqs s = map (\<lambda>k. pcall_req (pcalls s ! k)) (written s)"

definition poll_inv ::
  "json_codec \<Rightarrow> polling \<Rightarrow> EchoRequest list \<Rightarrow> EchoRequest list \<Rightarrow> EchoResponse list \<Rightarrow> bool" where
  "poll_inv c s answered qs ps \<longleftrightarrow>
     p_crashed s = None \<and> length (p_request_buf s) \<le> isize_max
   \<and> (\<forall>cl \<in> set (pcalls s). length (pcall_buf cl) \<le> isize_max)
   \<and> carries (json_enc_request c) (p_req_ring s) qs
   \<and> carries (json_enc_response c) (p_resp_ring s) ps
   \<and> (\<forall>k \<in> set (written s). k < length (pcalls s))
   \<and> (dropped s = 0 \<longrightarrow>
        written_reqs s = answered @ server_holds (p_server s) @ qs
        \<and> list_all2 echoes answered (map snd (taken s) @ ps))"

lemma set_pcall_simps [simp]:
  "length (pcalls (set_pcall k cl s)) = length (pcalls s)" "written (set_pcall k cl s) = written s"
  "taken (set_pcall k cl s) = taken s" "dropped (set_pcall k cl s) = dropped s"
  "p_server (set_pcall k cl s) = p_server s" "p_req_ring (set_pcall k cl s) = p_req_ring s"
  "p_resp_ring (set_pcall k cl s) = p_resp_ring s" "p_request_buf (set_pcall k cl s) = p_request_buf s"
  "p_crashed (set_pcall k cl s) = p_crashed s" "pcalls (set_pcall k cl s) = (pcalls s)[k := cl]"
  by (simp_all add: set_pcall_def)

lemma pcall_reqs_update:
  "pcall_req cl = pcall_req (xs ! k) \<Longrightarrow> pcall_req (xs[k := cl] ! j) = pcall_req (xs ! j)"
  by (cases "k < length xs"; cases "j = k") (simp_all add: nth_list_update list_update_beyond)

lemma pcall_bufs_update:
  "\<forall>cl \<in> set xs. P cl \<Longrightarrow> P y \<Longrightarrow> \<forall>cl \<in> set (xs[k := y]). P cl"
  using set_update_subset_insert [of xs k y] by blast

lemma poll_response_echoes: "echoes req (poll_response d1 d2 req)"
  by (simp add: echoes_def poll_response_def)


lemma written_reqs_frame [simp]:
  "written_reqs (s\<lparr>p_req_ring := r\<rparr>) = written_reqs s" "written_reqs (s\<lparr>p_resp_ring := r\<rparr>) = written_reqs s"
  "written_reqs (s\<lparr>p_server := x\<rparr>) = written_reqs s" "written_reqs (s\<lparr>p_request_buf := b\<rparr>) = written_reqs s"
  "written_reqs (s\<lparr>taken := l\<rparr>) = written_reqs s" "written_reqs (s\<lparr>dropped := n\<rparr>) = written_reqs s"
  by (simp_all add: written_reqs_def)

lemma written_reqs_set_pcall [simp]:
  "pcall_req cl = pcall_req (pcalls s ! k) \<Longrightarrow> written_reqs (set_pcall k cl s) = written_reqs s"
  by (simp add: written_reqs_def pcall_reqs_update)

lemma poll_start_inv:
  assumes "poll_inv c s an qs ps"
  shows "poll_inv c (poll_start req s) an qs ps"
proof -
  have "written_reqs (poll_start req s) = written_reqs s"
    using assms by (auto simp: written_reqs_def poll_start_def poll_inv_def nth_append)
  then show ?thesis using assms by (auto simp: poll_inv_def poll_start_def isize_max_def)
qed

lemma poll_send_inv:
  assumes laws: "json_laws c" and inv: "poll_inv c s an qs ps" and k: "k < length (pcalls s)"
    and fits: "poll_fits s"
  shows "\<exists>qs'. poll_inv c (poll_send c k s) an qs' ps"
proof -
  let ?cl = "pcalls s ! k"
  have bufs: "\<forall>cl \<in> set ((pcalls s)[k := ?cl\<lparr>pcall_phase := p\<rparr>]). length (pcall_buf cl) \<le> isize_max" for p
    using inv nth_mem [OF k] by (intro pcall_bufs_update) (auto simp: poll_inv_def)
  show ?thesis
  proof (cases "json_enc_request c (pcall_req ?cl)")
    case (Inl e)
    with inv bufs show ?thesis
      by (auto simp: poll_send_def Let_def poll_inv_def intro!: exI [of _ qs])
  next
    case (Inr p)
    then have len: "length p \<le> isize_max" using json_request [OF laws] by blast
    have "carries (json_enc_request c) (p_req_ring s) qs" "prefix_fits (p_req_ring s)"
      using inv fits by (simp_all add: poll_inv_def poll_fits_def)
    from this Inr len show ?thesis
    proof (cases rule: carries_write)
      case (room r)
      define t where "t = (set_pcall k (?cl\<lparr>pcall_phase := PPolling\<rparr>) s)\<lparr>p_req_ring := r, written := written s @ [k]\<rparr>"
      have t: "poll_send c k s = t" using Inr room by (simp add: poll_send_def Let_def t_def)
      have "written_reqs t = written_reqs s @ [pcall_req ?cl]"
        using k by (simp add: written_reqs_def t_def pcall_reqs_update)
      with inv bufs room(2) k have "poll_inv c t an (qs @ [pcall_req ?cl]) ps"
        by (auto simp: poll_inv_def t_def)
      then show ?thesis by (auto simp: t)
    next
      case (full r)
      with Inr inv bufs show ?thesis
        by (auto simp: poll_send_def Let_def poll_inv_def intro!: exI [of _ qs])
    qed
  qed
qed

lemma poll_turn_inv:
  assumes laws: "json_laws c" and inv: "poll_inv c s an qs ps" and k: "k < length (pcalls s)"
  shows "\<exists>ps'. poll_inv c (poll_turn c k d s) an qs ps'"
proof -
  let ?cl = "pcalls s ! k"
  have len: "length (pcall_buf ?cl) \<le> isize_max"
    using inv nth_mem [OF k] by (auto simp: poll_inv_def)
  have bufs: "\<forall>cl \<in> set ((pcalls s)[k := ?cl\<lparr>pcall_phase := p, pcall_buf := b\<rparr>]). length (pcall_buf cl) \<le> isize_max"
    if "length b = length (pcall_buf ?cl)" for p b
    using inv len that by (intro pcall_bufs_update) (auto simp: poll_inv_def)
  have bufs': "\<forall>cl \<in> set ((pcalls s)[k := ?cl\<lparr>pcall_buf := pcall_buf ?cl\<rparr>]). length (pcall_buf cl) \<le> isize_max"
    using inv k by (simp add: poll_inv_def)
  have bufs'': "\<forall>cl \<in> set ((pcalls s)[k := ?cl\<lparr>pcall_phase := p\<rparr>]). length (pcall_buf cl) \<le> isize_max" for p
    using inv len by (intro pcall_bufs_update) (auto simp: poll_inv_def)
  show ?thesis
  proof (cases "poll_timeout < d")
    case True
    with inv bufs'' show ?thesis
      by (auto simp: poll_turn_def Let_def poll_inv_def intro!: exI [of _ ps])
  next
    case False
    have "carries (json_enc_response c) (p_resp_ring s) ps" using inv by (simp add: poll_inv_def)
    from this len show ?thesis
    proof (cases rule: carries_read)
      case (empty r)
      with False inv bufs' show ?thesis
        by (auto simp: poll_turn_def Let_def poll_inv_def intro!: exI [of _ ps])
    next
      case (short r x xs m)
      with False inv bufs' show ?thesis
        by (auto simp: poll_turn_def Let_def poll_inv_def intro!: exI [of _ ps])
    next
      case (got r x xs m)
      define b where "b = m @ drop (length m) (pcall_buf ?cl)"
      define t where "t = (set_pcall k (?cl\<lparr>pcall_phase := PFinished (Ok x), pcall_buf := b\<rparr>) s)
        \<lparr>p_resp_ring := r, taken := taken s @ [(k, x)]\<rparr>"
      have m: "json_dec_response c m = Inr x" "length m \<le> isize_max"
        using json_response [OF laws got(4)] by auto
      have t: "poll_turn c k d s = t"
        using False got m by (simp add: poll_turn_def Let_def t_def b_def)
      have "written_reqs t = written_reqs s" by (simp add: t_def)
      moreover have "length b = length (pcall_buf ?cl)" using got(5) by (simp add: b_def)
      ultimately have "poll_inv c t an qs xs"
        using inv bufs got(2,3) by (auto simp: poll_inv_def t_def)
      then show ?thesis by (auto simp: t)
    qed
  qed
qed

lemma poll_receive_inv:
  assumes laws: "json_laws c" and inv: "poll_inv c s an qs ps" and idle: "p_server s = PIdle"
  shows "\<exists>qs'. poll_inv c (poll_receive c s) an qs' ps"
proof -
  have "carries (json_enc_request c) (p_req_ring s) qs" "length (p_request_buf s) \<le> isize_max"
    using inv by (simp_all add: poll_inv_def)
  then show ?thesis
  proof (cases rule: carries_read)
    case (empty r)
    with inv show ?thesis by (auto simp: poll_receive_def poll_inv_def intro!: exI [of _ qs])
  next
    case (short r x xs m)
    with inv show ?thesis by (auto simp: poll_receive_def poll_inv_def intro!: exI [of _ qs])
  next
    case (got r x xs m)
    define b where "b = m @ drop (length m) (p_request_buf s)"
    have m: "json_dec_request c m = Inr x" "length m \<le> isize_max"
      using json_request [OF laws got(4)] by auto
    define t where "t = s\<lparr>p_req_ring := r, p_request_buf := b, p_server := PWorking x\<rparr>"
    have t: "poll_receive c s = t" using got m by (simp add: poll_receive_def t_def b_def)
    have "length b = length (p_request_buf s)" using got(5) by (simp add: b_def)
    then have "poll_inv c t an xs ps"
      using inv got(2,3) idle by (auto simp: poll_inv_def t_def)
    then show ?thesis by (auto simp: t)
  qed
qed

lemma poll_reply_inv:
  assumes laws: "json_laws c" and inv: "poll_inv c s an qs ps" and w: "p_server s = PWorking req"
    and fits: "poll_fits s"
  shows "\<exists>an' ps'. poll_inv c (poll_reply c d1 d2 req s) an' qs ps'"
proof -
  let ?x = "poll_response d1 d2 req"
  show ?thesis
  proof (cases "json_enc_response c ?x")
    case (Inl e)
    with inv show ?thesis by (auto simp: poll_reply_def poll_inv_def intro!: exI [of _ an] exI [of _ ps])
  next
    case (Inr p)
    then have len: "length p \<le> isize_max" using json_response [OF laws] by blast
    have "carries (json_enc_response c) (p_resp_ring s) ps" "prefix_fits (p_resp_ring s)"
      using inv fits by (simp_all add: poll_inv_def poll_fits_def)
    from this Inr len show ?thesis
    proof (cases rule: carries_write)
      case (full r)
      with Inr inv show ?thesis
        by (auto simp: poll_reply_def poll_inv_def intro!: exI [of _ an] exI [of _ ps])
    next
      case (room r)
      define t where "t = s\<lparr>p_server := PIdle, p_resp_ring := r\<rparr>"
      have t: "poll_reply c d1 d2 req s = t" using Inr room by (simp add: poll_reply_def t_def)
      have "list_all2 echoes (an @ [req]) (map snd (taken s) @ ps @ [?x])"
        if "list_all2 echoes an (map snd (taken s) @ ps)"
        using list_all2_appendI [OF that, of "[req]" "[?x]"] poll_response_echoes by simp
      with inv room(2) w have "poll_inv c t (an @ [req]) qs (ps @ [?x])"
        by (auto simp: poll_inv_def t_def)
      then show ?thesis by (auto simp: t)
    qed
  qed
qed

lemma poll_step_inv:
  assumes laws: "json_laws c" and inv: "poll_inv c s an qs ps" and fits: "poll_fits s"
    and st: "poll_step c delay a s = Some t"
  shows "\<exists>an' qs' ps'. poll_inv c t an' qs' ps'"
proof (cases a)
  case (PStart req)
  then have "t = poll_start req s" using st by (simp add: poll_step_def split: if_splits)
  with poll_start_inv [OF inv] show ?thesis by blast
next
  case (PCall k d)
  then have call: "poll_call c k d s = Some t" using st by (simp add: poll_step_def split: if_splits)
  then have k: "k < length (pcalls s)" by (simp add: poll_call_def split: if_splits)
  from call have "t = poll_send c k s \<or> t = poll_turn c k d s"
    by (auto simp: poll_call_def split: if_splits poll_phase.splits)
  with poll_send_inv [OF laws inv k fits] poll_turn_inv [OF laws inv k] show ?thesis by blast
next
  case (PServe d1 d2)
  then have "run_shm_server c delay d1 d2 s = Some t" using st by (simp add: poll_step_def split: if_splits)
  then have "p_server s = PIdle \<and> t = poll_receive c s
      \<or> (\<exists>req. p_server s = PWorking req \<and> t = poll_reply c d1 d2 req s)"
    by (auto simp: run_shm_server_def split: poll_server.splits if_splits)
  with poll_receive_inv [OF laws inv] poll_reply_inv [OF laws inv _ fits] show ?thesis by blast
qed

lemma poll_boot_inv:
  assumes "ring_rep rq []" "ring_rep rp []"
  shows "poll_inv c (poll_boot rq rp) [] [] []"
  using assms by (simp add: poll_inv_def poll_boot_def written_reqs_def carries_empty isize_max_def)

lemma poll_reach_inv:
  assumes laws: "json_laws c" and rings: "ring_rep rq []" "ring_rep rp []"
    and reach: "poll_reach c delay (poll_boot rq rp) s"
  shows "\<exists>an qs ps. poll_inv c s an qs ps"
  using reach
proof induction
  case poll_refl
  show ?case using poll_boot_inv [OF rings] by blast
next
  case (poll_next s a t)
  then show ?case using poll_step_inv [OF laws] by blast
qed


subsection \<open>A run in which two requests are under way\<close>

lemma poll_two_run:
  assumes laws: "json_laws c" and rq: "ring_rep rq []" and rp: "ring_rep rp []"
    and m0: "json_enc_request c req0 = Inr m0" "length m0 \<le> 65536"
    and m1: "json_enc_request c req1 = Inr m1"
    and p: "json_enc_response c (poll_response d1 d2 req0) = Inr p" "length p \<le> 65536"
    and room: "ring_wp rq + length m0 + length m1 + 12 \<le> ring_cap rq" "ring_wp rp + length p + 8 \<le> ring_cap rp"
    and delay: "delay \<le> d2"
    and first: "ph = PPolling \<or> ph = PFinished (Err PTimeout)"
  shows "\<exists>t. poll_reach c delay (poll_boot rq rp) t \<and> length (pcalls t) = 2
    \<and> pcall_req (pcalls t ! 0) = req0 \<and> pcall_phase (pcalls t ! 0) = ph
    \<and> pcall_req (pcalls t ! 1) = req1
    \<and> pcall_phase (pcalls t ! 1) = PFinished (Ok (poll_response d1 d2 req0))
    \<and> written t = [0, 1] \<and> taken t = [(1, poll_response d1 d2 req0)] \<and> dropped t = 0"
proof -
  let ?z = "replicate 65536 0 :: bytes" and ?resp = "poll_response d1 d2 req0"
  define bq where "bq = m0 @ drop (length m0) ?z"
  define bp where "bp = p @ drop (length p) ?z"
  have z: "length ?z \<le> isize_max" by (simp add: isize_max_def)
  obtain q1 q2 q3 where q: "ring_write rq m0 = (Ok (len_usize m0), q1)" "prefix_fits q1"
    "ring_write q1 m1 = (Ok (len_usize m1), q2)" "prefix_fits q2"
    "ring_read q2 ?z = (Ok (len_usize m0), bq, q3)" "prefix_fits q3"
    unfolding bq_def
    by (rule ring_two_messages [of rq m0 m1 ?z]) (use rq m0(2) room z in auto)
  obtain p1 p2 where pr: "ring_write rp p = (Ok (len_usize p), p1)" "prefix_fits p1"
    "ring_read p1 ?z = (Ok (len_usize p), bp, p2)" "prefix_fits p2"
    unfolding bp_def by (rule ring_one_message [of rp p ?z]) (use rp p(2) room z in auto)
  have fit: "prefix_fits rq" "prefix_fits rp" using room by (simp_all add: prefix_fits_def)
  have dec: "json_dec_request c m0 = Inr req0" "length m0 \<le> isize_max"
    "json_dec_response c p = Inr ?resp" "length p \<le> isize_max"
    using json_request [OF laws m0(1)] json_response [OF laws p(1)] by auto
  have take: "take (length m0) bq = m0" "take (length p) bp = p" by (simp_all add: bq_def bp_def)
  define call where "call = (\<lambda>req ph b. \<lparr>pcall_req = req, pcall_phase = ph, pcall_buf = b\<rparr>)"
  define s1 where "s1 = (poll_boot rq rp)\<lparr>pcalls := [call req0 PStarted ?z]\<rparr>"
  define s2 where "s2 = s1\<lparr>p_req_ring := q1, pcalls := [call req0 PPolling ?z], written := [0]\<rparr>"
  define s3 where "s3 = s2\<lparr>pcalls := [call req0 ph ?z]\<rparr>"
  define s4 where "s4 = s3\<lparr>pcalls := [call req0 ph ?z, call req1 PStarted ?z]\<rparr>"
  define s5 where "s5 = s4\<lparr>p_req_ring := q2, pcalls := [call req0 ph ?z, call req1 PPolling ?z], written := [0, 1]\<rparr>"
  define s6 where "s6 = s5\<lparr>p_req_ring := q3, p_request_buf := bq, p_server := PWorking req0\<rparr>"
  define s7 where "s7 = s6\<lparr>p_server := PIdle, p_resp_ring := p1\<rparr>"
  define s8 where "s8 = s7\<lparr>pcalls := [call req0 ph ?z, call req1 (PFinished (Ok ?resp)) bp],
    p_resp_ring := p2, taken := [(1, ?resp)]\<rparr>"
  note defs = s1_def s2_def s3_def s4_def s5_def s6_def s7_def s8_def poll_boot_def call_def
  note ev = poll_step_def poll_start_def poll_call_def poll_send_def poll_turn_def run_shm_server_def
    poll_receive_def poll_reply_def set_pcall_def
  have st1: "poll_step c delay (PStart req0) (poll_boot rq rp) = Some s1"
    by (simp add: ev defs)
  have st2: "poll_step c delay (PCall 0 0) s1 = Some s2" using q m0 by (simp add: ev defs)
  have f: "poll_fits (poll_boot rq rp)" "poll_fits s1" "poll_fits s2" "poll_fits s3" "poll_fits s4"
    "poll_fits s5" "poll_fits s6" "poll_fits s7"
    using q pr fit by (simp_all add: poll_fits_def defs)
  have st3: "s3 = s2 \<or> poll_step c delay (PCall 0 (poll_timeout + 1)) s2 = Some s3"
    using first by (auto simp: ev defs)
  have st4: "poll_step c delay (PStart req1) s3 = Some s4" by (simp add: ev defs)
  have st5: "poll_step c delay (PCall 1 0) s4 = Some s5" using q m1 by (simp add: ev defs)
  have st6: "poll_step c delay (PServe d1 d2) s5 = Some s6" using q dec take by (simp add: ev defs)
  have st7: "poll_step c delay (PServe d1 d2) s6 = Some s7" using pr p delay by (simp add: ev defs)
  have st8: "poll_step c delay (PCall 1 0) s7 = Some s8"
    using pr dec take by (simp add: ev defs)
  have r2: "poll_reach c delay (poll_boot rq rp) s2"
    by (rule poll_next [OF poll_next [OF poll_refl f(1) st1] f(2) st2])
  have r3: "poll_reach c delay (poll_boot rq rp) s3"
    using st3 r2 poll_next [OF r2 f(3)] by auto
  have "poll_reach c delay (poll_boot rq rp) s8"
    by (rule poll_next [OF _ f(8) st8], rule poll_next [OF _ f(7) st7], rule poll_next [OF _ f(6) st6],
        rule poll_next [OF _ f(5) st5], rule poll_next [OF r3 f(4) st4])
  then show ?thesis by (intro exI [of _ s8]) (simp add: defs)
qed

definition req_bye :: EchoRequest where
  "req_bye = \<lparr>req_message = [98, 121, 101], req_timestamp_ns = 0, req_payload = []\<rparr>"

lemma ref_json_hi:
  "json_enc_request ref_json req_hi = Inr (ref_put_request ([1], req_hi))"
  "json_enc_request ref_json req_bye = Inr (ref_put_request ([1], req_bye))"
  "json_enc_response ref_json (poll_response d1 d2 req_hi) = Inr (ref_put_response ([1], poll_response d1 d2 req_hi))"
  "length (ref_put_request ([1], req_hi)) = 35" "length (ref_put_request ([1], req_bye)) = 36"
  "length (ref_put_response ([1], poll_response d1 d2 req_hi)) = 43"
  by (simp_all add: ref_json_def ref_codec_def ref_put_request_def ref_put_response_def req_hi_def
      req_bye_def poll_response_def put_i64_def isize_max_def)

lemma hi_not_bye: "req_message req_hi \<noteq> req_message req_bye"
  by (simp add: req_hi_def req_bye_def)

lemma poll_demo:
  assumes "ph = PPolling \<or> ph = PFinished (Err PTimeout)"
  shows "\<exists>t. poll_reach ref_json 1000 (poll_boot ring_default ring_default) t \<and> length (pcalls t) = 2
    \<and> pcall_req (pcalls t ! 0) = req_hi \<and> pcall_phase (pcalls t ! 0) = ph
    \<and> pcall_req (pcalls t ! 1) = req_bye
    \<and> pcall_phase (pcalls t ! 1) = PFinished (Ok (poll_response 900 1000 req_hi))
    \<and> written t = [0, 1] \<and> taken t = [(1, poll_response 900 1000 req_hi)] \<and> dropped t = 0"
  by (rule poll_two_run [OF ref_json_laws ring_default_nat(1) ring_default_nat(1) ref_json_hi(1) _
        ref_json_hi(2) ref_json_hi(3)])
    (use assms in \<open>simp_all add: ref_json_hi ring_default_nat\<close>)

subsection \<open>Properties\<close>

text \<open>C30. Responses are handed out in order, not to their owners: as long as no response was
  dropped, the \<open>j\<close>-th response that any call takes echoes the request that was the \<open>j\<close>-th to
  enter the request ring. A call gets its own answer exactly when the calls take in the order
  in which they wrote.\<close>

theorem poll_nth_response:
  assumes "json_laws c" "ring_rep rq []" "ring_rep rp []"
    and "poll_reach c delay (poll_boot rq rp) s" "dropped s = 0" "j < length (taken s)"
  shows "j < length (written s)
    \<and> echoes (pcall_req (pcalls s ! (written s ! j))) (snd (taken s ! j)) \<and> p_crashed s = None"
proof -
  obtain an qs ps where inv: "poll_inv c s an qs ps" using poll_reach_inv [OF assms(1-4)] by blast
  then have w: "written_reqs s = an @ server_holds (p_server s) @ qs"
    and e: "list_all2 echoes an (map snd (taken s) @ ps)"
    using assms(5) by (simp_all add: poll_inv_def)
  have len: "length an = length (taken s) + length ps" using list_all2_lengthD [OF e] by simp
  have "length (written s) = length (written_reqs s)" by (simp add: written_reqs_def)
  then have lw: "length an \<le> length (written s)" using w by simp
  have "echoes (an ! j) (snd (taken s ! j))"
    using list_all2_nthD [OF e, of j] len assms(6) by (simp add: nth_append)
  moreover have "an ! j = written_reqs s ! j" using w len assms(6) by (simp add: nth_append)
  moreover have "written_reqs s ! j = pcall_req (pcalls s ! (written s ! j))"
    using lw len assms(6) by (simp add: written_reqs_def)
  ultimately show ?thesis using lw len assms(6) inv by (simp add: poll_inv_def)
qed

theorem poll_nth_response_witness:
  "\<exists>t. poll_reach ref_json 1000 (poll_boot ring_default ring_default) t \<and> length (taken t) = 1
     \<and> echoes (pcall_req (pcalls t ! (written t ! 0))) (snd (taken t ! 0))"
proof -
  obtain t where t: "poll_reach ref_json 1000 (poll_boot ring_default ring_default) t"
    "taken t = [(1, poll_response 900 1000 req_hi)]" "dropped t = 0"
    using poll_demo [of PPolling] by auto
  with poll_nth_response [OF ref_json_laws ring_default_nat(1) ring_default_nat(1) t(1,3), of 0]
  show ?thesis by (intro exI [of _ t]) simp
qed

text \<open>Two overlapping calls can be crossed: there is a run in which the second call returns the
  response to the first one's request, with success, while the first call is still polling; it
  is not an echo of its own request whenever the messages differ.\<close>

theorem poll_cross_talk:
  assumes "json_laws c" "ring_rep rq []" "ring_rep rp []" "delay \<le> d2"
    and "json_enc_request c req0 = Inr m0" "length m0 \<le> 65536" "json_enc_request c req1 = Inr m1"
    and "json_enc_response c (poll_response d1 d2 req0) = Inr p" "length p \<le> 65536"
    and "ring_wp rq + length m0 + length m1 + 12 \<le> ring_cap rq" "ring_wp rp + length p + 8 \<le> ring_cap rp"
    and "req_message req0 \<noteq> req_message req1"
  shows "\<exists>t resp. poll_reach c delay (poll_boot rq rp) t
    \<and> pcall_req (pcalls t ! 0) = req0 \<and> pcall_phase (pcalls t ! 0) = PPolling
    \<and> pcall_req (pcalls t ! 1) = req1 \<and> pcall_phase (pcalls t ! 1) = PFinished (Ok resp)
    \<and> echoes req0 resp \<and> \<not> echoes req1 resp"
proof -
  have no: "\<not> echoes req1 (poll_response d1 d2 req0)"
    using assms(12) by (simp add: echoes_def poll_response_def)
  show ?thesis
    using poll_two_run [OF assms(1-3,5-11,4), of PPolling] no poll_response_echoes [of req0 d1 d2]
    by blast
qed

theorem poll_cross_talk_witness:
  "\<exists>t resp. poll_reach ref_json 1000 (poll_boot ring_default ring_default) t
     \<and> pcall_req (pcalls t ! 1) = req_bye \<and> pcall_phase (pcalls t ! 1) = PFinished (Ok resp)
     \<and> \<not> echoes req_bye resp"
proof -
  have "\<exists>t resp. poll_reach ref_json 1000 (poll_boot ring_default ring_default) t
    \<and> pcall_req (pcalls t ! 0) = req_hi \<and> pcall_phase (pcalls t ! 0) = PPolling
    \<and> pcall_req (pcalls t ! 1) = req_bye \<and> pcall_phase (pcalls t ! 1) = PFinished (Ok resp)
    \<and> echoes req_hi resp \<and> \<not> echoes req_bye resp"
    by (rule poll_cross_talk [OF ref_json_laws ring_default_nat(1) ring_default_nat(1) _
          ref_json_hi(1) _ ref_json_hi(2) ref_json_hi(3) [of 900 1000]])
      (simp_all add: ref_json_hi ring_default_nat hi_not_bye)
  then show ?thesis by blast
qed

text \<open>A timeout shifts the answers: there is a run without overlapping calls in which the first
  call has returned \<open>Request timeout\<close> before the second one starts, and the second call returns
  the response to the first one's request.\<close>

theorem poll_timeout_shifts:
  assumes "json_laws c" "ring_rep rq []" "ring_rep rp []" "delay \<le> d2"
    and "json_enc_request c req0 = Inr m0" "length m0 \<le> 65536" "json_enc_request c req1 = Inr m1"
    and "json_enc_response c (poll_response d1 d2 req0) = Inr p" "length p \<le> 65536"
    and "ring_wp rq + length m0 + length m1 + 12 \<le> ring_cap rq" "ring_wp rp + length p + 8 \<le> ring_cap rp"
  shows "\<exists>t. poll_reach c delay (poll_boot rq rp) t \<and> written t = [0, 1]
    \<and> pcall_phase (pcalls t ! 0) = PFinished (Err PTimeout) \<and> pcall_req (pcalls t ! 1) = req1
    \<and> pcall_phase (pcalls t ! 1) = PFinished (Ok (poll_response d1 d2 req0))"
  using poll_two_run [OF assms(1-3,5-11,4), of "PFinished (Err PTimeout)"] by blast

theorem poll_timeout_shifts_witness:
  "\<exists>t. poll_reach ref_json 1000 (poll_boot ring_default ring_default) t
     \<and> pcall_phase (pcalls t ! 0) = PFinished (Err PTimeout)
     \<and> pcall_phase (pcalls t ! 1) = PFinished (Ok (poll_response 900 1000 req_hi))"
proof -
  have "\<exists>t. poll_reach ref_json 1000 (poll_boot ring_default ring_default) t \<and> written t = [0, 1]
    \<and> pcall_phase (pcalls t ! 0) = PFinished (Err PTimeout) \<and> pcall_req (pcalls t ! 1) = req_bye
    \<and> pcall_phase (pcalls t ! 1) = PFinished (Ok (poll_response 900 1000 req_hi))"
    by (rule poll_timeout_shifts [OF ref_json_laws ring_default_nat(1) ring_default_nat(1) _
          ref_json_hi(1) _ ref_json_hi(2) ref_json_hi(3) [of 900 1000]])
      (simp_all add: ref_json_hi ring_default_nat)
  then show ?thesis by blast
qed

end
