(* ===== verification/Utf8.thy ===== *)
theory Utf8
  imports Prelude
begin

section \<open>UTF-8 with replacement\<close>

text \<open>
  \<^verbatim>\<open>String::from_utf8_lossy\<close> of the standard library, which the gateway applies to bodies that
  are not JSON: each maximal piece that is not the beginning of a well-formed sequence becomes
  one U+FFFD. \<open>utf8_next\<close> looks at the front of a byte string: whether a well-formed sequence
  stands there, and how many bytes it or the ill-formed piece has.
\<close>

definition byte_at :: "bytes \<Rightarrow> nat \<Rightarrow> u8" where
  "byte_at bs i = (if i < length bs then bs ! i else 0)"

definition continues :: "u8 \<Rightarrow> bool" where
  "continues b \<longleftrightarrow> 0x80 \<le> b \<and> b \<le> 0xBF"

text \<open>The second byte of a sequence of three or four bytes.\<close>

definition second_of_three :: "u8 \<Rightarrow> u8 \<Rightarrow> bool" where
  "second_of_three a b \<longleftrightarrow>
     (if a = 0xE0 then 0xA0 \<le> b \<and> b \<le> 0xBF
      else if a = 0xED then 0x80 \<le> b \<and> b \<le> 0x9F else continues b)"

definition second_of_four :: "u8 \<Rightarrow> u8 \<Rightarrow> bool" where
  "second_of_four a b \<longleftrightarrow>
     (if a = 0xF0 then 0x90 \<le> b \<and> b \<le> 0xBF
      else if a = 0xF4 then 0x80 \<le> b \<and> b \<le> 0x8F else continues b)"

text \<open>The first byte gives the length of the sequence.\<close>

definition leads :: "nat \<Rightarrow> u8 \<Rightarrow> bool" where
  "leads n a \<longleftrightarrow>
     (if n = 1 then a < 0x80 else if n = 2 then 0xC2 \<le> a \<and> a \<le> 0xDF
      else if n = 3 then 0xE0 \<le> a \<and> a \<le> 0xEF else 0xF0 \<le> a \<and> a \<le> 0xF4)"

definition utf8_decide :: "u8 \<Rightarrow> u8 \<Rightarrow> u8 \<Rightarrow> u8 \<Rightarrow> bool \<times> nat" where
  "utf8_decide a b c d =
     (if leads 1 a then (True, 1)
      else if leads 2 a then (if continues b then (True, 2) else (False, 1))
      else if leads 3 a then
        (if \<not> second_of_three a b then (False, 1)
         else if continues c then (True, 3) else (False, 2))
      else if leads 4 a then
        (if \<not> second_of_four a b then (False, 1)
         else if \<not> continues c then (False, 2)
         else if continues d then (True, 4) else (False, 3))
      else (False, 1))"

definition utf8_next :: "bytes \<Rightarrow> bool \<times> nat" where
  "utf8_next bs = utf8_decide (byte_at bs 0) (byte_at bs 1) (byte_at bs 2) (byte_at bs 3)"

lemma utf8_next_pos: "0 < snd (utf8_next bs)"
  by (simp add: utf8_next_def utf8_decide_def)

definition replacement :: bytes where
  "replacement = [0xEF, 0xBF, 0xBD]"

function from_utf8_lossy :: "bytes \<Rightarrow> bytes" where
  "from_utf8_lossy bs =
     (if bs = [] then []
      else (if fst (utf8_next bs) then take (snd (utf8_next bs)) bs else replacement)
             @ from_utf8_lossy (drop (snd (utf8_next bs)) bs))"
  by auto

termination from_utf8_lossy
  by (relation "measure length") (auto simp: utf8_next_pos)

function utf8_valid :: "bytes \<Rightarrow> bool" where
  "utf8_valid bs \<longleftrightarrow>
     (if bs = [] then True
      else if fst (utf8_next bs) then utf8_valid (drop (snd (utf8_next bs)) bs) else False)"
  by auto

termination utf8_valid
  by (relation "measure length") (auto simp: utf8_next_pos)

declare from_utf8_lossy.simps [simp del] utf8_valid.simps [simp del]

text \<open>A well-formed sequence lies within the bytes and is read again whatever follows.\<close>

lemma utf8_decide_True:
  assumes "utf8_decide a b c d = (True, n)"
  shows "n \<in> {1, 2, 3, 4}" "2 \<le> n \<Longrightarrow> b \<noteq> 0" "3 \<le> n \<Longrightarrow> c \<noteq> 0" "4 \<le> n \<Longrightarrow> d \<noteq> 0"
proof -
  have z: "\<not> continues 0" "\<not> second_of_three a 0" "\<not> second_of_four a 0"
    by (simp_all add: continues_def second_of_three_def second_of_four_def)
  show "n \<in> {1, 2, 3, 4}" using assms by (auto simp: utf8_decide_def split: if_splits)
  show "2 \<le> n \<Longrightarrow> b \<noteq> 0" "3 \<le> n \<Longrightarrow> c \<noteq> 0" "4 \<le> n \<Longrightarrow> d \<noteq> 0"
    using assms z by (auto simp: utf8_decide_def split: if_splits)
qed

lemma utf8_decide_front:
  "utf8_decide a b c d = (True, 1) \<Longrightarrow> utf8_decide a b' c' d' = (True, 1)"
  "utf8_decide a b c d = (True, 2) \<Longrightarrow> utf8_decide a b c' d' = (True, 2)"
  "utf8_decide a b c d = (True, 3) \<Longrightarrow> utf8_decide a b c d' = (True, 3)"
  by (auto simp: utf8_decide_def split: if_splits)

lemma byte_at_0: "byte_at bs i \<noteq> 0 \<Longrightarrow> i < length bs"
  by (auto simp: byte_at_def split: if_splits)

lemma utf8_next_length:
  assumes "bs \<noteq> []" "utf8_next bs = (True, n)"
  shows "n \<le> length bs"
proof -
  note d = utf8_decide_True [OF assms(2) [unfolded utf8_next_def]]
  have "1 \<le> length bs" using assms(1) by (cases bs) auto
  moreover have "2 \<le> n \<Longrightarrow> 1 < length bs" "3 \<le> n \<Longrightarrow> 2 < length bs" "4 \<le> n \<Longrightarrow> 3 < length bs"
    using d(2-4) byte_at_0 by blast+
  ultimately show ?thesis using d(1) by auto
qed

lemma byte_at_take_append:
  assumes "i < n" "n \<le> length bs"
  shows "byte_at (take n bs @ rest) i = byte_at bs i"
proof -
  have "i < length (take n bs)" using assms by simp
  then show ?thesis using assms by (simp add: byte_at_def nth_append del: length_take)
qed

lemma utf8_next_front:
  assumes "bs \<noteq> []" "utf8_next bs = (True, n)"
  shows "utf8_next (take n bs @ rest) = (True, n)"
proof -
  have len: "n \<le> length bs" using assms by (rule utf8_next_length)
  have same: "i < n \<Longrightarrow> byte_at (take n bs @ rest) i = byte_at bs i" for i
    using len by (simp add: byte_at_take_append)
  have dec: "utf8_decide (byte_at bs 0) (byte_at bs 1) (byte_at bs 2) (byte_at bs 3) = (True, n)"
    using assms(2) by (simp only: utf8_next_def)
  consider "n = 1" | "n = 2" | "n = 3" | "n = 4" using utf8_decide_True(1) [OF dec] by auto
  then show ?thesis
  proof cases
    case 1
    with same [of 0] utf8_decide_front(1) [OF dec [unfolded 1]] show ?thesis by (simp add: utf8_next_def)
  next
    case 2
    with same [of 0] same [of 1] utf8_decide_front(2) [OF dec [unfolded 2]] show ?thesis by (simp add: utf8_next_def)
  next
    case 3
    with same [of 0] same [of 1] same [of 2] utf8_decide_front(3) [OF dec [unfolded 3]]
    show ?thesis by (simp add: utf8_next_def)
  next
    case 4
    with same [of 0] same [of 1] same [of 2] same [of 3] dec show ?thesis by (simp add: utf8_next_def)
  qed
qed

lemma utf8_next_replacement: "utf8_next (replacement @ rest) = (True, 3)"
  by (simp add: utf8_next_def utf8_decide_def leads_def replacement_def byte_at_def
      second_of_three_def continues_def)

lemma utf8_valid_lossy: "utf8_valid (from_utf8_lossy bs)"
proof (induction bs rule: from_utf8_lossy.induct)
  case (1 bs)
  show ?case
  proof (cases "bs = []")
    case True
    then show ?thesis by (simp add: from_utf8_lossy.simps [of "[]"] utf8_valid.simps [of "[]"])
  next
    case False
    obtain ok n where nx: "utf8_next bs = (ok, n)" by fastforce
    let ?rest = "from_utf8_lossy (drop n bs)"
    have ih: "utf8_valid ?rest" using 1 False nx by simp
    show ?thesis
    proof (cases ok)
      case True
      have "length (take n bs) = n" using utf8_next_length [OF False] nx True by simp
      then have "utf8_valid (take n bs @ ?rest)"
        using utf8_next_front [OF False, of n ?rest] nx True ih by (subst utf8_valid.simps) simp
      with False nx True show ?thesis by (simp add: from_utf8_lossy.simps [of bs])
    next
      case no: False
      have "utf8_valid (replacement @ ?rest)"
        using utf8_next_replacement [of ?rest] ih
        by (subst utf8_valid.simps) (simp add: replacement_def numeral_3_eq_3)
      with False nx no show ?thesis by (simp add: from_utf8_lossy.simps [of bs])
    qed
  qed
qed

lemma lossy_valid: "utf8_valid bs \<Longrightarrow> from_utf8_lossy bs = bs"
proof (induction bs rule: from_utf8_lossy.induct)
  case (1 bs)
  show ?case
  proof (cases "bs = []")
    case True
    then show ?thesis by (simp add: from_utf8_lossy.simps [of "[]"])
  next
    case False
    then have "fst (utf8_next bs)" "utf8_valid (drop (snd (utf8_next bs)) bs)"
      using 1(2) by (auto simp: utf8_valid.simps [of bs] split: if_splits)
    with 1(1) [OF False] False show ?thesis by (simp add: from_utf8_lossy.simps [of bs])
  qed
qed

end
