(* ===== verification/Gateway.thy ===== *)
theory Gateway
  imports Messages Utf8
begin

section \<open>The HTTP front end of the gateway\<close>

text \<open>
  \<^verbatim>\<open>Gateway::handle_request\<close> of \<^verbatim>\<open>gateway/src/main.rs\<close>, split where it awaits the backend:
  \<open>gateway_receive\<close> is the part between the reading of the body and the call (it ends the handler
  when the body cannot be read), \<open>gateway_answer\<close> the part after the call. The JSON library is a parameter; an error is given by
  its display. The Prometheus statics belong to another crate: the handler returns the calls
  it makes to them, in order. The handler never returns the error of its type.
\<close>

subsection \<open>Parameters\<close>

text \<open>\<^verbatim>\<open>from_slice\<close>, \<^verbatim>\<open>Value::get\<close>, \<^verbatim>\<open>Value::as_str\<close>, and the text of the object
  \<^verbatim>\<open>json!\<close> builds from the message, the processing time and the time stamp.\<close>

record 'j json_api =
  js_parse :: "bytes \<Rightarrow> 'j option"
  js_get :: "'j \<Rightarrow> string \<Rightarrow> 'j option"
  js_as_str :: "'j \<Rightarrow> utf8 option"
  js_reply :: "utf8 \<Rightarrow> i64 \<Rightarrow> i64 \<Rightarrow> utf8"

datatype gateway_event =
    HTTP_REQUESTS_TOTAL_inc
  | GRPC_REQUESTS_TOTAL_inc
  | GRPC_REQUEST_DURATION_observe duration
  | HTTP_REQUEST_DURATION_observe duration

subsection \<open>The handler\<close>

definition ascii :: "string \<Rightarrow> utf8" where
  "ascii s = map of_char s"

record http_response =
  status :: nat
  response_headers :: "(string \<times> string) list"
  response_body :: utf8

definition bad_request :: http_response where
  "bad_request = \<lparr>status = 400, response_headers = [], response_body = ascii ''Bad Request''\<rparr>"

definition json_message :: "'j json_api \<Rightarrow> 'j \<Rightarrow> utf8" where
  "json_message js v =
     (case Option.bind (js_get js v ''message'') (js_as_str js) of Some m \<Rightarrow> m | None \<Rightarrow> [])"

text \<open>A body arrives in frames; an error of the connection ends it, trailers carry no data.\<close>

datatype body_frame = Data_frame bytes | Trailers_frame | Frame_error string

fun collect_body :: "body_frame list \<Rightarrow> string + bytes" where
  "collect_body [] = Inr []"
| "collect_body (Data_frame b # fs) =
     (case collect_body fs of Inl e \<Rightarrow> Inl e | Inr rest \<Rightarrow> Inr (b @ rest))"
| "collect_body (Trailers_frame # fs) = collect_body fs"
| "collect_body (Frame_error e # fs) = Inl e"

text \<open>The request for the backend: the path for an empty body, the member \<open>message\<close> of a JSON
  body, the text of any other body; \<open>elapsed\<close> is the time since the handler started.\<close>

definition echo_request :: "'j json_api \<Rightarrow> utf8 \<Rightarrow> duration \<Rightarrow> bytes \<Rightarrow> EchoRequest" where
  "echo_request js path elapsed body_bytes =
     (if body_bytes = []
      then \<lparr>req_message = path, req_timestamp_ns = as_nanos_i64 elapsed, req_payload = []\<rparr>
      else case js_parse js body_bytes of
        Some json \<Rightarrow> \<lparr>req_message = json_message js json, req_timestamp_ns = as_nanos_i64 elapsed,
                      req_payload = body_bytes\<rparr>
      | None \<Rightarrow> \<lparr>req_message = from_utf8_lossy body_bytes, req_timestamp_ns = as_nanos_i64 elapsed,
                 req_payload = body_bytes\<rparr>)"

definition gateway_receive ::
  "'j json_api \<Rightarrow> utf8 \<Rightarrow> duration \<Rightarrow> 'x + bytes \<Rightarrow> (http_response + EchoRequest) \<times> gateway_event list" where
  "gateway_receive js path elapsed collected =
     (case collected of
        Inl e \<Rightarrow> (Inl bad_request, [])
      | Inr body_bytes \<Rightarrow>
          (Inr (echo_request js path elapsed body_bytes), [GRPC_REQUESTS_TOTAL_inc]))"

definition gateway_answer ::
  "'j json_api \<Rightarrow> ('e \<Rightarrow> utf8) \<Rightarrow> duration \<Rightarrow> duration \<Rightarrow> 'e + EchoResponse \<Rightarrow> http_response \<times> gateway_event list" where
  "gateway_answer js display grpc_elapsed elapsed outcome =
     (case outcome of
        Inr resp \<Rightarrow>
          (\<lparr>status = 200, response_headers = [(''Content-Type'', ''application/json'')],
            response_body = js_reply js (resp_message resp) (resp_processing_time_us resp) (resp_timestamp_ns resp)\<rparr>,
           [GRPC_REQUEST_DURATION_observe grpc_elapsed, HTTP_REQUEST_DURATION_observe elapsed])
      | Inl e \<Rightarrow>
          (\<lparr>status = 503, response_headers = [],
            response_body = ascii ''Service Unavailable: '' @ display e\<rparr>,
           [HTTP_REQUEST_DURATION_observe elapsed]))"

text \<open>The whole handler over a backend that answers \<open>call\<close>.\<close>

definition handle_request ::
  "'j json_api \<Rightarrow> ('e \<Rightarrow> utf8) \<Rightarrow> utf8 \<Rightarrow> duration \<Rightarrow> duration \<Rightarrow> duration \<Rightarrow> 'x + bytes
   \<Rightarrow> (EchoRequest \<Rightarrow> 'e + EchoResponse) \<Rightarrow> http_response \<times> gateway_event list" where
  "handle_request js display path d1 d2 d3 collected call =
     (case gateway_receive js path d1 collected of
        (Inl r, es) \<Rightarrow> (r, HTTP_REQUESTS_TOTAL_inc # es)
      | (Inr req, es) \<Rightarrow>
          (let (r, es') = gateway_answer js display d2 d3 (call req) in (r, HTTP_REQUESTS_TOTAL_inc # es @ es')))"

lemma echo_request_payload [simp]: "req_payload (echo_request js path d b) = b"
  by (simp add: echo_request_def split: option.splits)

text \<open>How a body is cut into frames does not matter.\<close>

lemma collect_body_data: "collect_body (map Data_frame bs) = Inr (concat bs)"
  by (induction bs) simp_all

lemma collect_body_append:
  "collect_body (fs @ gs) = (case collect_body fs of
     Inl e \<Rightarrow> Inl e
   | Inr b \<Rightarrow> (case collect_body gs of Inl e \<Rightarrow> Inl e | Inr b' \<Rightarrow> Inr (b @ b')))"
  by (induction fs rule: collect_body.induct) (auto split: sum.split)

subsection \<open>Strings\<close>

text \<open>What a JSON library promises of the strings it returns.\<close>

definition json_strings :: "'j json_api \<Rightarrow> bool" where
  "json_strings js \<longleftrightarrow> (\<forall>v m. js_as_str js v = Some m \<longrightarrow> utf8_valid m)"

lemma utf8_valid_Nil [simp]: "utf8_valid []"
  by (simp add: utf8_valid.simps)

lemma echo_request_utf8:
  assumes "json_strings js" "utf8_valid path"
  shows "utf8_valid (req_message (echo_request js path d b))"
proof -
  have "utf8_valid (json_message js v)" for v
    using assms(1) by (auto simp: json_message_def json_strings_def split: option.splits Option.bind_splits)
  then show ?thesis
    using assms(2) utf8_valid_lossy by (auto simp: echo_request_def split: option.splits)
qed

subsection \<open>A reference instance\<close>

text \<open>A body is JSON when it is a quoted string; such a value has itself as its member
  \<open>message\<close>. The reply is the message in quotes.\<close>

definition ref_js :: "utf8 json_api" where
  "ref_js = \<lparr>js_parse = (\<lambda>b. if 2 \<le> length b \<and> hd b = 34 \<and> last b = 34 \<and> utf8_valid (butlast (tl b))
        then Some (butlast (tl b)) else None),
     js_get = (\<lambda>v k. if k = ''message'' then Some v else None),
     js_as_str = (\<lambda>v. if utf8_valid v then Some v else None),
     js_reply = (\<lambda>m us ns. 34 # m @ [34])\<rparr>"

lemma ref_js_strings: "json_strings ref_js"
  by (simp add: json_strings_def ref_js_def)

subsection \<open>Properties\<close>

text \<open>The handler answers every request: with 400 exactly when the body cannot be read (and then
  the backend is not called), with 200 and the backend's message exactly when the backend answered,
  with 503 otherwise. It calls the backend at most once, with the request built from the body; the
  counters are advanced accordingly, the HTTP duration only when the backend was called.\<close>

lemma handle_request_answers:
  "case collected of
     Inl e \<Rightarrow> handle_request js display path d1 d2 d3 (collected :: 'x + bytes) call
         = (bad_request, [HTTP_REQUESTS_TOTAL_inc])
   | Inr b \<Rightarrow>
       (case call (echo_request js path d1 b) of
          Inr resp \<Rightarrow> status (fst (handle_request js display path d1 d2 d3 collected call)) = 200
            \<and> response_body (fst (handle_request js display path d1 d2 d3 collected call))
                = js_reply js (resp_message resp) (resp_processing_time_us resp) (resp_timestamp_ns resp)
            \<and> snd (handle_request js display path d1 d2 d3 collected call)
                = [HTTP_REQUESTS_TOTAL_inc, GRPC_REQUESTS_TOTAL_inc, GRPC_REQUEST_DURATION_observe d2,
                   HTTP_REQUEST_DURATION_observe d3]
        | Inl e \<Rightarrow> status (fst (handle_request js display path d1 d2 d3 collected call)) = 503
            \<and> snd (handle_request js display path d1 d2 d3 collected call)
                = [HTTP_REQUESTS_TOTAL_inc, GRPC_REQUESTS_TOTAL_inc, HTTP_REQUEST_DURATION_observe d3])"
  by (auto simp: handle_request_def gateway_receive_def gateway_answer_def split: sum.splits)

text \<open>C39. Whatever bytes a client sends, the message the gateway forwards is well-formed UTF-8, as the
  type of the field demands, and the payload is the body unchanged; a body that is not JSON but
  is well-formed UTF-8 is forwarded as it is.\<close>

theorem echo_request_wellformed:
  assumes "json_strings js" "utf8_valid path"
  shows "utf8_valid (req_message (echo_request js path d b)) \<and> req_payload (echo_request js path d b) = b
    \<and> (b \<noteq> [] \<and> js_parse js b = None \<and> utf8_valid b \<longrightarrow> req_message (echo_request js path d b) = b)"
proof -
  have "b \<noteq> [] \<and> js_parse js b = None \<and> utf8_valid b \<longrightarrow> req_message (echo_request js path d b) = b"
    by (simp add: echo_request_def lossy_valid)
  with echo_request_utf8 [OF assms] show ?thesis by simp
qed

lemma echo_request_wellformed_witness:
  "utf8_valid (req_message (echo_request ref_js [47] 5 [104, 0xC3, 105]))"
proof -
  have "utf8_valid [47]" by (simp add: utf8_valid.simps [of "[47]"] utf8_next_def utf8_decide_def leads_def byte_at_def)
  with echo_request_wellformed [OF ref_js_strings] show ?thesis by blast
qed

end
