(* ===== verification/Transports.thy ===== *)
theory Transports
  imports Uds_Properties Shm_Eventfd Shm_Polling Gateway
begin

section \<open>The transports of the gateway\<close>

text \<open>
  \<^verbatim>\<open>TcpTransport\<close>, \<^verbatim>\<open>UdsTransport\<close> and \<^verbatim>\<open>TransportEnum\<close> of \<^verbatim>\<open>gateway/src/transport.rs\<close>. The
  two gRPC transports call the client of the \<^verbatim>\<open>tonic\<close> library, whose answer to a call is an
  input of the step in which it arrives. The enumeration passes every operation on to the
  transport it holds. The contract of a transport that the HTTP handler relies on, that a call
  returns an answer to its own request, is a locale with the two notified transports as
  instances.
\<close>

subsection \<open>The gRPC transports\<close>

text \<open>The calls made through a client, each with the answer once it has arrived.\<close>

record tonic_client =
  tonic_calls :: "(EchoRequest \<times> (string + EchoResponse) option) list"

definition tonic_start :: "EchoRequest \<Rightarrow> tonic_client \<Rightarrow> tonic_client" where
  "tonic_start req c = c\<lparr>tonic_calls := tonic_calls c @ [(req, None)]\<rparr>"

definition tonic_arrive :: "nat \<Rightarrow> string + EchoResponse \<Rightarrow> tonic_client \<Rightarrow> tonic_client option" where
  "tonic_arrive k answer c =
     (if k < length (tonic_calls c) \<and> snd (tonic_calls c ! k) = None
      then Some (c\<lparr>tonic_calls := (tonic_calls c)[k := (fst (tonic_calls c ! k), Some answer)]\<rparr>)
      else None)"

text \<open>\<^verbatim>\<open>call\<close> of both: a status is the error, a response is unwrapped.\<close>

definition tcp_call :: "tonic_client \<Rightarrow> nat \<Rightarrow> (string + EchoResponse) option" where
  "tcp_call c k = (if k < length (tonic_calls c) then snd (tonic_calls c ! k) else None)"

definition grpc_uds_call :: "tonic_client \<Rightarrow> nat \<Rightarrow> (string + EchoResponse) option" where
  "grpc_uds_call c k = (if k < length (tonic_calls c) then snd (tonic_calls c ! k) else None)"

subsection \<open>Results of the shared-memory transports\<close>

fun outcome_result :: "('e, 'a) outcome \<Rightarrow> ('e + 'a) option" where
  "outcome_result (Ok x) = Some (Inr x)"
| "outcome_result (Err e) = Some (Inl e)"
| "outcome_result (Fault f) = None"

definition rpc_result :: "'z rpc_scheme \<Rightarrow> nat \<Rightarrow> (call_error + EchoResponse) option" where
  "rpc_result s k =
     (if k < length (calls s) then
        (case call_phase (calls s ! k) of Finished r \<Rightarrow> outcome_result r | _ \<Rightarrow> None)
      else None)"

definition rpc_request :: "'z rpc_scheme \<Rightarrow> nat \<Rightarrow> EchoRequest option" where
  "rpc_request s k = (if k < length (calls s) then Some (call_req (calls s ! k)) else None)"

definition poll_result :: "polling \<Rightarrow> nat \<Rightarrow> (poll_error + EchoResponse) option" where
  "poll_result s k =
     (if k < length (pcalls s) then
        (case pcall_phase (pcalls s ! k) of PFinished r \<Rightarrow> outcome_result r | _ \<Rightarrow> None)
      else None)"

definition poll_request :: "polling \<Rightarrow> nat \<Rightarrow> EchoRequest option" where
  "poll_request s k = (if k < length (pcalls s) then Some (pcall_req (pcalls s ! k)) else None)"

subsection \<open>The enumeration\<close>

datatype ('n, 'k) TransportEnum =
    Tcp tonic_client
  | Uds tonic_client
  | Shm polling
  | ShmUds "'n uds"
  | ShmEventfd "'k efd_rpc"

datatype transport_error =
    Tonic_status string
  | Polling_error poll_error
  | Call_error call_error

text \<open>The identifier is the fresh one a notified transport draws.\<close>

fun transport_start :: "utf8 \<Rightarrow> EchoRequest \<Rightarrow> ('n, 'k) TransportEnum \<Rightarrow> ('n, 'k) TransportEnum" where
  "transport_start i req (Tcp t) = Tcp (tonic_start req t)"
| "transport_start i req (Uds t) = Uds (tonic_start req t)"
| "transport_start i req (Shm t) = Shm (poll_start req t)"
| "transport_start i req (ShmUds t) = ShmUds (rpc_insert i req t)"
| "transport_start i req (ShmEventfd t) = ShmEventfd (rpc_insert i req t)"

text \<open>One step of call \<open>k\<close>; \<open>d\<close> is the time it has been polling, \<open>answer\<close> what the client gets.\<close>

fun transport_advance ::
  "json_codec \<Rightarrow> codec \<Rightarrow> 'n sock_sys \<Rightarrow> 'k efd_sys \<Rightarrow> nat \<Rightarrow> duration \<Rightarrow> string + EchoResponse
   \<Rightarrow> ('n, 'k) TransportEnum \<Rightarrow> ('n, 'k) TransportEnum option" where
  "transport_advance js c ss es k d answer (Tcp t) = map_option Tcp (tonic_arrive k answer t)"
| "transport_advance js c ss es k d answer (Uds t) = map_option Uds (tonic_arrive k answer t)"
| "transport_advance js c ss es k d answer (Shm t) = map_option Shm (poll_call js k d t)"
| "transport_advance js c ss es k d answer (ShmUds t) = map_option ShmUds (uds_call c ss k t)"
| "transport_advance js c ss es k d answer (ShmEventfd t) = map_option ShmEventfd (efd_call c es k t)"

text \<open>What call \<open>k\<close> has returned.\<close>

fun transport_call :: "('n, 'k) TransportEnum \<Rightarrow> nat \<Rightarrow> (transport_error + EchoResponse) option" where
  "transport_call (Tcp t) k = map_option (map_sum Tonic_status id) (tcp_call t k)"
| "transport_call (Uds t) k = map_option (map_sum Tonic_status id) (grpc_uds_call t k)"
| "transport_call (Shm t) k = map_option (map_sum Polling_error id) (poll_result t k)"
| "transport_call (ShmUds t) k = map_option (map_sum Call_error id) (rpc_result t k)"
| "transport_call (ShmEventfd t) k = map_option (map_sum Call_error id) (rpc_result t k)"

subsection \<open>The contract the handler relies on\<close>

locale echo_transport =
  fixes session :: "'s \<Rightarrow> bool"
    and request_of :: "'s \<Rightarrow> nat \<Rightarrow> EchoRequest option"
    and result_of :: "'s \<Rightarrow> nat \<Rightarrow> ('e + EchoResponse) option"
  assumes echoes_own: "session s \<Longrightarrow> request_of s k = Some req \<Longrightarrow> result_of s k = Some (Inr resp) \<Longrightarrow>
      echoes req resp"
begin

text \<open>Over such a transport an HTTP client gets a failure or its own message.\<close>

lemma http_own_message:
  assumes "session s" "request_of s k = Some (echo_request js path d b)" "result_of s k = Some r"
  shows "status (fst (gateway_answer js display d2 d3 r)) = 503
    \<or> (\<exists>us ns. fst (gateway_answer js display d2 d3 r)
        = \<lparr>status = 200, response_headers = [(''Content-Type'', ''application/json'')],
           response_body = js_reply js (req_message (echo_request js path d b)) us ns\<rparr>)"
proof (cases r)
  case (Inl e)
  then show ?thesis by (simp add: gateway_answer_def)
next
  case (Inr resp)
  then have "resp_message resp = req_message (echo_request js path d b)"
    using echoes_own [OF assms(1,2)] assms(3) by (simp add: echoes_def)
  with Inr show ?thesis by (auto simp: gateway_answer_def)
qed

end

text \<open>A state of the socket-notified transport, or of the eventfd-notified one, that a run from
  two empty rings reaches.\<close>

definition uds_session :: "'n uds \<Rightarrow> bool" where
  "uds_session s \<longleftrightarrow>
     (\<exists>c sys unread rq rp k0 delay. codec_laws c \<and> sock_laws sys unread \<and> ring_rep rq [] \<and> ring_rep rp []
        \<and> unread k0 Gateway_End = [] \<and> unread k0 Backend_End = []
        \<and> uds_reach c sys delay (uds_boot rq rp k0) s \<and> fresh_ids s)"

definition efd_session :: "'k efd_rpc \<Rightarrow> bool" where
  "efd_session s \<longleftrightarrow>
     (\<exists>c sys view rq rp gs bs k0 delay. codec_laws c \<and> efd_laws sys view
        \<and> ring_rep rq [] \<and> ring_rep rp []
        \<and> efd_fresh view k0 gs bs
        \<and> efd_reach c sys delay (efd_boot rq rp gs bs k0) s \<and> fresh_ids s)"

lemma rpc_result_Ok:
  "rpc_result s k = Some (Inr resp) \<longleftrightarrow>
     k < length (calls s) \<and> call_phase (calls s ! k) = Finished (Ok resp)"
proof -
  have "outcome_result r = Some (Inr resp) \<longleftrightarrow> r = Ok resp" for r :: "(call_error, EchoResponse) outcome"
    by (cases r) auto
  then show ?thesis by (auto simp: rpc_result_def split: call_phase.splits)
qed

lemma rpc_inv_own:
  assumes "rpc_inv c s qs ps" "rpc_request s k = Some req" "rpc_result s k = Some (Inr resp)"
  shows "echoes req resp"
proof -
  have k: "k < length (calls s)" "call_phase (calls s ! k) = Finished (Ok resp)"
    using assms(3) by (simp_all add: rpc_result_Ok)
  then show ?thesis
    using call_invD [OF assms(1) k(1)] assms(2) by (simp add: call_inv_def Let_def rpc_request_def)
qed

lemma uds_session_inv:
  assumes "uds_session s"
  obtains c qs ps where "rpc_inv c s qs ps"
proof -
  from assms obtain c sys unread rq rp k0 delay where
    "codec_laws c" "sock_laws sys unread" "ring_rep rq []" "ring_rep rp []"
    "unread k0 Gateway_End = []" "unread k0 Backend_End = []"
    "uds_reach c sys delay (uds_boot rq rp k0) s" "fresh_ids s"
    unfolding uds_session_def by (elim exE conjE)
  from uds_run_inv [OF this] obtain qs ps where "uds_inv c unread s qs ps" by (elim exE)
  then have "rpc_inv c s qs ps" by (rule uds_inv_rpc)
  then show ?thesis by (rule that)
qed

lemma efd_session_inv:
  assumes "efd_session s"
  obtains c qs ps where "rpc_inv c s qs ps"
proof -
  from assms obtain c sys view rq rp gs bs k0 delay where
    "codec_laws c" "efd_laws sys view" "ring_rep rq []" "ring_rep rp []"
    "efd_fresh view k0 gs bs"
    "efd_reach c sys delay (efd_boot rq rp gs bs k0) s" "fresh_ids s"
    unfolding efd_session_def by (elim exE conjE)
  from efd_run_inv [OF this] obtain qs ps where "efd_inv c view s qs ps" by (elim exE)
  then have "rpc_inv c s qs ps" by (rule efd_inv_rpc)
  then show ?thesis by (rule that)
qed

interpretation uds_transport: echo_transport uds_session rpc_request rpc_result
  by unfold_locales (elim uds_session_inv, rule rpc_inv_own)

interpretation efd_transport: echo_transport efd_session rpc_request rpc_result
  by unfold_locales (elim efd_session_inv, rule rpc_inv_own)

subsection \<open>The enumeration under the contract\<close>

text \<open>The two transports that keep the contract; the gRPC ones depend on the library, and the
  polling one does not keep it.\<close>

fun transport_session :: "('n, 'k) TransportEnum \<Rightarrow> bool" where
  "transport_session (ShmUds s) = uds_session s"
| "transport_session (ShmEventfd s) = efd_session s"
| "transport_session _ = False"

fun transport_request :: "('n, 'k) TransportEnum \<Rightarrow> nat \<Rightarrow> EchoRequest option" where
  "transport_request (Tcp t) k = (if k < length (tonic_calls t) then Some (fst (tonic_calls t ! k)) else None)"
| "transport_request (Uds t) k = (if k < length (tonic_calls t) then Some (fst (tonic_calls t ! k)) else None)"
| "transport_request (Shm t) k = poll_request t k"
| "transport_request (ShmUds t) k = rpc_request t k"
| "transport_request (ShmEventfd t) k = rpc_request t k"

interpretation any_transport: echo_transport transport_session transport_request transport_call
proof unfold_locales
  fix t :: "('n, 'k) TransportEnum" and k req resp
  assume s: "transport_session t" and q: "transport_request t k = Some req"
    and r: "transport_call t k = Some (Inr resp)"
  have inr: "map_option (map_sum Call_error id) x = Some (Inr resp) \<Longrightarrow> x = Some (Inr resp)"
    for x :: "(call_error + EchoResponse) option"
    by (cases x; cases "the x") auto
  show "echoes req resp"
  proof (cases t)
    case (ShmUds u)
    with s q inr [of "rpc_result u k"] r show ?thesis
      using uds_transport.echoes_own [of u k req resp] by simp
  next
    case (ShmEventfd u)
    with s q inr [of "rpc_result u k"] r show ?thesis
      using efd_transport.echoes_own [of u k req resp] by simp
  qed (use s in simp_all)
qed

end
