(* ===== verification/F64.thy ===== *)
theory F64
  imports Prelude Complex_Main
begin

section \<open>The double-precision arithmetic of the metrics\<close>

text \<open>
  A finite \<^verbatim>\<open>f64\<close> is the rational number it denotes (the sign of zero, which no operation
  of the source observes, is not kept); a result is rounded to the nearest double, ties to
  even, with 53 bits of precision, subnormals below \<open>2 ^ -1022\<close> and overflow to infinity. Only
  the operations the source uses are defined: addition, multiplication, division, the
  comparisons, and the casts from and to \<^verbatim>\<open>u64\<close>.
\<close>

subsection \<open>Powers of two and the exponent of a rational\<close>

definition pow2 :: "int \<Rightarrow> rat" where
  "pow2 e = (if 0 \<le> e then 2 ^ nat e else 1 / 2 ^ nat (- e))"

lemma pow2_pos [simp]: "0 < pow2 e"
  by (simp add: pow2_def)

lemma pow2_nonneg [simp]: "0 \<le> pow2 e"
  using pow2_pos [of e] by linarith

lemma pow2_neq_0 [simp]: "pow2 e \<noteq> 0"
  using pow2_pos [of e] by linarith

lemma pow2_0 [simp]: "pow2 0 = 1"
  by (simp add: pow2_def)

lemma pow2_Suc: "pow2 (e + 1) = 2 * pow2 e"
proof (cases "0 \<le> e")
  case True
  then have "nat (e + 1) = Suc (nat e)" by simp
  with True show ?thesis by (simp add: pow2_def)
next
  case False
  show ?thesis
  proof (cases "e = -1")
    case True
    then show ?thesis by (simp add: pow2_def)
  next
    case False
    with \<open>\<not> 0 \<le> e\<close> have "nat (- e) = Suc (nat (- (e + 1)))" by simp
    with \<open>\<not> 0 \<le> e\<close> False show ?thesis by (simp add: pow2_def)
  qed
qed

lemma pow2_add_nat: "pow2 (e + int n) = pow2 e * 2 ^ n"
proof (induction n)
  case (Suc n)
  have "e + int (Suc n) = (e + int n) + 1" by simp
  then have "pow2 (e + int (Suc n)) = 2 * pow2 (e + int n)" by (simp only: pow2_Suc)
  with Suc show ?case by simp
qed simp

lemma pow2_mono: "e \<le> f \<Longrightarrow> pow2 e \<le> pow2 f"
proof -
  assume "e \<le> f"
  then have "pow2 f = pow2 e * 2 ^ nat (f - e)" using pow2_add_nat [of e "nat (f - e)"] by simp
  moreover have "(1::rat) \<le> 2 ^ nat (f - e)" by simp
  ultimately show ?thesis using mult_left_mono [of 1 "2 ^ nat (f - e)" "pow2 e"] by simp
qed

lemma pow2_add: "pow2 (e + f) = pow2 e * pow2 f"
proof (cases "0 \<le> f")
  case True
  then show ?thesis using pow2_add_nat [of e "nat f"] pow2_add_nat [of 0 "nat f"] by simp
next
  case False
  have "pow2 e = pow2 (e + f) * 2 ^ nat (- f)" using False pow2_add_nat [of "e + f" "nat (- f)"] by simp
  moreover have "pow2 f * 2 ^ nat (- f) = 1" using False pow2_add_nat [of f "nat (- f)"] by simp
  ultimately show ?thesis by (metis mult.assoc mult.commute mult.right_neutral)
qed

fun ilog2 :: "nat \<Rightarrow> nat" where
  "ilog2 n = (if n < 2 then 0 else Suc (ilog2 (n div 2)))"

declare ilog2.simps [simp del]

lemma ilog2_bounds: "0 < n \<Longrightarrow> 2 ^ ilog2 n \<le> n \<and> n < 2 ^ Suc (ilog2 n)"
proof (induction n rule: ilog2.induct)
  case (1 n)
  show ?case
  proof (cases "n < 2")
    case True
    with 1 show ?thesis by (simp add: ilog2.simps [of n])
  next
    case False
    then have "2 ^ ilog2 (n div 2) \<le> n div 2 \<and> n div 2 < 2 ^ Suc (ilog2 (n div 2))" using 1 by simp
    then have "2 * 2 ^ ilog2 (n div 2) \<le> n" "n < 2 * 2 ^ Suc (ilog2 (n div 2))" by linarith+
    with False show ?thesis by (simp add: ilog2.simps [of n])
  qed
qed

text \<open>The exponent of the leading bit of a positive rational.\<close>

definition rat_exp :: "rat \<Rightarrow> int" where
  "rat_exp q = (let (n, d) = quotient_of q; e = int (ilog2 (nat n)) - int (ilog2 (nat d)) in
     if pow2 e \<le> q then e else e - 1)"

lemma rat_exp_bounds:
  assumes "0 < q"
  shows "pow2 (rat_exp q) \<le> q" "q < pow2 (rat_exp q + 1)"
proof -
  obtain n d where nd: "quotient_of q = (n, d)" by fastforce
  have d: "0 < d" using quotient_of_denom_pos [OF nd] .
  have q: "q = of_int n / of_int d" using quotient_of_div [OF nd] .
  then have n: "0 < n" using assms d by (simp add: zero_less_divide_iff)
  define a where "a = ilog2 (nat n)"
  define b where "b = ilog2 (nat d)"
  have A: "2 ^ a \<le> nat n" "nat n < 2 ^ Suc a" using ilog2_bounds [of "nat n"] n by (simp_all add: a_def)
  have B: "2 ^ b \<le> nat d" "nat d < 2 ^ Suc b" using ilog2_bounds [of "nat d"] d by (simp_all add: b_def)
  have rn: "(of_int n :: rat) = of_nat (nat n)" "(of_int d :: rat) = of_nat (nat d)" using n d by simp_all
  have An: "(2::rat) ^ a \<le> of_int n" "of_int n < (2::rat) ^ Suc a"
    using A unfolding rn by (metis of_nat_le_iff of_nat_numeral of_nat_power)
      (metis A(2) of_nat_less_iff of_nat_numeral of_nat_power)
  have Bn: "(2::rat) ^ b \<le> of_int d" "of_int d < (2::rat) ^ Suc b"
    using B unfolding rn by (metis of_nat_le_iff of_nat_numeral of_nat_power)
      (metis B(2) of_nat_less_iff of_nat_numeral of_nat_power)
  define e where "e = int a - int b"
  have pe: "pow2 e * 2 ^ b = 2 ^ a" using pow2_add_nat [of e b] pow2_add_nat [of 0 a] by (simp add: e_def)
  have pos: "(0::rat) < of_int d" using d by simp
  have up: "q < pow2 (e + 1)"
  proof -
    have "of_int n < 2 * (pow2 e * 2 ^ b)" using An(2) by (simp add: pe)
    also have "\<dots> \<le> 2 * (pow2 e * of_int d)" using Bn(1) by (simp add: mult_left_mono)
    finally show ?thesis using pos by (simp add: q pow2_Suc divide_less_eq mult.assoc)
  qed
  have low: "pow2 (e - 1) \<le> q"
  proof -
    have half: "2 * pow2 (e - 1) = pow2 e" using pow2_Suc [of "e - 1"] by simp
    have "pow2 (e - 1) * of_int d \<le> pow2 (e - 1) * 2 ^ Suc b"
      using Bn(2) by (intro mult_left_mono) auto
    also have "\<dots> = pow2 e * 2 ^ b" by (simp add: half [symmetric])
    also have "\<dots> \<le> of_int n" using An(1) by (simp add: pe)
    finally show ?thesis using pos by (simp add: q le_divide_eq)
  qed
  have re: "rat_exp q = (if pow2 e \<le> q then e else e - 1)"
    by (simp add: rat_exp_def nd a_def b_def e_def Let_def)
  show "pow2 (rat_exp q) \<le> q" "q < pow2 (rat_exp q + 1)" using re up low by auto
qed

subsection \<open>Rounding\<close>

definition round_half_even :: "rat \<Rightarrow> int" where
  "round_half_even x =
     (let f = \<lfloor>x\<rfloor>; r = x - of_int f in
      if r < 1 / 2 \<or> (r = 1 / 2 \<and> even f) then f else f + 1)"

lemma round_half_even_int [simp]: "round_half_even (of_int n) = n"
  by (simp add: round_half_even_def Let_def)

lemma round_half_even_error: "\<bar>of_int (round_half_even x) - x\<bar> \<le> 1 / 2"
proof -
  have "of_int \<lfloor>x\<rfloor> \<le> x" "x < of_int \<lfloor>x\<rfloor> + 1" by (simp, linarith)
  then show ?thesis by (auto simp: round_half_even_def Let_def abs_le_iff)
qed

lemma round_half_even_nonneg: "0 \<le> x \<Longrightarrow> 0 \<le> round_half_even x"
  using round_half_even_error [of x] by (auto simp: round_half_even_def Let_def)

datatype f64 = Finite rat | PosInf | NegInf | NaN

definition ulp :: "rat \<Rightarrow> rat" where
  "ulp q = pow2 (max (rat_exp q - 52) (- 1074))"

definition round_pos :: "rat \<Rightarrow> rat" where
  "round_pos q = of_int (round_half_even (q / ulp q)) * ulp q"

definition round_f64 :: "rat \<Rightarrow> f64" where
  "round_f64 q =
     (if q = 0 then Finite 0
      else let r = round_pos \<bar>q\<bar> in
        if r < pow2 1024 then Finite (if 0 < q then r else - r)
        else if 0 < q then PosInf else NegInf)"


lemma exponent_unique:
  assumes "pow2 a \<le> q" "q < pow2 (a + 1)" "pow2 b \<le> q" "q < pow2 (b + 1)"
  shows "a = b"
proof (rule ccontr)
  assume "a \<noteq> b"
  then have "a + 1 \<le> b \<or> b + 1 \<le> a" by linarith
  with pow2_mono [of "a + 1" b] pow2_mono [of "b + 1" a] assms show False by fastforce
qed

lemma pow2_nat: "pow2 (int n) = 2 ^ n"
  by (simp add: pow2_def)

text \<open>Numbers with a 53-bit mantissa are not changed.\<close>

lemma round_exact:
  assumes n: "0 < n" "n < 2 ^ 53" and e: "- 1074 \<le> e" and q: "q = of_nat n * pow2 e" "q < pow2 1024"
  shows "round_f64 q = Finite q"
proof -
  have pos: "0 < q" using n by (simp add: q)
  define l where "l = ilog2 n"
  have l: "2 ^ l \<le> n" "n < 2 ^ Suc l" using ilog2_bounds [OF n(1)] by (simp_all add: l_def)
  then have "(2::nat) ^ l < 2 ^ 53" using n(2) by linarith
  then have l52: "l \<le> 52" using power_less_imp_less_exp [of "2::nat" l 53] by simp
  have lr: "(2::rat) ^ l \<le> of_nat n" "of_nat n < (2::rat) ^ Suc l"
    using l by (metis of_nat_le_iff of_nat_numeral of_nat_power)
      (metis l(2) of_nat_less_iff of_nat_numeral of_nat_power)
  have "pow2 (int l + e) \<le> q"
    using lr(1) by (simp add: pow2_add pow2_nat q mult_right_mono)
  moreover have "int l + e + 1 = int (Suc l) + e" by simp
  then have "q < pow2 (int l + e + 1)"
    using lr(2) mult_strict_right_mono [OF lr(2) pow2_pos [of e]] by (simp only: pow2_add pow2_nat q)
  ultimately have re: "rat_exp q = int l + e"
    using exponent_unique [of "rat_exp q" q "int l + e"] rat_exp_bounds [OF pos] by simp
  define u where "u = max (rat_exp q - 52) (- 1074)"
  have ue: "u \<le> e" using re l52 e by (simp add: u_def)
  have split: "pow2 e = 2 ^ nat (e - u) * pow2 u"
    using pow2_add_nat [of u "nat (e - u)"] ue by (simp add: mult.commute)
  have qu: "q = of_int (int n * 2 ^ nat (e - u)) * pow2 u" by (simp add: q(1) split)
  then have "q / pow2 u = of_int (int n * 2 ^ nat (e - u))" by simp
  then have r: "round_half_even (q / pow2 u) = int n * 2 ^ nat (e - u)"
    by (simp only: round_half_even_int)
  have "ulp q = pow2 u" by (simp only: ulp_def u_def)
  then have "round_pos q = q" unfolding round_pos_def using r qu by simp
  then show ?thesis using pos q(2) by (simp add: round_f64_def Let_def)
qed

text \<open>The relative error of a normal result.\<close>

lemma round_pos_error:
  assumes "pow2 (- 1022) \<le> q"
  shows "\<bar>round_pos q - q\<bar> \<le> q / 2 ^ 53"
proof -
  have pos: "0 < q" using assms pow2_pos [of "- 1022"] by linarith
  note b = rat_exp_bounds [OF pos]
  have "- 1022 < rat_exp q + 1"
  proof (rule ccontr)
    assume "\<not> - 1022 < rat_exp q + 1"
    then have "pow2 (rat_exp q + 1) \<le> pow2 (- 1022)" by (intro pow2_mono) simp
    with b(2) assms show False by linarith
  qed
  then have "max (rat_exp q - 52) (- 1074) = rat_exp q - 52" by simp
  then have u: "ulp q = pow2 (rat_exp q - 52)" by (simp add: ulp_def)
  have "pow2 (rat_exp q) = pow2 (rat_exp q - 52) * 2 ^ 52"
    using pow2_add_nat [of "rat_exp q - 52" 52] by simp
  then have half: "ulp q / 2 \<le> q / 2 ^ 53" using b(1) by (simp add: u)
  have up: "0 < ulp q" by (simp add: ulp_def)
  have "round_pos q - q = (of_int (round_half_even (q / ulp q)) - q / ulp q) * ulp q"
    using up by (simp add: round_pos_def left_diff_distrib)
  then have "\<bar>round_pos q - q\<bar> = \<bar>of_int (round_half_even (q / ulp q)) - q / ulp q\<bar> * ulp q"
    using up by (simp add: abs_mult)
  also have "\<dots> \<le> 1 / 2 * ulp q"
    using round_half_even_error [of "q / ulp q"] up by (intro mult_right_mono) simp_all
  finally show ?thesis using half by simp
qed

lemma round_pos_nonneg: "0 < q \<Longrightarrow> 0 \<le> round_pos q"
  using round_half_even_nonneg [of "q / ulp q"]
  by (simp add: round_pos_def ulp_def divide_nonneg_pos)

subsection \<open>Operations\<close>

fun f64_le :: "f64 \<Rightarrow> f64 \<Rightarrow> bool" where
  "f64_le (Finite a) (Finite b) = (a \<le> b)"
| "f64_le NaN b = False"
| "f64_le a NaN = False"
| "f64_le NegInf b = True"
| "f64_le a PosInf = True"
| "f64_le PosInf b = False"
| "f64_le a NegInf = False"

fun f64_lt :: "f64 \<Rightarrow> f64 \<Rightarrow> bool" where
  "f64_lt (Finite a) (Finite b) = (a < b)"
| "f64_lt NaN b = False"
| "f64_lt a NaN = False"
| "f64_lt PosInf b = False"
| "f64_lt a NegInf = False"
| "f64_lt NegInf b = True"
| "f64_lt a PosInf = True"

definition f64_inf :: "bool \<Rightarrow> f64" where
  "f64_inf positive = (if positive then PosInf else NegInf)"

fun f64_mul :: "f64 \<Rightarrow> f64 \<Rightarrow> f64" where
  "f64_mul (Finite a) (Finite b) = round_f64 (a * b)"
| "f64_mul NaN b = NaN"
| "f64_mul a NaN = NaN"
| "f64_mul (Finite a) b = (if a = 0 then NaN else f64_inf ((0 < a) = (b = PosInf)))"
| "f64_mul a (Finite b) = (if b = 0 then NaN else f64_inf ((0 < b) = (a = PosInf)))"
| "f64_mul a b = f64_inf (a = b)"

text \<open>Division; a zero divisor counts as positive.\<close>

fun f64_div :: "f64 \<Rightarrow> f64 \<Rightarrow> f64" where
  "f64_div (Finite a) (Finite b) =
     (if b = 0 then (if a = 0 then NaN else f64_inf (0 < a)) else round_f64 (a / b))"
| "f64_div NaN b = NaN"
| "f64_div a NaN = NaN"
| "f64_div (Finite a) b = Finite 0"
| "f64_div a (Finite b) = f64_inf ((0 \<le> b) = (a = PosInf))"
| "f64_div a b = NaN"

fun f64_add :: "f64 \<Rightarrow> f64 \<Rightarrow> f64" where
  "f64_add (Finite a) (Finite b) = round_f64 (a + b)"
| "f64_add NaN b = NaN"
| "f64_add a NaN = NaN"
| "f64_add PosInf NegInf = NaN"
| "f64_add NegInf PosInf = NaN"
| "f64_add (Finite a) b = b"
| "f64_add a b = a"

definition u64_as_f64 :: "u64 \<Rightarrow> f64" where
  "u64_as_f64 w = round_f64 (of_nat (unat w))"

text \<open>A cast to \<^verbatim>\<open>u64\<close> truncates and saturates; \<open>NaN\<close> becomes zero.\<close>

fun f64_as_u64 :: "f64 \<Rightarrow> u64" where
  "f64_as_u64 (Finite q) = (if 2 ^ 64 \<le> q then - 1 else of_nat (nat \<lfloor>q\<rfloor>))"
| "f64_as_u64 PosInf = - 1"
| "f64_as_u64 NegInf = 0"
| "f64_as_u64 NaN = 0"

lemma f64_as_u64_mono:
  assumes "0 \<le> a" "a \<le> b"
  shows "f64_as_u64 (Finite a) \<le> f64_as_u64 (Finite b)"
proof (cases "2 ^ 64 \<le> b")
  case True
  then show ?thesis by (simp add: word_order.extremum)
next
  case False
  have small: "nat \<lfloor>x\<rfloor> < 2 ^ 64" if "x < 2 ^ 64" for x :: rat
  proof -
    define z where "z = \<lfloor>x\<rfloor>"
    have "z < 2 ^ 64" unfolding z_def using that by (simp add: floor_less_iff)
    then have "nat z < 2 ^ 64" by (cases "0 \<le> z") (simp_all add: nat_less_iff)
    then show ?thesis by (simp only: z_def)
  qed
  have "unat (of_nat (nat \<lfloor>a\<rfloor>) :: u64) = nat \<lfloor>a\<rfloor>" "unat (of_nat (nat \<lfloor>b\<rfloor>) :: u64) = nat \<lfloor>b\<rfloor>"
    by (rule unat_of_nat_small, rule small, use False assms in linarith)+
  moreover have "nat \<lfloor>a\<rfloor> \<le> nat \<lfloor>b\<rfloor>" using assms by (simp add: floor_mono nat_mono)
  ultimately show ?thesis using False assms by (simp add: word_le_nat_alt)
qed

subsection \<open>Rounding is monotone\<close>

lemma round_half_even_mono:
  assumes "x \<le> y"
  shows "round_half_even x \<le> round_half_even y"
proof (cases "\<lfloor>x\<rfloor> = \<lfloor>y\<rfloor>")
  case True
  with assms show ?thesis by (auto simp: round_half_even_def Let_def)
next
  case False
  then have "\<lfloor>x\<rfloor> + 1 \<le> \<lfloor>y\<rfloor>" using floor_mono [OF assms] by linarith
  moreover have "round_half_even x \<le> \<lfloor>x\<rfloor> + 1" "\<lfloor>y\<rfloor> \<le> round_half_even y"
    by (simp_all add: round_half_even_def Let_def)
  ultimately show ?thesis by linarith
qed

lemma rat_exp_mono:
  assumes "0 < p" "p \<le> q"
  shows "rat_exp p \<le> rat_exp q"
proof (rule ccontr)
  assume "\<not> rat_exp p \<le> rat_exp q"
  then have "pow2 (rat_exp q + 1) \<le> pow2 (rat_exp p)" by (intro pow2_mono) simp
  with rat_exp_bounds [of p] rat_exp_bounds [of q] assms show False by linarith
qed

lemma ulp_pos [simp]: "0 < ulp q"
  by (simp add: ulp_def)

lemma pow2_in_ulps:
  assumes "max (rat_exp q - 52) (- 1074) \<le> k"
  obtains n :: int where "pow2 k = of_int n * ulp q"
proof -
  have "pow2 k = of_int (2 ^ nat (k - max (rat_exp q - 52) (- 1074))) * ulp q"
    using pow2_add_nat [of "max (rat_exp q - 52) (- 1074)" "nat (k - max (rat_exp q - 52) (- 1074))"] assms
    by (simp add: ulp_def mult.commute)
  then show ?thesis by (rule that)
qed

lemma round_pos_le_pow2:
  assumes "q \<le> pow2 k" "max (rat_exp q - 52) (- 1074) \<le> k"
  shows "round_pos q \<le> pow2 k"
proof -
  obtain n :: int where n: "pow2 k = of_int n * ulp q" using pow2_in_ulps [OF assms(2)] .
  then have "q / ulp q \<le> of_int n" using assms(1) by (simp add: pos_divide_le_eq)
  then have "round_half_even (q / ulp q) \<le> n"
    using round_half_even_mono [of "q / ulp q" "of_int n"] by simp
  then have "of_int (round_half_even (q / ulp q)) * ulp q \<le> of_int n * ulp q"
    by (intro mult_right_mono) (simp_all add: less_imp_le)
  then show ?thesis by (simp add: round_pos_def n)
qed

lemma round_pos_ge_pow2:
  assumes "pow2 k \<le> q" "max (rat_exp q - 52) (- 1074) \<le> k"
  shows "pow2 k \<le> round_pos q"
proof -
  obtain n :: int where n: "pow2 k = of_int n * ulp q" using pow2_in_ulps [OF assms(2)] .
  then have "of_int n \<le> q / ulp q" using assms(1) by (simp add: pos_le_divide_eq)
  then have "n \<le> round_half_even (q / ulp q)"
    using round_half_even_mono [of "of_int n" "q / ulp q"] by simp
  then have "of_int n * ulp q \<le> of_int (round_half_even (q / ulp q)) * ulp q"
    by (intro mult_right_mono) (simp_all add: less_imp_le)
  then show ?thesis by (simp add: round_pos_def n)
qed

lemma round_pos_mono:
  assumes "0 < p" "p \<le> q"
  shows "round_pos p \<le> round_pos q"
proof (cases "ulp p = ulp q")
  case True
  then have "round_half_even (p / ulp p) \<le> round_half_even (q / ulp q)"
    using assms(2) by (intro round_half_even_mono) (simp add: divide_right_mono less_imp_le)
  then have "of_int (round_half_even (p / ulp p)) * ulp q \<le> of_int (round_half_even (q / ulp q)) * ulp q"
    by (intro mult_right_mono) (simp_all add: less_imp_le)
  with True show ?thesis by (simp add: round_pos_def)
next
  case False
  have le: "rat_exp p \<le> rat_exp q" using assms by (rule rat_exp_mono)
  have ne: "rat_exp p \<noteq> rat_exp q" using False by (auto simp: ulp_def)
  have big: "- 1074 < rat_exp q - 52" using False le by (cases "- 1074 < rat_exp q - 52") (auto simp: ulp_def)
  have "p \<le> pow2 (rat_exp q)"
  proof -
    have "pow2 (rat_exp p + 1) \<le> pow2 (rat_exp q)" using le ne by (intro pow2_mono) simp
    with rat_exp_bounds(2) [OF assms(1)] show ?thesis by linarith
  qed
  then have "round_pos p \<le> pow2 (rat_exp q)" using le big by (intro round_pos_le_pow2) auto
  moreover have "pow2 (rat_exp q) \<le> round_pos q"
    using assms rat_exp_bounds(1) [of q] big by (intro round_pos_ge_pow2) auto
  ultimately show ?thesis by linarith
qed

text \<open>A non-negative result below \<open>2 ^ k\<close> stays finite and below, and results keep their order.\<close>

lemma round_f64_finite:
  assumes "0 \<le> q" "q \<le> pow2 k" "0 \<le> k" "k < 1024"
  shows "\<exists>r. round_f64 q = Finite r \<and> 0 \<le> r \<and> r \<le> pow2 k"
proof (cases "q = 0")
  case True
  then show ?thesis by (simp add: round_f64_def)
next
  case False
  with assms have q: "0 < q" by simp
  have "rat_exp q \<le> k"
  proof (rule ccontr)
    assume "\<not> rat_exp q \<le> k"
    then have "pow2 (k + 1) \<le> pow2 (rat_exp q)" by (intro pow2_mono) simp
    with rat_exp_bounds(1) [OF q] assms(2) pow2_Suc [of k] pow2_pos [of k] show False by linarith
  qed
  then have r: "round_pos q \<le> pow2 k" using assms by (intro round_pos_le_pow2) auto
  have "pow2 k < pow2 (k + 1)" by (simp add: pow2_Suc)
  moreover have "pow2 (k + 1) \<le> pow2 1024" using assms(4) by (intro pow2_mono) simp
  ultimately have "round_f64 q = Finite (round_pos q)" using q r by (simp add: round_f64_def Let_def)
  then show ?thesis using round_pos_nonneg [OF q] r by blast
qed

lemma round_f64_mono:
  assumes "0 \<le> p" "p \<le> q" "round_f64 p = Finite a" "round_f64 q = Finite b"
  shows "0 \<le> a" "a \<le> b"
proof -
  have val: "x = (if y = 0 then 0 else round_pos y)" if "0 \<le> y" "round_f64 y = Finite x" for x y
    using that by (auto simp: round_f64_def Let_def split: if_splits)
  have a: "a = (if p = 0 then 0 else round_pos p)" using val assms by blast
  have b: "b = (if q = 0 then 0 else round_pos q)" using val assms by fastforce
  show "0 \<le> a" using a round_pos_nonneg [of p] assms(1) by (cases "p = 0") auto
  show "a \<le> b"
  proof (cases "p = 0")
    case True
    then show ?thesis using a b round_pos_nonneg [of q] assms by (cases "q = 0") auto
  next
    case False
    then have "round_pos p \<le> round_pos q" using assms by (intro round_pos_mono) auto
    then show ?thesis using a b False assms by auto
  qed
qed

text \<open>A result is no larger in magnitude than a double that bounds the exact one.\<close>

lemma round_f64_abs_le:
  assumes "\<bar>q\<bar> \<le> b" "round_f64 b = Finite b"
  shows "\<exists>r. round_f64 q = Finite r \<and> \<bar>r\<bar> \<le> b"
proof (cases "q = 0")
  case True
  with assms show ?thesis by (simp add: round_f64_def)
next
  case False
  then have b: "0 < b" using assms(1) by linarith
  then have rb: "round_pos b = b" "b < pow2 1024"
    using assms(2) by (auto simp: round_f64_def Let_def split: if_splits)
  have le: "round_pos \<bar>q\<bar> \<le> b" using round_pos_mono [of "\<bar>q\<bar>" b] False assms(1) rb(1) by simp
  have nn: "0 \<le> round_pos \<bar>q\<bar>" using round_pos_nonneg [of "\<bar>q\<bar>"] False by simp
  have "round_f64 q = Finite (if 0 < q then round_pos \<bar>q\<bar> else - round_pos \<bar>q\<bar>)"
    using False le rb(2) by (simp add: round_f64_def Let_def)
  with le nn show ?thesis by auto
qed

lemma small_exact:
  assumes "0 < n" "n < 2 ^ 53" "- 1074 \<le> e" "e \<le> 0" "q = of_nat n * pow2 e"
  shows "round_f64 q = Finite q"
proof (rule round_exact [OF assms(1-3,5)])
  have "pow2 e \<le> 1" using pow2_mono [OF assms(4)] by simp
  then have "q \<le> of_nat n" using assms(5) by (simp add: mult_left_le)
  moreover have "(of_nat n :: rat) < of_nat (2 ^ 53)" using assms(2) by (simp only: of_nat_less_iff)
  moreover have "(of_nat (2 ^ 53) :: rat) = pow2 53" by (simp add: pow2_def)
  moreover have "pow2 53 \<le> pow2 1024" by (rule pow2_mono) simp
  ultimately show "q < pow2 1024" by linarith
qed

end
