(* ===== verification/Echo_Service.thy ===== *)
theory Echo_Service
  imports Messages F64
begin

section \<open>The gRPC service of the backend\<close>

text \<open>
  \<^verbatim>\<open>EchoServiceImpl\<close> of \<^verbatim>\<open>backend/src/main.rs\<close>: the unary methods \<open>echo\<close> and \<open>compute\<close> and
  the streaming method \<open>stream_echo\<close>. What a clock reads is an argument. The Prometheus
  statics belong to another crate: a method returns the calls it makes to them, in order. The
  platform's \<^verbatim>\<open>sin\<close>, \<^verbatim>\<open>cos\<close> and \<^verbatim>\<open>sqrt\<close>, whose precision the language leaves open, are a
  parameter; \<open>float_laws\<close> is what their documentation promises.
\<close>

subsection \<open>The service\<close>

type_synonym i32 = "32 word"

record EchoServiceImpl =
  svc_delay :: duration
  svc_compute_iterations :: i32

definition EchoServiceImpl_new :: "duration \<Rightarrow> i32 \<Rightarrow> EchoServiceImpl" where
  "EchoServiceImpl_new d n = \<lparr>svc_delay = d, svc_compute_iterations = n\<rparr>"

datatype backend_event = REQUEST_COUNTER_inc | REQUEST_DURATION_observe duration

text \<open>\<open>whole\<close>, \<open>since_recv\<close> and \<open>processing\<close> are the readings of the clock; the method sleeps for the
  delay before it takes them.\<close>

definition echo ::
  "EchoServiceImpl \<Rightarrow> duration \<Rightarrow> duration \<Rightarrow> duration \<Rightarrow> EchoRequest \<Rightarrow> EchoResponse \<times> backend_event list" where
  "echo svc processing since_recv whole req =
     (\<lparr>resp_message = req_message req, resp_timestamp_ns = as_nanos_i64 since_recv,
       resp_processing_time_us = as_micros_i64 processing, resp_payload = req_payload req\<rparr>,
      [REQUEST_COUNTER_inc, REQUEST_DURATION_observe whole])"

subsection \<open>compute\<close>

record ComputeRequest =
  iterations :: i32
  input_value :: f64
  creq_timestamp_ns :: i64

record ComputeResponse =
  result :: f64
  cresp_timestamp_ns :: i64
  cresp_processing_time_us :: i64

record float_ops =
  f64_sin :: "f64 \<Rightarrow> f64"
  f64_cos :: "f64 \<Rightarrow> f64"
  f64_sqrt :: "f64 \<Rightarrow> f64"

definition i32_as_f64 :: "i32 \<Rightarrow> f64" where
  "i32_as_f64 i = round_f64 (of_int (sint i))"

definition compute_iteration_count :: "i32 \<Rightarrow> i32" where
  "compute_iteration_count n =
     (let a = (if sint n < sint (1 :: i32) then 1 else n) in
      if sint (10000 :: i32) < sint a then 10000 else a)"

definition compute_round :: "float_ops \<Rightarrow> i32 \<Rightarrow> f64 \<Rightarrow> f64" where
  "compute_round ops i r =
     f64_add (f64_mul (f64_sin ops r) (f64_cos ops r)) (f64_sqrt ops (i32_as_f64 i))"

text \<open>\<^verbatim>\<open>for i in 0..iterations\<close>\<close>

function compute_loop :: "float_ops \<Rightarrow> i32 \<Rightarrow> i32 \<Rightarrow> f64 \<Rightarrow> f64" where
  "compute_loop ops i n r =
     (if sint i < sint n then compute_loop ops (i + 1) n (compute_round ops i r) else r)"
  by auto

lemma i32_bounds: "- (2 ^ 31) \<le> sint (i :: i32)" "sint i < 2 ^ 31"
  using sint_ge [of i] sint_lt [of i] by simp_all

lemma sint_inc:
  assumes "sint (i :: i32) < sint (n :: i32)"
  shows "sint (i + 1) = sint i + 1"
proof -
  have "signed_take_bit 31 (sint i + 1) = sint i + 1"
    using i32_bounds [of n] i32_bounds [of i] assms by (intro signed_take_bit_int_eq_self) simp_all
  then show ?thesis by (simp add: sint_word_ariths)
qed

termination compute_loop
  by (relation "measure (\<lambda>(ops, i, n, r). nat (sint n - sint i))") (auto simp: sint_inc)

declare compute_loop.simps [simp del]

definition compute ::
  "float_ops \<Rightarrow> duration \<Rightarrow> duration \<Rightarrow> duration \<Rightarrow> ComputeRequest \<Rightarrow> ComputeResponse \<times> backend_event list" where
  "compute ops processing since_start whole req =
     (\<lparr>result = compute_loop ops 0 (compute_iteration_count (iterations req)) (input_value req),
       cresp_timestamp_ns = as_nanos_i64 since_start,
       cresp_processing_time_us = as_micros_i64 processing\<rparr>,
      [REQUEST_COUNTER_inc, REQUEST_DURATION_observe whole])"

subsection \<open>The number of rounds\<close>

lemma compute_iteration_count_sint:
  "sint (compute_iteration_count n) = min (max (sint n) 1) 10000"
proof -
  have "sint (1 :: i32) = 1" "sint (10000 :: i32) = 10000" by simp_all
  then show ?thesis by (auto simp: compute_iteration_count_def Let_def)
qed

text \<open>The loop as a fold over the round numbers.\<close>

lemma compute_loop_fold:
  "0 \<le> sint i \<Longrightarrow> compute_loop ops i n r
     = foldl (\<lambda>r k. compute_round ops (of_nat k) r) r [nat (sint i)..<nat (sint n)]"
proof (induction ops i n r rule: compute_loop.induct)
  case (1 ops i n r)
  show ?case
  proof (cases "sint i < sint n")
    case True
    have inc: "sint (i + 1) = sint i + 1" using True by (rule sint_inc)
    have word: "of_nat (nat (sint i)) = i" using 1(2) by (simp add: of_int_sint)
    have "[nat (sint i)..<nat (sint n)] = nat (sint i) # [nat (sint (i + 1))..<nat (sint n)]"
      using True 1(2) inc by (simp add: upt_conv_Cons nat_add_distrib)
    moreover have "compute_loop ops i n r = compute_loop ops (i + 1) n (compute_round ops i r)"
      using True by (simp add: compute_loop.simps [of ops i])
    ultimately show ?thesis using 1(1) [OF True] 1(2) inc word by simp
  next
    case False
    then show ?thesis using 1(2) by (simp add: compute_loop.simps [of ops i])
  qed
qed

subsection \<open>The size of the result\<close>

definition float_laws :: "float_ops \<Rightarrow> bool" where
  "float_laws ops \<longleftrightarrow>
     (\<forall>q. \<exists>r. f64_sin ops (Finite q) = Finite r \<and> \<bar>r\<bar> \<le> 1)
   \<and> (\<forall>q. \<exists>r. f64_cos ops (Finite q) = Finite r \<and> \<bar>r\<bar> \<le> 1)
   \<and> (\<forall>q b. 0 \<le> q \<longrightarrow> 0 \<le> b \<longrightarrow> q \<le> b * b \<longrightarrow> round_f64 b = Finite b \<longrightarrow>
        (\<exists>r. f64_sqrt ops (Finite q) = Finite r \<and> 0 \<le> r \<and> r \<le> b))"

lemma small_int_exact: "0 < n \<Longrightarrow> n < 2 ^ 53 \<Longrightarrow> round_f64 (of_nat n) = Finite (of_nat n)"
  using small_exact [of n 0 "of_nat n"] by simp

lemma compute_round_bounded:
  assumes laws: "float_laws ops" and i: "0 \<le> sint i" "sint i < 10000"
  shows "\<exists>r. compute_round ops i (Finite q) = Finite r \<and> \<bar>r\<bar> \<le> 101"
proof -
  obtain s where s: "f64_sin ops (Finite q) = Finite s" "\<bar>s\<bar> \<le> 1"
    using laws unfolding float_laws_def by blast
  obtain c where c: "f64_cos ops (Finite q) = Finite c" "\<bar>c\<bar> \<le> 1"
    using laws unfolding float_laws_def by blast
  have exact: "round_f64 1 = Finite 1" "round_f64 100 = Finite 100" "round_f64 101 = Finite 101"
    using small_int_exact [of 1] small_int_exact [of 100] small_int_exact [of 101] by simp_all
  have "\<bar>s * c\<bar> \<le> 1 * 1" unfolding abs_mult using s(2) c(2) by (intro mult_mono) simp_all
  then obtain m where m: "round_f64 (s * c) = Finite m" "\<bar>m\<bar> \<le> 1"
    using round_f64_abs_le [of "s * c" 1] exact(1) by auto
  define n where "n = nat (sint i)"
  have n: "of_int (sint i) = (of_nat n :: rat)" "n < 10000" using i by (simp_all add: n_def)
  have conv: "i32_as_f64 i = Finite (of_nat n)"
    using small_int_exact [of n] n by (cases "n = 0") (simp_all add: i32_as_f64_def round_f64_def)
  have "(of_nat n :: rat) \<le> of_nat 10000" using n(2) by (simp only: of_nat_le_iff)
  then have "(of_nat n :: rat) \<le> 100 * 100" by simp
  then obtain t where t: "f64_sqrt ops (Finite (of_nat n)) = Finite t" "0 \<le> t" "t \<le> 100"
    using laws exact(2) unfolding float_laws_def
    by (metis of_nat_0_le_iff zero_le_numeral)
  have "\<bar>m + t\<bar> \<le> 101" using m(2) t(2,3) by linarith
  then obtain r where "round_f64 (m + t) = Finite r" "\<bar>r\<bar> \<le> 101"
    using round_f64_abs_le exact(3) by blast
  then show ?thesis using s c m t conv by (simp add: compute_round_def)
qed

lemma compute_loop_bounded:
  "float_laws ops \<Longrightarrow> 0 \<le> sint i \<Longrightarrow> sint n \<le> 10000 \<Longrightarrow> \<bar>q\<bar> \<le> 101 \<or> sint i < sint n \<Longrightarrow>
     \<exists>r. compute_loop ops i n (Finite q) = Finite r \<and> \<bar>r\<bar> \<le> 101"
proof (induction ops i n "Finite q" arbitrary: q rule: compute_loop.induct)
  case (1 ops i n)
  show ?case
  proof (cases "sint i < sint n")
    case True
    obtain r where r: "compute_round ops i (Finite q) = Finite r" "\<bar>r\<bar> \<le> 101"
      using compute_round_bounded [OF 1(2,3)] 1(4) True by force
    have "0 \<le> sint (i + 1)" using sint_inc [OF True] 1(3) by simp
    from 1(1) [OF True r(1) 1(2) this 1(4)] r True show ?thesis
      by (simp add: compute_loop.simps [of ops i])
  next
    case False
    with 1(5) show ?thesis by (simp add: compute_loop.simps [of ops i])
  qed
qed

subsection \<open>A reference instance of the platform's functions\<close>

fun isqrt :: "nat \<Rightarrow> nat" where
  "isqrt 0 = 0"
| "isqrt (Suc n) = (let r = isqrt n in if Suc r * Suc r \<le> Suc n then Suc r else r)"

lemma isqrt_le: "isqrt n * isqrt n \<le> n"
  by (induction n) (auto simp: Let_def)

definition ref_floats :: float_ops where
  "ref_floats = \<lparr>f64_sin = (\<lambda>x. case x of Finite _ \<Rightarrow> Finite 0 | _ \<Rightarrow> NaN),
     f64_cos = (\<lambda>x. case x of Finite _ \<Rightarrow> Finite 1 | _ \<Rightarrow> NaN),
     f64_sqrt = (\<lambda>x. case x of
         Finite q \<Rightarrow> if q < 0 then NaN else Finite (of_nat (isqrt (nat \<lfloor>q\<rfloor>)))
       | NegInf \<Rightarrow> NaN | y \<Rightarrow> y)\<rparr>"

lemma ref_floats_laws: "float_laws ref_floats"
proof -
  have "of_nat (isqrt (nat \<lfloor>q\<rfloor>)) \<le> b" if "0 \<le> q" "0 \<le> b" "q \<le> b * b" for q b :: rat
  proof -
    define n where "n = nat \<lfloor>q\<rfloor>"
    have "(of_nat (isqrt n * isqrt n) :: rat) \<le> of_nat n" using isqrt_le [of n] by (simp only: of_nat_le_iff)
    also have "\<dots> \<le> q" using that(1) by (simp add: n_def)
    finally have "(of_nat (isqrt n) :: rat) * of_nat (isqrt n) \<le> b * b" using that(3) by simp
    then show ?thesis unfolding n_def [symmetric] using that(2) by (metis mult_le_cancel_left_pos
        mult_mono not_le order_le_less_trans order_less_imp_le mult_strict_mono of_nat_0_le_iff)
  qed
  then show ?thesis by (simp add: float_laws_def ref_floats_def)
qed

end
