(* ===== verification/Mains.thy ===== *)
theory Mains
  imports Startup_Properties Transports Echo_Service
begin

section \<open>The two programs\<close>

text \<open>
  The command lines and \<^verbatim>\<open>main\<close> functions of \<^verbatim>\<open>gateway/src/main.rs\<close> and
  \<^verbatim>\<open>backend/src/main.rs\<close>, up to the loop that serves, and the constructors of the two gRPC
  transports. Parsing of arguments and addresses, the HTTP listener and the \<^verbatim>\<open>tonic\<close> library
  are parameters.
\<close>

subsection \<open>The gRPC transports\<close>

record endpoint =
  ep_uri :: string
  ep_timeout :: duration
  ep_connect_timeout :: duration
  ep_tcp_nodelay :: bool

text \<open>\<^verbatim>\<open>Endpoint::from_shared\<close> (an error for a malformed URI) and \<^verbatim>\<open>connect\<close>, over TCP or with a
  connector for a socket path.\<close>

record 'os tonic_sys =
  tonic_endpoint :: "string \<Rightarrow> string option"
  tonic_connect :: "endpoint \<Rightarrow> 'os \<Rightarrow> (string + unit) \<times> 'os"
  tonic_connect_path :: "endpoint \<Rightarrow> string \<Rightarrow> 'os \<Rightarrow> (string + unit) \<times> 'os"

definition from_secs :: "nat \<Rightarrow> duration" where
  "from_secs s = s * 1000000000"

definition tcp_transport_new ::
  "'os tonic_sys \<Rightarrow> string \<Rightarrow> 'os \<Rightarrow> (startup_error, tonic_client) outcome \<times> 'os" where
  "tcp_transport_new tonic addr os =
     (case tonic_endpoint tonic (''http://'' @ addr) of
        Some e \<Rightarrow> (Err (Tonic_error e), os)
      | None \<Rightarrow>
          and_then (lift_sys Tonic_error (tonic_connect tonic
            \<lparr>ep_uri = ''http://'' @ addr, ep_timeout = from_secs 30, ep_connect_timeout = from_secs 5,
             ep_tcp_nodelay = True\<rparr> os)) (\<lambda>_ os1. (Ok \<lparr>tonic_calls = []\<rparr>, os1)))"

definition grpc_uds_transport_new ::
  "'os tonic_sys \<Rightarrow> string \<Rightarrow> 'os \<Rightarrow> (startup_error, tonic_client) outcome \<times> 'os" where
  "grpc_uds_transport_new tonic path os =
     (case tonic_endpoint tonic ''http://[::]:50051'' of
        Some e \<Rightarrow> (Err (Tonic_error e), os)
      | None \<Rightarrow>
          and_then (lift_sys Tonic_error (tonic_connect_path tonic
            \<lparr>ep_uri = ''http://[::]:50051'', ep_timeout = from_secs 30, ep_connect_timeout = from_secs 5,
             ep_tcp_nodelay = False\<rparr> path os)) (\<lambda>_ os1. (Ok \<lparr>tonic_calls = []\<rparr>, os1)))"

subsection \<open>Command lines\<close>

datatype TransportType = Type_Tcp | Type_Uds | Type_Shm | Type_ShmUds | Type_ShmEventfd

record gateway_args =
  listen_addr :: string
  backend_addr :: string
  gateway_transport :: TransportType
  gateway_uds_path :: string
  gateway_shm_name :: string
  max_concurrent :: usize

definition gateway_args_default :: gateway_args where
  "gateway_args_default =
     \<lparr>listen_addr = ''127.0.0.1:8080'', backend_addr = ''127.0.0.1:50051'', gateway_transport = Type_Tcp,
      gateway_uds_path = ''/tmp/gateway.sock'', gateway_shm_name = ''gateway_shm'', max_concurrent = 10000\<rparr>"

record backend_args =
  backend_listen_addr :: string
  backend_transport :: TransportType
  backend_uds_path :: string
  backend_shm_name :: string
  delay_us :: u64
  backend_compute_iterations :: i32

definition backend_args_default :: backend_args where
  "backend_args_default =
     \<lparr>backend_listen_addr = ''127.0.0.1:50051'', backend_transport = Type_Tcp,
      backend_uds_path = ''/tmp/backend.sock'', backend_shm_name = ''backend'', delay_us = 1000,
      backend_compute_iterations = 100\<rparr>"

subsection \<open>The gateway\<close>

datatype gateway_link =
    Link_Tcp tonic_client
  | Link_Uds tonic_client
  | Link_Shm ring ring
  | Link_ShmUds ring ring int
  | Link_ShmEventfd ring ring int int

definition gateway_link_new ::
  "'os shm_sys \<Rightarrow> 'os net_sys \<Rightarrow> 'os tonic_sys \<Rightarrow> (string \<Rightarrow> nat \<Rightarrow> 'os \<Rightarrow> 'os) \<Rightarrow> gateway_args \<Rightarrow> 'os
   \<Rightarrow> ((startup_error, gateway_link) outcome \<times> 'os) option" where
  "gateway_link_new sys net tonic env args os =
     (case gateway_transport args of
        Type_Tcp \<Rightarrow> Some (and_then (tcp_transport_new tonic (backend_addr args) os) (\<lambda>t os1. (Ok (Link_Tcp t), os1)))
      | Type_Uds \<Rightarrow>
          Some (and_then (grpc_uds_transport_new tonic (gateway_uds_path args) os) (\<lambda>t os1. (Ok (Link_Uds t), os1)))
      | Type_Shm \<Rightarrow>
          Some (and_then (shm_transport_new sys env (gateway_shm_name args) os) (\<lambda>(rq, rp) os1. (Ok (Link_Shm rq rp), os1)))
      | Type_ShmUds \<Rightarrow>
          Some (and_then (uds_transport_new sys net env (gateway_shm_name args) os)
            (\<lambda>(rq, rp, fd) os1. (Ok (Link_ShmUds rq rp fd), os1)))
      | Type_ShmEventfd \<Rightarrow>
          map_option (\<lambda>r. and_then r (\<lambda>(rq, rp, ev_q, ev_p) os1. (Ok (Link_ShmEventfd rq rp ev_q ev_p), os1)))
            (efd_transport_new sys net env (gateway_shm_name args) os))"

text \<open>The transport first, then the address and the listener.\<close>

definition gateway_main ::
  "'os shm_sys \<Rightarrow> 'os net_sys \<Rightarrow> 'os tonic_sys \<Rightarrow> (string \<Rightarrow> nat \<Rightarrow> 'os \<Rightarrow> 'os)
   \<Rightarrow> (string \<Rightarrow> 'addr option) \<Rightarrow> ('addr \<Rightarrow> 'os \<Rightarrow> (errno + int) \<times> 'os) \<Rightarrow> gateway_args \<Rightarrow> 'os
   \<Rightarrow> ((startup_error, gateway_link \<times> int) outcome \<times> 'os) option" where
  "gateway_main sys net tonic env parse_addr tcp_bind args os =
     map_option (\<lambda>r. and_then r (\<lambda>link os1.
       case parse_addr (listen_addr args) of
         None \<Rightarrow> (Err (Invalid_address (listen_addr args)), os1)
       | Some addr \<Rightarrow> and_then (lift_sys Failed_to_bind (tcp_bind addr os1)) (\<lambda>fd os2. (Ok (link, fd), os2))))
       (gateway_link_new sys net tonic env args os)"

subsection \<open>The backend\<close>

text \<open>What the backend is about to serve, with the configured service.\<close>

datatype 'addr backend_listener =
    Serve_Tcp 'addr
  | Serve_Uds int
  | Serve_Shm ring ring
  | Serve_ShmUds ring ring int
  | Serve_ShmEventfd ring ring int int int

definition backend_service :: "backend_args \<Rightarrow> EchoServiceImpl" where
  "backend_service args =
     EchoServiceImpl_new (from_micros (delay_us args)) (backend_compute_iterations args)"

definition backend_main ::
  "'os shm_sys \<Rightarrow> 'os efd_sys \<Rightarrow> 'os net_sys \<Rightarrow> (string \<Rightarrow> 'addr option) \<Rightarrow> backend_args \<Rightarrow> 'os
   \<Rightarrow> (startup_error, 'addr backend_listener) outcome \<times> 'os" where
  "backend_main sys efds net parse_addr args os =
     (case backend_transport args of
        Type_Tcp \<Rightarrow>
          (case parse_addr (backend_listen_addr args) of
             None \<Rightarrow> (Err (Invalid_address (backend_listen_addr args)), os)
           | Some addr \<Rightarrow> (Ok (Serve_Tcp addr), os))
      | Type_Uds \<Rightarrow>
          and_then (if net_exists net (backend_uds_path args) os
                    then lift_sys Socket_error (net_remove_file net (backend_uds_path args) os)
                    else (Ok (), os)) (\<lambda>_ os1.
          and_then (lift_sys Failed_to_bind (net_bind net (backend_uds_path args) os1)) (\<lambda>fd os2.
            (Ok (Serve_Uds fd), os2)))
      | Type_Shm \<Rightarrow>
          and_then (shm_server_new sys (backend_shm_name args) os) (\<lambda>(rq, rp) os1. (Ok (Serve_Shm rq rp), os1))
      | Type_ShmUds \<Rightarrow>
          and_then (uds_server_new sys net (backend_shm_name args) os)
            (\<lambda>(rq, rp, fd) os1. (Ok (Serve_ShmUds rq rp fd), os1))
      | Type_ShmEventfd \<Rightarrow>
          and_then (efd_server_new sys efds net (backend_shm_name args) os)
            (\<lambda>(rq, rp, ev_q, ev_p, fd) os1. (Ok (Serve_ShmEventfd rq rp ev_q ev_p fd), os1)))"

subsection \<open>The objects a backend touches\<close>

lemma and_then_keeps:
  "(\<And>x os1. f x os1 = (fst (f x os1), os1)) \<Longrightarrow> snd (and_then r f) = snd r"
  by (cases "(r, f)" rule: and_then.cases) (simp_all, metis snd_conv)

lemma backend_shm_objects:
  assumes laws: "posix_shm sys obj bound" "net_keeps obj net efds"
    and t: "backend_transport args \<in> {Type_Shm, Type_ShmUds, Type_ShmEventfd}"
    and n: "n \<noteq> req_buf_name (backend_shm_name args)" "n \<noteq> resp_buf_name (backend_shm_name args)"
  shows "obj (snd (backend_main sys efds net parse_addr args os)) n = obj os n"
proof -
  obtain res os' where c: "create_buffers sys (backend_shm_name args) os = (res, os')" by fastforce
  have "obj (snd (backend_main sys efds net parse_addr args os)) = obj os'"
  proof -
    consider "backend_transport args = Type_Shm" | "backend_transport args = Type_ShmUds"
      | "backend_transport args = Type_ShmEventfd" using t by blast
    then show ?thesis
    proof cases
      case 1
      then have "snd (backend_main sys efds net parse_addr args os) = snd (shm_server_new sys (backend_shm_name args) os)"
        by (simp add: backend_main_def) (rule and_then_keeps, simp split: prod.split)
      with c shm_server_objects [of obj sys "backend_shm_name args" os] show ?thesis by simp
    next
      case 2
      then have "snd (backend_main sys efds net parse_addr args os) = snd (uds_server_new sys net (backend_shm_name args) os)"
        by (simp add: backend_main_def) (rule and_then_keeps, simp split: prod.split)
      with c uds_server_objects [OF laws(2), of sys "backend_shm_name args" os] show ?thesis by simp
    next
      case 3
      then have "snd (backend_main sys efds net parse_addr args os) = snd (efd_server_new sys efds net (backend_shm_name args) os)"
        by (simp add: backend_main_def) (rule and_then_keeps, simp split: prod.split)
      with c efd_server_objects [OF laws(2), of sys "backend_shm_name args" os] show ?thesis by simp
    qed
  qed
  then show ?thesis using create_buffers_leaves(2) [OF laws(1) c n] by simp
qed

end
