(* ===== verification/Metrics.thy ===== *)
theory Metrics
  imports F64
begin

section \<open>The latency metrics of the gateway\<close>

text \<open>
  \<^verbatim>\<open>gateway/src/metrics.rs\<close>: the latency histogram, the connection counters, the report and
  the text export. Atomic counters are words and every operation is one step (theory
  \<open>Metrics_Concurrent\<close> interleaves the accesses of several observers and readers). A panic on an index out of
  range is \<open>None\<close>; it is shown not to happen.
\<close>

subsection \<open>The histogram\<close>

record LatencyHistogram =
  buckets :: "u64 list"
  bucket_bounds :: "f64 list"
  total :: u64
  lat_sum :: u64

text \<open>\<^verbatim>\<open>std::iter::successors\<close>, cut after so many elements; 64 are more than enough (\<open>bounds_eq\<close>).\<close>

fun successors :: "nat \<Rightarrow> (f64 \<Rightarrow> f64 option) \<Rightarrow> f64 \<Rightarrow> f64 list" where
  "successors 0 f x = [x]"
| "successors (Suc n) f x = x # (case f x of None \<Rightarrow> [] | Some y \<Rightarrow> successors n f y)"

definition next_bound :: "f64 \<Rightarrow> f64 option" where
  "next_bound x = (if f64_lt x (Finite 10) then Some (f64_mul x (Finite 2)) else None)"

definition LatencyHistogram_new :: LatencyHistogram where
  "LatencyHistogram_new =
     (let bounds = successors 64 next_bound (round_f64 (1 / 10 ^ 6)) in
      \<lparr>buckets = map (\<lambda>_. 0) bounds, bucket_bounds = bounds, total = 0, lat_sum = 0\<rparr>)"

fun first_le :: "f64 \<Rightarrow> f64 list \<Rightarrow> nat \<Rightarrow> nat option" where
  "first_le x [] i = None"
| "first_le x (b # bs) i = (if f64_le x b then Some i else first_le x bs (Suc i))"

definition nanos :: "f64 \<Rightarrow> u64" where
  "nanos latency_secs = f64_as_u64 (f64_mul latency_secs (Finite (10 ^ 9)))"

definition observe :: "f64 \<Rightarrow> LatencyHistogram \<Rightarrow> LatencyHistogram option" where
  "observe latency_secs h =
     (let h1 = h\<lparr>total := total h + 1,
                 lat_sum := lat_sum h + nanos latency_secs\<rparr>
      in case first_le latency_secs (bucket_bounds h) 0 of
           None \<Rightarrow> Some h1
         | Some i \<Rightarrow>
             if i < length (buckets h)
             then Some (h1\<lparr>buckets := (buckets h)[i := buckets h ! i + 1]\<rparr>) else None)"

fun percentile_loop :: "u64 \<Rightarrow> u64 \<Rightarrow> u64 list \<Rightarrow> nat \<Rightarrow> nat option" where
  "percentile_loop target cumulative [] i = None"
| "percentile_loop target cumulative (cnt # cs) i =
     (let cumulative' = cumulative + cnt in
      if target \<le> cumulative' then Some i else percentile_loop target cumulative' cs (Suc i))"

definition percentile_target :: "u64 \<Rightarrow> f64 \<Rightarrow> u64" where
  "percentile_target n p = f64_as_u64 (f64_div (f64_mul (u64_as_f64 n) p) (Finite 100))"

definition percentile :: "f64 \<Rightarrow> LatencyHistogram \<Rightarrow> f64 option" where
  "percentile p h =
     (if total h = 0 then Some (Finite 0)
      else case percentile_loop (percentile_target (total h) p) 0 (buckets h) 0 of
        Some i \<Rightarrow> if i < length (bucket_bounds h) then Some (bucket_bounds h ! i) else None
      | None \<Rightarrow> Some (if bucket_bounds h = [] then Finite 0 else last (bucket_bounds h)))"

definition p50 :: "LatencyHistogram \<Rightarrow> f64 option" where
  "p50 = percentile (Finite 50)"

definition p90 :: "LatencyHistogram \<Rightarrow> f64 option" where
  "p90 = percentile (Finite 90)"

definition p95 :: "LatencyHistogram \<Rightarrow> f64 option" where
  "p95 = percentile (Finite 95)"

definition p99 :: "LatencyHistogram \<Rightarrow> f64 option" where
  "p99 = percentile (Finite 99)"

definition p999 :: "LatencyHistogram \<Rightarrow> f64 option" where
  "p999 = percentile (round_f64 (999 / 10))"

definition mean :: "LatencyHistogram \<Rightarrow> f64" where
  "mean h =
     (if total h = 0 then Finite 0
      else f64_div (f64_div (u64_as_f64 (lat_sum h)) (u64_as_f64 (total h))) (Finite (10 ^ 9)))"

subsection \<open>Connections, report and export\<close>

type_synonym text_string = string

record ConnectionMetrics =
  requests_total :: u64
  requests_active :: u64
  latency :: LatencyHistogram
  errors_total :: u64
  bytes_sent :: u64
  bytes_received :: u64

definition ConnectionMetrics_new :: ConnectionMetrics where
  "ConnectionMetrics_new = \<lparr>requests_total = 0, requests_active = 0, latency = LatencyHistogram_new,
     errors_total = 0, bytes_sent = 0, bytes_received = 0\<rparr>"

text \<open>The map holds shared pointers: indices into the store \<open>arcs\<close>.\<close>

record Metrics =
  connections :: "(text_string \<times> nat) list"
  arcs :: "ConnectionMetrics list"
  global_latency :: LatencyHistogram

definition Metrics_new :: Metrics where
  "Metrics_new = \<lparr>connections = [], arcs = [], global_latency = LatencyHistogram_new\<rparr>"

definition get_or_create_connection :: "text_string \<Rightarrow> Metrics \<Rightarrow> nat \<times> Metrics" where
  "get_or_create_connection i m =
     (case map_of (connections m) i of
        Some a \<Rightarrow> (a, m)
      | None \<Rightarrow> (length (arcs m), m\<lparr>connections := connections m @ [(i, length (arcs m))],
                                     arcs := arcs m @ [ConnectionMetrics_new]\<rparr>))"

definition record_request :: "f64 \<Rightarrow> Metrics \<Rightarrow> Metrics option" where
  "record_request latency_secs m =
     map_option (\<lambda>h. m\<lparr>global_latency := h\<rparr>) (observe latency_secs (global_latency m))"

record MetricsReport =
  uptime_secs :: u64
  total_connections :: usize
  global_p50 :: f64
  global_p90 :: f64
  global_p95 :: f64
  global_p99 :: f64
  global_p999 :: f64
  global_mean :: f64

definition to_ms :: "f64 \<Rightarrow> f64" where
  "to_ms x = f64_mul x (Finite 1000)"

text \<open>\<open>elapsed\<close> is the time since the start in seconds.\<close>

definition report :: "u64 \<Rightarrow> Metrics \<Rightarrow> MetricsReport option" where
  "report elapsed m =
     (let h = global_latency m in
      Option.bind (p50 h) (\<lambda>v50. Option.bind (p90 h) (\<lambda>v90. Option.bind (p95 h) (\<lambda>v95.
      Option.bind (p99 h) (\<lambda>v99. Option.bind (p999 h) (\<lambda>v999.
        Some \<lparr>uptime_secs = elapsed, total_connections = len_usize (connections m),
          global_p50 = to_ms v50, global_p90 = to_ms v90, global_p95 = to_ms v95,
          global_p99 = to_ms v99, global_p999 = to_ms v999, global_mean = to_ms (mean h)\<rparr>))))))"

text \<open>The export; the display of numbers is a parameter.\<close>

definition line :: "string \<Rightarrow> string" where
  "line s = s @ [CHR 0x0A]"

definition metrics_export :: "(f64 \<Rightarrow> string) \<Rightarrow> (usize \<Rightarrow> string) \<Rightarrow> Metrics \<Rightarrow> string option" where
  "metrics_export show_f64 show_usize m =
     Option.bind (p50 (global_latency m)) (\<lambda>v50. Option.bind (p99 (global_latency m)) (\<lambda>v99. Some (
        line ''# HELP gateway_latency_p50_ms P50 latency in milliseconds''
      @ line ''# TYPE gateway_latency_p50_ms gauge''
      @ line (''gateway_latency_p50_ms '' @ show_f64 (to_ms v50))
      @ line ''# HELP gateway_latency_p99_ms P99 latency in milliseconds''
      @ line ''# TYPE gateway_latency_p99_ms gauge''
      @ line (''gateway_latency_p99_ms '' @ show_f64 (to_ms v99))
      @ line ''# HELP gateway_connections_total Total number of connections''
      @ line ''# TYPE gateway_connections_total gauge''
      @ line (''gateway_connections_total '' @ show_usize (len_usize (connections m))))))"

subsection \<open>The bucket bounds\<close>

definition bound0 :: rat where
  "bound0 = 4722366482869645 / 2 ^ 72"

lemma micro_bound: "round_f64 (1 / 10 ^ 6) = Finite bound0"
proof -
  define q :: rat where "q = 1 / 10 ^ 6"
  have b: "pow2 (- 20) \<le> q" "q < pow2 (- 20 + 1)" by (simp_all add: pow2_def q_def)
  have "0 < q" by (simp add: q_def)
  then have e: "rat_exp q = - 20"
    using exponent_unique [OF rat_exp_bounds b] by simp
  have u: "ulp q = 1 / 2 ^ 72" by (simp add: ulp_def e pow2_def)
  define x where "x = q / (1 / 2 ^ 72)"
  have fl: "\<lfloor>x\<rfloor> = 4722366482869645"
    by (rule floor_unique) (simp_all add: x_def q_def)
  have "x - of_int 4722366482869645 < 1 / 2" by (simp add: x_def q_def)
  then have rx: "round_half_even x = 4722366482869645"
    unfolding round_half_even_def Let_def fl by simp
  have r: "round_pos q = bound0"
    unfolding round_pos_def u x_def [symmetric] rx by (simp add: bound0_def)
  have "bound0 < 1" by (simp add: bound0_def)
  also have "1 \<le> pow2 1024" using pow2_mono [of 0 1024] by simp
  finally have "bound0 < pow2 1024" .
  with r \<open>0 < q\<close> have "round_f64 q = Finite bound0" by (simp add: round_f64_def)
  then show ?thesis by (simp only: q_def)
qed

lemma double_bound:
  assumes "i < 64"
  shows "f64_mul (Finite (bound0 * 2 ^ i)) (Finite 2) = Finite (bound0 * 2 ^ Suc i)"
proof -
  have "bound0 * 2 ^ Suc i = of_nat 4722366482869645 * pow2 (int (Suc i) - 72)"
    using pow2_add_nat [of "- 72" "Suc i"] by (simp add: bound0_def pow2_def)
  moreover have "bound0 * 2 ^ Suc i < pow2 1024"
  proof -
    have "(2::rat) ^ Suc i \<le> 2 ^ 64" using assms by (intro power_increasing) auto
    then have "bound0 * 2 ^ Suc i \<le> bound0 * 2 ^ 64" by (intro mult_left_mono) (simp_all add: bound0_def)
    moreover have "bound0 * 2 ^ 64 < pow2 64" by (simp add: bound0_def pow2_def)
    moreover have "pow2 64 \<le> pow2 1024" by (rule pow2_mono) simp
    ultimately show ?thesis by linarith
  qed
  ultimately have "round_f64 (bound0 * 2 ^ Suc i) = Finite (bound0 * 2 ^ Suc i)"
    using assms by (intro round_exact [of 4722366482869645 "int (Suc i) - 72"]) auto
  then show ?thesis by (simp add: ac_simps)
qed


lemma next_bound_step:
  assumes "i < 64"
  shows "next_bound (Finite (bound0 * 2 ^ i)) =
    (if i < 24 then Some (Finite (bound0 * 2 ^ Suc i)) else None)"
proof -
  have "bound0 * 2 ^ i < 10 \<longleftrightarrow> i < 24"
  proof
    assume "bound0 * 2 ^ i < 10"
    then show "i < 24"
    proof (rule contrapos_pp)
      assume "\<not> i < 24"
      then have "(2::rat) ^ 24 \<le> 2 ^ i" by (intro power_increasing) auto
      then have "bound0 * 2 ^ 24 \<le> bound0 * 2 ^ i" by (intro mult_left_mono) (simp_all add: bound0_def)
      moreover have "10 \<le> bound0 * 2 ^ 24" by (simp add: bound0_def)
      ultimately show "\<not> bound0 * 2 ^ i < 10" by linarith
    qed
  next
    assume "i < 24"
    then have "(2::rat) ^ i \<le> 2 ^ 23" by (intro power_increasing) auto
    then have "bound0 * 2 ^ i \<le> bound0 * 2 ^ 23" by (intro mult_left_mono) (simp_all add: bound0_def)
    moreover have "bound0 * 2 ^ 23 < 10" by (simp add: bound0_def)
    ultimately show "bound0 * 2 ^ i < 10" by linarith
  qed
  with double_bound [OF assms] show ?thesis by (simp add: next_bound_def)
qed

lemma successors_bounds:
  "i \<le> 24 \<Longrightarrow> 24 - i \<le> n \<Longrightarrow> successors n next_bound (Finite (bound0 * 2 ^ i))
     = map (\<lambda>j. Finite (bound0 * 2 ^ j)) [i..<25]"
proof (induction n arbitrary: i)
  case 0
  then show ?case by (simp add: upt_rec)
next
  case (Suc n)
  show ?case
  proof (cases "i < 24")
    case True
    then have "successors n next_bound (Finite (bound0 * 2 ^ Suc i))
        = map (\<lambda>j. Finite (bound0 * 2 ^ j)) [Suc i..<25]"
      using Suc by (intro Suc.IH) auto
    with True next_bound_step [of i] show ?thesis by (simp add: upt_conv_Cons)
  next
    case False
    with Suc.prems have "i = 24" by simp
    with next_bound_step [of 24] show ?thesis by (simp add: upt_conv_Cons)
  qed
qed

text \<open>Twenty-five bounds, each twice the one before, from (almost) 1 us to 16.8 s.\<close>

definition bucket_bound :: "nat \<Rightarrow> f64" where
  "bucket_bound j = Finite (bound0 * 2 ^ j)"

lemma bounds_eq: "successors 64 next_bound (round_f64 (1 / 10 ^ 6)) = map bucket_bound [0..<25]"
  unfolding micro_bound using successors_bounds [of 0 64] by (simp add: bucket_bound_def cong: map_cong)

lemma bound_mono: "i \<le> j \<Longrightarrow> f64_le x (bucket_bound i) \<Longrightarrow> f64_le x (bucket_bound j)"
proof -
  assume ij: "i \<le> j" and le: "f64_le x (bucket_bound i)"
  have "(2::rat) ^ i \<le> 2 ^ j" using ij by (rule power_increasing) simp
  then have "bound0 * 2 ^ i \<le> bound0 * 2 ^ j" by (intro mult_left_mono) (simp_all add: bound0_def)
  with le show ?thesis by (cases x) (auto simp: bucket_bound_def)
qed


subsection \<open>The histogram of a list of latencies\<close>

fun observe_all :: "f64 list \<Rightarrow> LatencyHistogram \<Rightarrow> LatencyHistogram option" where
  "observe_all [] h = Some h"
| "observe_all (x # xs) h = Option.bind (observe x h) (observe_all xs)"

text \<open>How many of the latencies are at most a bound.\<close>

definition count_le :: "f64 list \<Rightarrow> f64 \<Rightarrow> nat" where
  "count_le xs b = length (filter (\<lambda>x. f64_le x b) xs)"

definition in_bucket :: "nat \<Rightarrow> f64 \<Rightarrow> bool" where
  "in_bucket i x \<longleftrightarrow> first_le x (map bucket_bound [0..<25]) 0 = Some i"

definition hist_inv :: "f64 list \<Rightarrow> LatencyHistogram \<Rightarrow> bool" where
  "hist_inv xs h \<longleftrightarrow> bucket_bounds h = map bucket_bound [0..<25] \<and> length (buckets h) = 25
     \<and> unat (total h) = length xs \<and> lat_sum h = sum_list (map nanos xs)
     \<and> (\<forall>i < 25. unat (buckets h ! i) = length (filter (in_bucket i) xs))"

lemma first_le_Some:
  "first_le x bs i = Some j \<Longrightarrow> i \<le> j \<and> j < i + length bs \<and> f64_le x (bs ! (j - i))
     \<and> (\<forall>l. i \<le> l \<longrightarrow> l < j \<longrightarrow> \<not> f64_le x (bs ! (l - i)))"
proof (induction bs arbitrary: i)
  case (Cons b bs)
  show ?case
  proof (cases "f64_le x b")
    case True
    with Cons.prems show ?thesis by simp
  next
    case False
    with Cons.prems have "first_le x bs (Suc i) = Some j" by simp
    from Cons.IH [OF this] have ih: "Suc i \<le> j" "j < Suc i + length bs" "f64_le x (bs ! (j - Suc i))"
      "\<forall>l. Suc i \<le> l \<longrightarrow> l < j \<longrightarrow> \<not> f64_le x (bs ! (l - Suc i))" by blast+
    have no: "\<not> f64_le x ((b # bs) ! (l - i))" if "i \<le> l" "l < j" for l
      using ih(4) that False by (cases "l = i") (auto simp: nth_Cons')
    have "i \<le> j" "j < i + length (b # bs)" using ih(1,2) by simp_all
    moreover have "f64_le x ((b # bs) ! (j - i))" using ih(1,3) by (simp add: nth_Cons')
    ultimately show ?thesis using no by blast
  qed
qed simp

lemma first_le_None:
  "first_le x bs i = None \<longleftrightarrow> (\<forall>b \<in> set bs. \<not> f64_le x b)"
  by (induction bs arbitrary: i) auto

lemma in_bucket_cumulative:
  assumes "i < 25"
  shows "(\<exists>j \<le> i. in_bucket j x) \<longleftrightarrow> f64_le x (bucket_bound i)"
proof
  assume "\<exists>j \<le> i. in_bucket j x"
  then obtain j where j: "j \<le> i" "in_bucket j x" by blast
  from first_le_Some [OF j(2) [unfolded in_bucket_def]] have "j < 25" "f64_le x (map bucket_bound [0..<25] ! j)" by auto
  then have "f64_le x (bucket_bound j)" by (simp del: upt.simps)
  with j(1) show "f64_le x (bucket_bound i)" by (rule bound_mono)
next
  assume le: "f64_le x (bucket_bound i)"
  have mem: "bucket_bound i \<in> set (map bucket_bound [0..<25])" using assms by auto
  then obtain j where j: "first_le x (map bucket_bound [0..<25]) 0 = Some j"
    using le first_le_None [of x "map bucket_bound [0..<25]" 0] by (metis not_Some_eq)
  have none: "\<forall>l. 0 \<le> l \<longrightarrow> l < j \<longrightarrow> \<not> f64_le x (map bucket_bound [0..<25] ! (l - 0))"
    using first_le_Some [OF j] by blast
  have "j \<le> i"
  proof (rule ccontr)
    assume "\<not> j \<le> i"
    then have "\<not> f64_le x (map bucket_bound [0..<25] ! (i - 0))" using none by simp
    with assms le show False by (simp del: upt.simps)
  qed
  with j show "\<exists>j \<le> i. in_bucket j x" by (auto simp: in_bucket_def)
qed

lemma in_bucket_unique: "in_bucket i x \<Longrightarrow> in_bucket j x \<Longrightarrow> i = j"
  by (simp add: in_bucket_def)

lemma in_bucket_sum:
  assumes "i < 25"
  shows "(\<Sum>j \<le> i. if in_bucket j x then 1 else (0::nat)) = (if f64_le x (bucket_bound i) then 1 else 0)"
proof (cases "\<exists>j \<le> i. in_bucket j x")
  case True
  then obtain k where k: "k \<le> i" "in_bucket k x" by blast
  have "in_bucket j x \<longleftrightarrow> k = j" for j using in_bucket_unique [OF k(2)] k(2) by blast
  then have "(\<Sum>j \<le> i. if in_bucket j x then 1 else (0::nat)) = (\<Sum>j \<le> i. if k = j then 1 else 0)"
    by presburger
  also have "\<dots> = 1" using k(1) by (subst sum.delta') simp_all
  finally show ?thesis using True in_bucket_cumulative [OF assms] by (simp only: if_True)
next
  case False
  then have "(\<Sum>j \<le> i. if in_bucket j x then 1 else (0::nat)) = 0" by (intro sum.neutral) auto
  with False in_bucket_cumulative [OF assms] show ?thesis by (simp only: if_False)
qed

lemma bucket_sum:
  assumes "i < 25"
  shows "(\<Sum>j \<le> i. length (filter (in_bucket j) xs)) = count_le xs (bucket_bound i)"
proof (induction xs)
  case Nil
  then show ?case by (simp add: count_le_def)
next
  case (Cons x xs)
  have "(\<Sum>j \<le> i. length (filter (in_bucket j) (x # xs)))
      = (\<Sum>j \<le> i. (if in_bucket j x then 1 else 0) + length (filter (in_bucket j) xs))"
    by (rule sum.cong) simp_all
  also have "\<dots> = (if f64_le x (bucket_bound i) then 1 else 0) + count_le xs (bucket_bound i)"
    unfolding sum.distrib Cons in_bucket_sum [OF assms] by (rule refl)
  finally show ?case by (simp add: count_le_def)
qed

lemma hist_inv_new: "hist_inv [] LatencyHistogram_new"
  unfolding hist_inv_def LatencyHistogram_new_def bounds_eq Let_def by (simp del: upt.simps)

lemma unat_inc: "unat (w :: u64) + 1 < 2 ^ 64 \<Longrightarrow> unat (w + 1) = unat w + 1"
  using unat_add_lem [of w 1] by simp

lemma observe_inv:
  assumes inv: "hist_inv xs h" and len: "length xs + 1 < 2 ^ 64"
  shows "\<exists>h'. observe x h = Some h' \<and> hist_inv (xs @ [x]) h'"
proof -
  have bb: "bucket_bounds h = map bucket_bound [0..<25]" and lb: "length (buckets h) = 25"
    and tot: "unat (total h) = length xs"
    and sum: "lat_sum h = sum_list (map nanos xs)"
    and cnt: "\<And>i. i < 25 \<Longrightarrow> unat (buckets h ! i) = length (filter (in_bucket i) xs)"
    using inv by (simp_all add: hist_inv_def)
  have t: "unat (total h + 1) = length xs + 1" using tot len unat_inc by simp
  show ?thesis
  proof (cases "first_le x (map bucket_bound [0..<25]) 0")
    case None
    then have "\<not> in_bucket i x" for i by (simp add: in_bucket_def)
    with None inv t show ?thesis
      by (simp add: observe_def Let_def bb hist_inv_def del: upt.simps)
  next
    case (Some i)
    then have i: "i < 25" using first_le_Some [OF Some] by simp
    have "length (filter (in_bucket i) xs) \<le> length xs" by simp
    then have "unat (buckets h ! i) + 1 < 2 ^ 64" using cnt [OF i] len by linarith
    from unat_inc [OF this] have "unat (buckets h ! i + 1) = length (filter (in_bucket i) xs) + 1"
      using cnt [OF i] by linarith
    moreover have "in_bucket j x \<longleftrightarrow> j = i" for j using Some by (auto simp: in_bucket_def)
    ultimately show ?thesis
      using Some i lb cnt t sum
      by (auto simp: observe_def Let_def bb hist_inv_def nth_list_update simp del: upt.simps)
  qed
qed

lemma observe_all_inv:
  "hist_inv ys h \<Longrightarrow> length ys + length xs < 2 ^ 64 \<Longrightarrow>
     \<exists>h'. observe_all xs h = Some h' \<and> hist_inv (ys @ xs) h'"
proof (induction xs arbitrary: ys h)
  case (Cons x xs)
  obtain h1 where h1: "observe x h = Some h1" "hist_inv (ys @ [x]) h1"
    using observe_inv [OF Cons.prems(1)] Cons.prems(2) by fastforce
  from Cons.IH [OF h1(2)] Cons.prems(2) h1(1) show ?case by simp
qed simp

lemma observe_all_new:
  assumes "length xs < 2 ^ 64"
  obtains h where "observe_all xs LatencyHistogram_new = Some h" "hist_inv xs h"
  using observe_all_inv [OF hist_inv_new, of xs] assms by auto

subsection \<open>The search for a percentile\<close>

fun prefix_sum :: "u64 list \<Rightarrow> nat \<Rightarrow> nat" where
  "prefix_sum cs i = sum_list (map unat (take (Suc i) cs))"

declare prefix_sum.simps [simp del]

lemma prefix_sum_Cons: "prefix_sum (c # cs) (Suc i) = unat c + prefix_sum cs i"
  "prefix_sum (c # cs) 0 = unat c"
  by (simp_all add: prefix_sum.simps)

lemma percentile_loop_spec:
  assumes "unat c + sum_list (map unat cs) < 2 ^ 64"
  shows "case percentile_loop t c cs i of
      Some j \<Rightarrow> i \<le> j \<and> j < i + length cs \<and> unat t \<le> unat c + prefix_sum cs (j - i)
                \<and> (\<forall>l < j - i. unat c + prefix_sum cs l < unat t)
    | None \<Rightarrow> \<forall>l < length cs. unat c + prefix_sum cs l < unat t"
  using assms
proof (induction cs arbitrary: c i)
  case (Cons d cs)
  define e where "e = c + d"
  have "unat c + unat d < 2 ^ 64" using Cons.prems by simp
  then have e: "unat e = unat c + unat d" unfolding e_def using unat_add_lem [of c d] by simp
  show ?case
  proof (cases "t \<le> e")
    case True
    then show ?thesis using e by (simp add: e_def [symmetric] prefix_sum_Cons word_le_nat_alt)
  next
    case False
    then have lt: "unat e < unat t" by (simp add: word_le_nat_alt)
    have step: "(\<forall>l < n. unat e + prefix_sum cs l < unat t) \<longrightarrow>
        (\<forall>l < Suc n. unat c + prefix_sum (d # cs) l < unat t)" for n
    proof (intro impI allI)
      fix l assume "\<forall>l < n. unat e + prefix_sum cs l < unat t" "l < Suc n"
      then show "unat c + prefix_sum (d # cs) l < unat t"
        using lt e by (cases l) (auto simp: prefix_sum_Cons)
    qed
    have "unat e + sum_list (map unat cs) < 2 ^ 64" using Cons.prems e by simp
    note ih = Cons.IH [OF this, of "Suc i"]
    have unf: "percentile_loop t c (d # cs) i = percentile_loop t e cs (Suc i)"
      using False by (simp add: e_def Let_def)
    show ?thesis
    proof (cases "percentile_loop t e cs (Suc i)")
      case None
      then show ?thesis using ih step [of "length cs"] unf by simp
    next
      case (Some j)
      then have j: "Suc i \<le> j" "j < Suc i + length cs" "unat t \<le> unat e + prefix_sum cs (j - Suc i)"
        "\<forall>l < j - Suc i. unat e + prefix_sum cs l < unat t" using ih by simp_all
      then have ji: "j - i = Suc (j - Suc i)" by simp
      have "\<forall>l < j - i. unat c + prefix_sum (d # cs) l < unat t"
        unfolding ji using step [of "j - Suc i"] j(4) by blast
      moreover have "unat t \<le> unat c + prefix_sum (d # cs) (j - i)"
        unfolding ji using j(3) e by (simp add: prefix_sum_Cons)
      ultimately show ?thesis using Some unf j(1,2) by simp
    qed
  qed
qed simp

lemma hist_prefix_sum:
  assumes inv: "hist_inv xs h" and i: "i < 25"
  shows "prefix_sum (buckets h) i = count_le xs (bucket_bound i)"
proof -
  have l: "length (buckets h) = 25" using inv by (simp add: hist_inv_def)
  have "prefix_sum (buckets h) i = (\<Sum>j < Suc i. unat (buckets h ! j))"
    using l i by (simp add: prefix_sum.simps sum_list_sum_nth atLeast0LessThan)
  also have "\<dots> = (\<Sum>j \<le> i. length (filter (in_bucket j) xs))"
    unfolding lessThan_Suc_atMost using inv i by (intro sum.cong) (simp_all add: hist_inv_def)
  finally show ?thesis using bucket_sum [OF i] by simp
qed

lemma hist_sum_buckets:
  assumes inv: "hist_inv xs h"
  shows "sum_list (map unat (buckets h)) \<le> length xs"
proof -
  have "length (buckets h) = 25" using inv by (simp add: hist_inv_def)
  then have "sum_list (map unat (buckets h)) = prefix_sum (buckets h) 24" by (simp add: prefix_sum.simps)
  also have "\<dots> \<le> length xs" using hist_prefix_sum [OF inv, of 24] by (simp add: count_le_def)
  finally show ?thesis .
qed

text \<open>The index of the bound a percentile returns.\<close>

definition bound_index :: "f64 list \<Rightarrow> nat \<Rightarrow> nat \<Rightarrow> bool" where
  "bound_index xs t i \<longleftrightarrow> i < 25 \<and> (\<forall>j < i. count_le xs (bucket_bound j) < t)
     \<and> (t \<le> count_le xs (bucket_bound i) \<or> i = 24)"

lemma bound_index_mono:
  assumes "bound_index xs t i" "bound_index xs u j" "t \<le> u"
  shows "i \<le> j"
proof (rule ccontr)
  assume "\<not> i \<le> j"
  then have "j < i" by simp
  then have "count_le xs (bucket_bound j) < u" using assms(1,3) unfolding bound_index_def by fastforce
  then have "j = 24" using assms(2) unfolding bound_index_def by simp
  with \<open>j < i\<close> assms(1) show False by (simp add: bound_index_def)
qed

lemma percentile_index:
  assumes inv: "hist_inv xs h" and xs: "xs \<noteq> []" and len: "length xs < 2 ^ 64"
  shows "\<exists>i. percentile p h = Some (bucket_bound i) \<and> bound_index xs (unat (percentile_target (total h) p)) i"
proof -
  define t where "t = percentile_target (total h) p"
  have bb: "bucket_bounds h = map bucket_bound [0..<25]" and lb: "length (buckets h) = 25"
    and tot: "unat (total h) = length xs" using inv by (simp_all add: hist_inv_def)
  have nz: "total h \<noteq> 0" using tot xs by auto
  have small: "unat (0::u64) + sum_list (map unat (buckets h)) < 2 ^ 64"
    using hist_sum_buckets [OF inv] len by simp
  note sp = percentile_loop_spec [OF small, of t 0]
  show ?thesis
  proof (cases "percentile_loop t 0 (buckets h) 0")
    case None
    then have "\<forall>l < 25. prefix_sum (buckets h) l < unat t" using sp lb by simp
    then have "bound_index xs (unat t) 24" using hist_prefix_sum [OF inv] by (simp add: bound_index_def)
    moreover have "percentile p h = Some (bucket_bound 24)"
      using None nz by (simp add: percentile_def t_def bb last_conv_nth del: upt.simps)
    ultimately show ?thesis unfolding t_def by blast
  next
    case (Some i)
    then have i: "i < 25" "unat t \<le> prefix_sum (buckets h) i" "\<forall>l < i. prefix_sum (buckets h) l < unat t"
      using sp lb by simp_all
    then have "bound_index xs (unat t) i" using hist_prefix_sum [OF inv] by (simp add: bound_index_def)
    moreover have "percentile p h = Some (bucket_bound i)"
      using Some nz i(1) by (simp add: percentile_def t_def bb del: upt.simps)
    ultimately show ?thesis unfolding t_def by blast
  qed
qed

end
