(* ===== verification/Http_Server.thy ===== *)
theory Http_Server
  imports Transports Metrics
begin

section \<open>The HTTP server of the gateway\<close>

text \<open>
  \<^verbatim>\<open>Gateway\<close> and \<^verbatim>\<open>run_http_server\<close> of \<^verbatim>\<open>gateway/src/main.rs\<close>: the accept loop, the task of each
  connection, and the handlers that \<^verbatim>\<open>hyper\<close> calls for its requests, composed with the transport
  and the backend into one system. A step is one step of one task: the listener accepts, \<^verbatim>\<open>hyper\<close>
  hands over a request, the body of a request has been read, the call of a handler moves, a
  handler answers, a task of the transport or of the backend moves, a connection ends. When a
  connection ends, \<^verbatim>\<open>hyper\<close> drops the handlers that run for it; a handler can be dropped only
  where it is suspended, \<open>transport_parked\<close> says where the calls are.
\<close>

subsection \<open>State\<close>

record ('n, 'k) HttpGateway =
  transport :: "('n, 'k) TransportEnum"
  metrics :: Metrics

definition Gateway_new :: "('n, 'k) TransportEnum \<Rightarrow> ('n, 'k) HttpGateway" where
  "Gateway_new t = \<lparr>transport = t, metrics = Metrics_new\<rparr>"

datatype handler_phase = Collecting | Calling nat | Answered http_response | Dropped

text \<open>The locals of \<^verbatim>\<open>handle_request\<close>: path, body and elapsed time once the body has been read.\<close>

record handler =
  h_conn :: nat
  h_path :: utf8
  h_body :: bytes
  h_elapsed :: duration
  h_phase :: handler_phase

record ('n, 'k) http_server =
  gateway :: "('n, 'k) HttpGateway"
  http_conns :: "bool list"
  handlers :: "handler list"
  stats :: "gateway_event list"
  accept_error :: "errno option"

abbreviation link :: "('n, 'k) http_server \<Rightarrow> ('n, 'k) TransportEnum" where
  "link s \<equiv> transport (gateway s)"

abbreviation set_link :: "('n, 'k) TransportEnum \<Rightarrow> ('n, 'k) http_server \<Rightarrow> ('n, 'k) http_server" where
  "set_link t s \<equiv> s\<lparr>gateway := (gateway s)\<lparr>transport := t\<rparr>\<rparr>"

definition http_boot :: "('n, 'k) TransportEnum \<Rightarrow> ('n, 'k) http_server" where
  "http_boot t = \<lparr>gateway = Gateway_new t, http_conns = [], handlers = [], stats = [], accept_error = None\<rparr>"

text \<open>The parameters of the model: the JSON library, the display of errors, the codecs, the socket
  and the eventfds, and the delay of the backend.\<close>

record ('n, 'k, 'j) http_env =
  env_js :: "'j json_api"
  env_display :: "transport_error \<Rightarrow> utf8"
  env_json :: json_codec
  env_codec :: codec
  env_sock :: "'n sock_sys"
  env_efd :: "'k efd_sys"
  env_delay :: duration

subsection \<open>What the transport does beside the calls\<close>

text \<open>Steps of the response listener, the server (with its clock readings) and a worker.\<close>

datatype background =
    Background_listen
  | Background_serve duration duration
  | Background_work nat duration

fun transport_background ::
  "('n, 'k, 'j) http_env \<Rightarrow> background \<Rightarrow> ('n, 'k) TransportEnum \<Rightarrow> ('n, 'k) TransportEnum option" where
  "transport_background env b (Tcp t) = None"
| "transport_background env b (Uds t) = None"
| "transport_background env b (Shm t) =
     (case b of
        Background_serve d1 d2 \<Rightarrow> map_option Shm (run_shm_server (env_json env) (env_delay env) d1 d2 t)
      | _ \<Rightarrow> None)"
| "transport_background env b (ShmUds t) = map_option ShmUds
     (case b of
        Background_listen \<Rightarrow> uds_listen (env_codec env) (env_sock env) t
      | Background_serve d1 d2 \<Rightarrow> uds_serve (env_codec env) (env_sock env) t
      | Background_work j d \<Rightarrow> uds_work (env_codec env) (env_sock env) (env_delay env) j d t)"
| "transport_background env b (ShmEventfd t) = map_option ShmEventfd
     (case b of
        Background_listen \<Rightarrow> efd_listen (env_codec env) (env_efd env) t
      | Background_serve d1 d2 \<Rightarrow> efd_serve (env_codec env) (env_efd env) t
      | Background_work j d \<Rightarrow> efd_work (env_codec env) (env_efd env) (env_delay env) j d t)"

fun transport_crashed :: "('n, 'k) TransportEnum \<Rightarrow> bool" where
  "transport_crashed (Shm t) = (p_crashed t \<noteq> None)"
| "transport_crashed (ShmUds t) = (crashed t \<noteq> None)"
| "transport_crashed (ShmEventfd t) = (crashed t \<noteq> None)"
| "transport_crashed _ = False"

fun transport_size :: "('n, 'k) TransportEnum \<Rightarrow> nat" where
  "transport_size (Tcp t) = length (tonic_calls t)"
| "transport_size (Uds t) = length (tonic_calls t)"
| "transport_size (Shm t) = length (pcalls t)"
| "transport_size (ShmUds t) = length (calls t)"
| "transport_size (ShmEventfd t) = length (calls t)"

text \<open>
  Whether call \<open>k\<close>, still under way, may be suspended at an await. A gRPC call and a polling call
  may be anywhere; a call over the socket awaits the lock of the write half, the write and then
  its response; a call over eventfds awaits its response only, it has no await between the write
  to the ring and the signal.
\<close>

fun transport_parked :: "('n, 'k) TransportEnum \<Rightarrow> nat \<Rightarrow> bool" where
  "transport_parked (Tcp t) k = (tcp_call t k = None)"
| "transport_parked (Uds t) k = (grpc_uds_call t k = None)"
| "transport_parked (Shm t) k = (poll_result t k = None)"
| "transport_parked (ShmUds t) k = (call_phase (calls t ! k) \<in> {Written, Waiting})"
| "transport_parked (ShmEventfd t) k = (call_phase (calls t ! k) = Waiting)"

subsection \<open>The steps of the server\<close>

text \<open>An error of \<^verbatim>\<open>accept\<close> ends \<^verbatim>\<open>run_http_server\<close>, and with it the program.\<close>

definition http_accept :: "errno + unit \<Rightarrow> ('n, 'k) http_server \<Rightarrow> ('n, 'k) http_server" where
  "http_accept r s =
     (case r of
        Inl e \<Rightarrow> s\<lparr>accept_error := Some e\<rparr>
      | Inr _ \<Rightarrow> s\<lparr>http_conns := http_conns s @ [True]\<rparr>)"

definition http_request :: "nat \<Rightarrow> utf8 \<Rightarrow> ('n, 'k) http_server \<Rightarrow> ('n, 'k) http_server option" where
  "http_request conn path s =
     (if conn < length (http_conns s) \<and> http_conns s ! conn
      then Some (s\<lparr>handlers := handlers s @
             [\<lparr>h_conn = conn, h_path = path, h_body = [], h_elapsed = 0, h_phase = Collecting\<rparr>],
           stats := stats s @ [HTTP_REQUESTS_TOTAL_inc]\<rparr>)
      else None)"

definition http_collected ::
  "('n, 'k, 'j) http_env \<Rightarrow> nat \<Rightarrow> duration \<Rightarrow> body_frame list \<Rightarrow> utf8
   \<Rightarrow> ('n, 'k) http_server \<Rightarrow> ('n, 'k) http_server option" where
  "http_collected env h elapsed body i s =
     (if length (handlers s) \<le> h \<or> h_phase (handlers s ! h) \<noteq> Collecting then None
      else
        let hdl = handlers s ! h in
        case gateway_receive (env_js env) (h_path hdl) elapsed (collect_body body) of
          (Inl r, es) \<Rightarrow>
            Some (s\<lparr>handlers := (handlers s)[h := hdl\<lparr>h_phase := Answered r\<rparr>], stats := stats s @ es\<rparr>)
        | (Inr req, es) \<Rightarrow>
            Some ((set_link (transport_start i req (link s)) s)
              \<lparr>handlers := (handlers s)[h := hdl\<lparr>h_body := req_payload req, h_elapsed := elapsed,
                 h_phase := Calling (transport_size (link s))\<rparr>], stats := stats s @ es\<rparr>))"

definition http_advance ::
  "('n, 'k, 'j) http_env \<Rightarrow> nat \<Rightarrow> duration \<Rightarrow> string + EchoResponse
   \<Rightarrow> ('n, 'k) http_server \<Rightarrow> ('n, 'k) http_server option" where
  "http_advance env h d answer s =
     (if length (handlers s) \<le> h then None
      else case h_phase (handlers s ! h) of
        Calling k \<Rightarrow> map_option (\<lambda>t. set_link t s)
          (transport_advance (env_json env) (env_codec env) (env_sock env) (env_efd env) k d answer (link s))
      | _ \<Rightarrow> None)"

definition http_answer ::
  "('n, 'k, 'j) http_env \<Rightarrow> nat \<Rightarrow> duration \<Rightarrow> duration
   \<Rightarrow> ('n, 'k) http_server \<Rightarrow> ('n, 'k) http_server option" where
  "http_answer env h d2 d3 s =
     (if length (handlers s) \<le> h then None
      else case h_phase (handlers s ! h) of
        Calling k \<Rightarrow>
          map_option (\<lambda>r. let (resp, es) = gateway_answer (env_js env) (env_display env) d2 d3 r in
              s\<lparr>handlers := (handlers s)[h := (handlers s ! h)\<lparr>h_phase := Answered resp\<rparr>],
                stats := stats s @ es\<rparr>)
            (transport_call (link s) k)
      | _ \<Rightarrow> None)"

definition drop_handler :: "nat \<Rightarrow> handler \<Rightarrow> handler" where
  "drop_handler conn hdl =
     (if h_conn hdl = conn then
        (case h_phase hdl of Answered r \<Rightarrow> hdl | _ \<Rightarrow> hdl\<lparr>h_phase := Dropped\<rparr>)
      else hdl)"

definition http_close :: "nat \<Rightarrow> ('n, 'k) http_server \<Rightarrow> ('n, 'k) http_server option" where
  "http_close conn s =
     (if conn < length (http_conns s) \<and> http_conns s ! conn
        \<and> (\<forall>hdl \<in> set (handlers s). case h_phase hdl of
             Calling k \<Rightarrow> h_conn hdl = conn \<longrightarrow> transport_parked (link s) k | _ \<Rightarrow> True)
      then Some (s\<lparr>http_conns := (http_conns s)[conn := False], handlers := map (drop_handler conn) (handlers s)\<rparr>)
      else None)"

subsection \<open>Runs\<close>

datatype http_action =
    Accept "errno + unit"
  | Request nat utf8
  | Collected nat duration "body_frame list" utf8
  | Advance nat duration "string + EchoResponse"
  | Answer nat duration duration
  | Background background
  | Close nat

definition http_step ::
  "('n, 'k, 'j) http_env \<Rightarrow> http_action \<Rightarrow> ('n, 'k) http_server \<Rightarrow> ('n, 'k) http_server option" where
  "http_step env a s =
     (if accept_error s \<noteq> None \<or> transport_crashed (link s) then None
      else case a of
        Accept r \<Rightarrow> Some (http_accept r s)
      | Request conn path \<Rightarrow> http_request conn path s
      | Collected h elapsed body i \<Rightarrow> http_collected env h elapsed body i s
      | Advance h d answer \<Rightarrow> http_advance env h d answer s
      | Answer h d2 d3 \<Rightarrow> http_answer env h d2 d3 s
      | Background b \<Rightarrow> map_option (\<lambda>t. set_link t s) (transport_background env b (link s))
      | Close conn \<Rightarrow> http_close conn s)"

fun transport_fits :: "('n, 'k) TransportEnum \<Rightarrow> bool" where
  "transport_fits (Shm t) = poll_fits t"
| "transport_fits (ShmUds t) = rings_fit t"
| "transport_fits (ShmEventfd t) = rings_fit t"
| "transport_fits _ = True"

inductive http_reach ::
  "('n, 'k, 'j) http_env \<Rightarrow> ('n, 'k) http_server \<Rightarrow> ('n, 'k) http_server \<Rightarrow> bool" for env s0 where
  http_refl: "http_reach env s0 s0"
| http_next: "http_reach env s0 s \<Longrightarrow> transport_fits (link s) \<Longrightarrow> http_step env a s = Some t \<Longrightarrow>
     http_reach env s0 t"

subsection \<open>The transport inside the server\<close>

text \<open>How a step of the server moves its transport.\<close>

inductive link_step ::
  "('n, 'k, 'j) http_env \<Rightarrow> ('n, 'k) TransportEnum \<Rightarrow> ('n, 'k) TransportEnum \<Rightarrow> bool" for env where
  link_start: "link_step env t (transport_start i req t)"
| link_advance: "transport_advance (env_json env) (env_codec env) (env_sock env) (env_efd env) k d answer t = Some t'
     \<Longrightarrow> link_step env t t'"
| link_background: "transport_background env b t = Some t' \<Longrightarrow> link_step env t t'"

lemma http_step_link:
  assumes "http_step env a s = Some s'"
  shows "link s' = link s \<or> \<not> transport_crashed (link s) \<and> link_step env (link s) (link s')"
  using assms
  by (auto simp: http_step_def http_accept_def http_request_def http_collected_def http_advance_def
      http_answer_def http_close_def Let_def split_def
      intro: link_start link_advance link_background
      split: http_action.splits if_splits sum.splits prod.splits handler_phase.splits)

text \<open>Over the notified transports the moves are steps of theories \<open>Shm_Uds\<close> and \<open>Shm_Eventfd\<close>.\<close>

fun background_action :: "background \<Rightarrow> rpc_action" where
  "background_action Background_listen = Listen"
| "background_action (Background_serve d1 d2) = Serve"
| "background_action (Background_work j d) = Work j d"

lemma advance_uds:
  "transport_advance jc c ss es k d answer (ShmUds t) = Some u \<Longrightarrow> crashed t = None \<Longrightarrow>
     \<exists>t'. u = ShmUds t' \<and> uds_step c ss delay (Call k) t = Some t'"
  by (auto simp: uds_step_def)

lemma advance_efd:
  "transport_advance jc c ss es k d answer (ShmEventfd t) = Some u \<Longrightarrow> crashed t = None \<Longrightarrow>
     \<exists>t'. u = ShmEventfd t' \<and> efd_step c es delay (Call k) t = Some t'"
  by (auto simp: efd_step_def)

lemma background_uds:
  "transport_background env b (ShmUds t) = Some u \<Longrightarrow> crashed t = None \<Longrightarrow>
     \<exists>t'. u = ShmUds t' \<and> uds_step (env_codec env) (env_sock env) (env_delay env) (background_action b) t = Some t'"
  by (cases b) (auto simp: uds_step_def)

lemma background_efd:
  "transport_background env b (ShmEventfd t) = Some u \<Longrightarrow> crashed t = None \<Longrightarrow>
     \<exists>t'. u = ShmEventfd t' \<and> efd_step (env_codec env) (env_efd env) (env_delay env) (background_action b) t = Some t'"
  by (cases b) (auto simp: efd_step_def)

lemma link_step_uds:
  assumes "link_step env (ShmUds t) u" "crashed t = None"
  shows "\<exists>a t'. u = ShmUds t' \<and> uds_step (env_codec env) (env_sock env) (env_delay env) a t = Some t'"
  using assms(1)
proof (cases rule: link_step.cases)
  case (link_start i req)
  then have "uds_step (env_codec env) (env_sock env) (env_delay env) (Start i req) t = Some (rpc_insert i req t)"
    using assms(2) by (simp add: uds_step_def)
  with link_start show ?thesis by auto
next
  case (link_advance k d answer)
  with advance_uds [OF _ assms(2)] show ?thesis by blast
next
  case (link_background b)
  with background_uds [OF _ assms(2)] show ?thesis by blast
qed

lemma link_step_efd:
  assumes "link_step env (ShmEventfd t) u" "crashed t = None"
  shows "\<exists>a t'. u = ShmEventfd t' \<and> efd_step (env_codec env) (env_efd env) (env_delay env) a t = Some t'"
  using assms(1)
proof (cases rule: link_step.cases)
  case (link_start i req)
  then have "efd_step (env_codec env) (env_efd env) (env_delay env) (Start i req) t = Some (rpc_insert i req t)"
    using assms(2) by (simp add: efd_step_def)
  with link_start show ?thesis by auto
next
  case (link_advance k d answer)
  with advance_efd [OF _ assms(2)] show ?thesis by blast
next
  case (link_background b)
  with background_efd [OF _ assms(2)] show ?thesis by blast
qed

lemma http_reach_uds:
  assumes "http_reach env (http_boot (ShmUds t0)) s"
  shows "\<exists>t. link s = ShmUds t \<and> uds_reach (env_codec env) (env_sock env) (env_delay env) t0 t"
  using assms
proof induction
  case http_refl
  show ?case by (auto simp: http_boot_def Gateway_new_def intro: uds_refl)
next
  case (http_next s a s')
  then obtain t where t: "link s = ShmUds t" "uds_reach (env_codec env) (env_sock env) (env_delay env) t0 t"
    by blast
  from http_step_link [OF http_next.hyps(3)] show ?case
  proof
    assume "\<not> transport_crashed (link s) \<and> link_step env (link s) (link s')"
    then obtain b t' where "link s' = ShmUds t'" "uds_step (env_codec env) (env_sock env) (env_delay env) b t = Some t'"
      using link_step_uds [of env t "link s'"] t(1) by auto
    then show ?thesis using uds_next [OF t(2)] http_next.hyps(2) t(1) by auto
  qed (use t in auto)
qed

lemma http_reach_efd:
  assumes "http_reach env (http_boot (ShmEventfd t0)) s"
  shows "\<exists>t. link s = ShmEventfd t \<and> efd_reach (env_codec env) (env_efd env) (env_delay env) t0 t"
  using assms
proof induction
  case http_refl
  show ?case by (auto simp: http_boot_def Gateway_new_def intro: efd_refl)
next
  case (http_next s a s')
  then obtain t where t: "link s = ShmEventfd t" "efd_reach (env_codec env) (env_efd env) (env_delay env) t0 t"
    by blast
  from http_step_link [OF http_next.hyps(3)] show ?case
  proof
    assume "\<not> transport_crashed (link s) \<and> link_step env (link s) (link s')"
    then obtain b t' where "link s' = ShmEventfd t'" "efd_step (env_codec env) (env_efd env) (env_delay env) b t = Some t'"
      using link_step_efd [of env t "link s'"] t(1) by auto
    then show ?thesis using efd_next [OF t(2)] http_next.hyps(2) t(1) by auto
  qed (use t in auto)
qed

end
