(* ===== verification/Eventfd_Properties.thy ===== *)
theory Eventfd_Properties
  imports Shm_Eventfd Rpc_Examples
begin

section \<open>Properties of the eventfd-notified transport\<close>

text \<open>
  The counterpart of \<open>Uds_Properties\<close>. The guarantees are stronger than over the socket: an
  open eventfd never refuses a signal here, because rings of at most 4 GiB keep its counter far
  below the maximum, so both directions are accounted for exactly and no failure of a
  notification has to be assumed away.
\<close>

subsection \<open>Round trip\<close>

definition efd_idle :: "'k efd_view \<Rightarrow> 'k efd_rpc \<Rightarrow> bool" where
  "efd_idle view s \<longleftrightarrow> efd_fresh view (kernel s) (gateway_fds s) (backend_fds s)
     \<and> crashed s = None \<and> server s = Awaiting \<and> listener s = Awaiting
     \<and> ring_rep (req_ring s) [] \<and> ring_rep (resp_ring s) []
     \<and> length (request_buf s) = 65536 \<and> length (response_buf s) = 65536"

lemma efd_reach_trans:
  assumes "efd_reach c sys delay s t" "efd_reach c sys delay r s"
  shows "efd_reach c sys delay r t"
  using assms by induction (auto intro: efd_next)

text \<open>A signal of one side and the wait of the other, on either file, leave the counters at zero.\<close>

lemma link_request:
  assumes laws: "efd_laws sys view" and fresh: "efd_fresh view k gs bs"
  obtains k1 k2 where "signal_eventfd sys (fst gs) k = (Inr (), k1)"
    "wait_eventfd_async sys (fst bs) k1 = (Some (Inr 1), k2)" "efd_fresh view k2 gs bs"
proof -
  have linked: "efd_linked view k gs bs" using fresh by (simp add: efd_fresh_def)
  have "(0::nat) < efd_max" by (simp add: efd_max_def)
  then obtain k1 where k1: "signal_eventfd sys (fst gs) k = (Inr (), k1)" "counts_to view k (fst gs) (1, False) k1"
    using signal_open [OF laws, of k "fst gs" 0 False] fresh by (auto simp: efd_fresh_def)
  have linked1: "efd_linked view k1 gs bs" using counts_to_linked [OF k1(2)] linked by simp
  then have "shown view k1 (fst bs) = Some (1, False)" using linked_counts(3) [OF linked k1(2)] linked_shown by metis
  then obtain k2 where k2: "wait_eventfd_async sys (fst bs) k1 = (Some (Inr 1), k2)" "counts_to view k1 (fst bs) (0, False) k2"
    by (rule wait_open [OF laws]) auto
  have "efd_fresh view k2 gs bs"
    using linked_counts(3) [OF linked k1(2)] linked_counts(1,3) [OF linked1] k2(2) counts_to_linked [OF k2(2)] linked1 fresh
    by (simp add: efd_fresh_def)
  with k1(1) k2(1) that show ?thesis by blast
qed

lemma efd_fresh_swap: "efd_fresh view k (snd bs, fst bs) (snd gs, fst gs) = efd_fresh view k gs bs"
  by (auto simp: efd_fresh_def efd_linked_def shown_def)

lemma link_response:
  assumes laws: "efd_laws sys view" and fresh: "efd_fresh view k gs bs"
  obtains k1 k2 where "signal_eventfd sys (snd bs) k = (Inr (), k1)"
    "wait_eventfd_async sys (snd gs) k1 = (Some (Inr 1), k2)" "efd_fresh view k2 gs bs"
  using link_request [OF laws, of k "(snd bs, fst bs)" "(snd gs, fst gs)"] fresh by (auto simp: efd_fresh_swap)

text \<open>The first half: the request reaches a worker.\<close>

definition efd_at_worker :: "nat \<Rightarrow> utf8 \<Rightarrow> EchoRequest \<Rightarrow> ring \<Rightarrow> bytes \<Rightarrow> 'k \<Rightarrow> 'k efd_rpc \<Rightarrow> 'k efd_rpc" where
  "efd_at_worker n i req q b k s =
     s\<lparr>pending := (pending s)(i \<mapsto> n),
       calls := calls s @ [\<lparr>call_id = i, call_req = req, call_phase = Waiting, mailbox = None\<rparr>],
       req_ring := q, request_buf := b, workers := workers s @ [Sleeping i req], kernel := k\<rparr>"

lemma efd_request_moves:
  assumes codec: "codec_laws c" and laws: "efd_laws sys view" and idle: "efd_idle view s"
    and req: "enc_request c (i, req) = Inr m" "length m \<le> 65536"
    and room: "ring_wp (req_ring s) + length m + 8 \<le> ring_cap (req_ring s)"
    and fit: "prefix_fits (resp_ring s)"
  obtains q b k where "efd_reach c sys delay (rpc_insert i req s) (efd_at_worker (length (calls s)) i req q b k s)"
    and "prefix_fits q" "ring_rep q []" "length b = 65536" "efd_fresh view k (gateway_fds s) (backend_fds s)"
proof -
  let ?n = "length (calls s)"
  note idleD = idle [unfolded efd_idle_def]
  have big: "length (request_buf s) \<le> isize_max" using idleD by (simp add: isize_max_def)
  define b where "b = m @ drop (length m) (request_buf s)"
  obtain q1 q2 where q: "ring_write (req_ring s) m = (Ok (len_usize m), q1)" "prefix_fits q1"
    "ring_read q1 (request_buf s) = (Ok (len_usize m), b, q2)" "prefix_fits q2" "ring_rep q2 []"
    unfolding b_def
    by (rule ring_one_message [of "req_ring s" m "request_buf s"]) (use idleD room req big in auto)
  have fitq: "prefix_fits (req_ring s)" using room by (simp add: prefix_fits_def)
  have dec: "dec_request c m = Inr (i, req)" "length m \<le> isize_max" "m \<noteq> []"
    using codec_request [OF codec req(1)] by auto
  have take: "take (length m) b = m" by (simp add: b_def)
  obtain k1 k2 where k: "signal_eventfd sys (request_event s) (kernel s) = (Inr (), k1)"
    "wait_eventfd_async sys (request_async_fd s) k1 = (Some (Inr 1), k2)" "efd_fresh view k2 (gateway_fds s) (backend_fds s)"
    using link_request [OF laws, of "kernel s" "gateway_fds s" "backend_fds s"] idleD by auto
  define call where "call = (\<lambda>ph. \<lparr>call_id = i, call_req = req, call_phase = ph, mailbox = None\<rparr>)"
  define s1 where "s1 = rpc_insert i req s"
  define s2 where "s2 = s1\<lparr>req_ring := q1, calls := calls s @ [call Written]\<rparr>"
  define s3 where "s3 = s2\<lparr>kernel := k1, calls := calls s @ [call Waiting]\<rparr>"
  define s4 where "s4 = s3\<lparr>kernel := k2, server := Serving 1\<rparr>"
  define s5 where "s5 = s4\<lparr>req_ring := q2, request_buf := b,
    server := Awaiting, workers := workers s @ [Sleeping i req]\<rparr>"
  note defs = s1_def s2_def s3_def s4_def s5_def rpc_insert_def
  note ev = efd_step_def efd_call_def efd_notify_def efd_serve_def server_wait_same resume_def
  have st2: "efd_step c sys delay (Call ?n) s1 = Some s2"
    using idleD q(1) req(1) by (simp add: ev defs rpc_send_def set_phase_def call_def)
  have st3: "efd_step c sys delay (Call ?n) s2 = Some s3"
    using idleD k by (simp add: ev defs set_phase_def call_def)
  have st4: "efd_step c sys delay Serve s3 = Some s4"
    using idleD k by (simp add: ev defs)
  have st5: "efd_step c sys delay Serve s4 = Some s5"
    using idleD q(3) dec take by (simp add: ev defs rpc_fetch_request_def rpc_spawn_def)
  have f: "rings_fit s1" "rings_fit s2" "rings_fit s3" "rings_fit s4"
    using q fit fitq by (simp_all add: rings_fit_def defs)
  have "efd_reach c sys delay (rpc_insert i req s) s5"
    unfolding s1_def [symmetric]
    by (rule efd_next [OF _ f(4) st5], rule efd_next [OF _ f(3) st4], rule efd_next [OF _ f(2) st3],
        rule efd_next [OF _ f(1) st2], rule efd_refl)
  moreover have "s5 = efd_at_worker ?n i req q2 b k2 s"
    using idleD by (simp add: efd_at_worker_def defs call_def)
  moreover have "length b = 65536" using idleD req(2) by (simp add: b_def)
  ultimately show ?thesis using that q(4,5) k(3) by simp
qed

text \<open>The second half: the response reaches the caller.\<close>

lemma efd_response_moves:
  assumes codec: "codec_laws c" and laws: "efd_laws sys view" and idle: "efd_idle view s" and delay: "delay \<le> d"
    and resp: "enc_response c (i, echo_response d req) = Inr p" "length p \<le> 65536"
    and room: "ring_wp (resp_ring s) + length p + 8 \<le> ring_cap (resp_ring s)"
    and at: "prefix_fits q" "ring_rep q []" "length b = 65536" "efd_fresh view k2 (gateway_fds s) (backend_fds s)"
  shows "\<exists>t. efd_reach c sys delay (efd_at_worker (length (calls s)) i req q b k2 s) t \<and> efd_idle view t \<and> rings_fit t
    \<and> workers t = workers s @ [Replied i]
    \<and> calls t = calls s @ [\<lparr>call_id = i, call_req = req,
        call_phase = Finished (Ok (echo_response d req)), mailbox = Some (echo_response d req)\<rparr>]"
proof -
  let ?n = "length (calls s)" and ?w = "length (workers s)" and ?resp = "echo_response d req"
  note idleD = idle [unfolded efd_idle_def]
  have big: "length (response_buf s) \<le> isize_max" using idleD by (simp add: isize_max_def)
  have fit: "prefix_fits (resp_ring s)" using room by (simp add: prefix_fits_def)
  define bp where "bp = p @ drop (length p) (response_buf s)"
  obtain p1 p2 where p: "ring_write (resp_ring s) p = (Ok (len_usize p), p1)" "prefix_fits p1"
    "ring_read p1 (response_buf s) = (Ok (len_usize p), bp, p2)" "prefix_fits p2" "ring_rep p2 []"
    unfolding bp_def
    by (rule ring_one_message [of "resp_ring s" p "response_buf s"]) (use idleD room resp big in auto)
  have dec: "dec_response c p = Inr (i, ?resp)" "length p \<le> isize_max" "p \<noteq> []"
    using codec_response [OF codec resp(1)] by auto
  have take: "take (length p) bp = p" by (simp add: bp_def)
  obtain k3 k4 where k: "signal_eventfd sys (server_response_event s) k2 = (Inr (), k3)"
    "wait_eventfd_async sys (response_event s) k3 = (Some (Inr 1), k4)" "efd_fresh view k4 (gateway_fds s) (backend_fds s)"
    using link_response [OF laws at(4)] by auto
  define call where "call = (\<lambda>ph mb. \<lparr>call_id = i, call_req = req, call_phase = ph, mailbox = mb\<rparr>)"
  define s5 where "s5 = efd_at_worker ?n i req q b k2 s"
  define s6 where "s6 = s5\<lparr>resp_ring := p1, workers := workers s @ [Notifying i]\<rparr>"
  define s7 where "s7 = s6\<lparr>kernel := k3, workers := workers s @ [Replied i]\<rparr>"
  define s8 where "s8 = s7\<lparr>kernel := k4, listener := Serving 1\<rparr>"
  define s9 where "s9 = s8\<lparr>resp_ring := p2, response_buf := bp, listener := Dispatching 0 i ?resp\<rparr>"
  define s10 where "s10 = s9\<lparr>pending := (pending s)(i := None),
    calls := calls s @ [call Waiting (Some ?resp)], listener := Awaiting\<rparr>"
  define s11 where "s11 = s10\<lparr>calls := calls s @ [call (Finished (Ok ?resp)) (Some ?resp)]\<rparr>"
  note defs = s5_def s6_def s7_def s8_def s9_def s10_def s11_def efd_at_worker_def
  note ev = efd_step_def efd_call_def efd_listen_def efd_work_def server_signal_same resume_def
  have st6: "efd_step c sys delay (Work ?w d) s5 = Some s6"
    using idleD p(1) resp(1) delay by (simp add: ev defs rpc_reply_def set_worker_def)
  have st7: "efd_step c sys delay (Work ?w d) s6 = Some s7"
    using idleD k by (simp add: ev defs set_worker_def)
  have st8: "efd_step c sys delay Listen s7 = Some s8"
    using idleD k by (simp add: ev defs)
  have st9: "efd_step c sys delay Listen s8 = Some s9"
    using idleD p(3) dec take by (simp add: ev defs rpc_fetch_response_def)
  have at9: "listener s9 = Dispatching 0 i ?resp" "crashed s9 = None"
    "pending s9 = (pending s)(i \<mapsto> ?n)" "calls s9 = calls s @ [call Waiting None]"
    using idleD by (simp_all add: defs call_def)
  have "rpc_dispatch i ?resp s9 = s9\<lparr>pending := (pending s)(i := None),
      calls := calls s @ [call Waiting (Some ?resp)]\<rparr>"
    by (simp add: rpc_dispatch_def at9 deliver_def call_def)
  then have st10: "efd_step c sys delay Listen s9 = Some s10"
    by (simp add: efd_step_def efd_listen_def at9(1,2) s10_def resume_def)
  have st11: "efd_step c sys delay (Call ?n) s10 = Some s11"
    using idleD by (simp add: ev defs rpc_receive_def set_phase_def call_def)
  have f: "rings_fit s5" "rings_fit s6" "rings_fit s7" "rings_fit s8" "rings_fit s9" "rings_fit s10" "rings_fit s11"
    using at p fit by (simp_all add: rings_fit_def defs)
  have "efd_reach c sys delay s5 s11"
    by (rule efd_next [OF _ f(6) st11], rule efd_next [OF _ f(5) st10], rule efd_next [OF _ f(4) st9],
        rule efd_next [OF _ f(3) st8], rule efd_next [OF _ f(2) st7], rule efd_next [OF _ f(1) st6], rule efd_refl)
  moreover have "efd_idle view s11"
    using idleD at p(5) k resp(2) by (simp add: efd_idle_def defs bp_def)
  ultimately show ?thesis using f(7) by (intro exI [of _ s11]) (simp add: call_def defs)
qed

lemma efd_round_trip_moves:
  assumes codec: "codec_laws c" and laws: "efd_laws sys view"
    and idle: "efd_idle view s" and delay: "delay \<le> d"
    and req: "enc_request c (i, req) = Inr m" "length m \<le> 65536"
    and resp: "enc_response c (i, echo_response d req) = Inr p" "length p \<le> 65536"
    and room: "ring_wp (req_ring s) + length m + 8 \<le> ring_cap (req_ring s)"
      "ring_wp (resp_ring s) + length p + 8 \<le> ring_cap (resp_ring s)"
  shows "\<exists>t. efd_reach c sys delay (rpc_insert i req s) t \<and> efd_idle view t \<and> rings_fit t \<and> workers t = workers s @ [Replied i]
    \<and> calls t = calls s @ [\<lparr>call_id = i, call_req = req,
        call_phase = Finished (Ok (echo_response d req)), mailbox = Some (echo_response d req)\<rparr>]"
proof -
  have "prefix_fits (resp_ring s)" using room by (simp add: prefix_fits_def)
  then obtain q b k where half: "efd_reach c sys delay (rpc_insert i req s) (efd_at_worker (length (calls s)) i req q b k s)"
    and at: "prefix_fits q" "ring_rep q []" "length b = 65536" "efd_fresh view k (gateway_fds s) (backend_fds s)"
    by (rule efd_request_moves [OF codec laws idle req room(1)])
  from efd_response_moves [OF codec laws idle delay resp room(2) at] efd_reach_trans [OF _ half]
  show ?thesis by meson
qed

lemma efd_round_trip_run:
  assumes "codec_laws c" "efd_laws sys view"
    and "efd_idle view s" "delay \<le> d"
    and "enc_request c (i, req) = Inr m" "length m \<le> 65536"
    and "enc_response c (i, echo_response d req) = Inr p" "length p \<le> 65536"
    and room: "ring_wp (req_ring s) + length m + 8 \<le> ring_cap (req_ring s)"
      "ring_wp (resp_ring s) + length p + 8 \<le> ring_cap (resp_ring s)"
  shows "\<exists>t. efd_reach c sys delay s t \<and> efd_idle view t \<and> workers t = workers s @ [Replied i]
    \<and> calls t = calls s @ [\<lparr>call_id = i, call_req = req,
        call_phase = Finished (Ok (echo_response d req)), mailbox = Some (echo_response d req)\<rparr>]"
proof -
  obtain t where t: "efd_reach c sys delay (rpc_insert i req s) t" "efd_idle view t \<and> workers t = workers s @ [Replied i]
    \<and> calls t = calls s @ [\<lparr>call_id = i, call_req = req,
        call_phase = Finished (Ok (echo_response d req)), mailbox = Some (echo_response d req)\<rparr>]"
    using efd_round_trip_moves [OF assms] by blast
  have "efd_reach c sys delay s (rpc_insert i req s)"
    by (rule efd_next [OF efd_refl, where a = "Start i req"])
      (use assms(3) room in \<open>simp_all add: efd_idle_def efd_step_def rings_fit_def prefix_fits_def\<close>)
  from efd_reach_trans [OF t(1) this] t(2) show ?thesis by blast
qed

subsection \<open>States in which no task can move\<close>

definition efd_rests :: "codec \<Rightarrow> 'k efd_sys \<Rightarrow> duration \<Rightarrow> 'k efd_rpc \<Rightarrow> bool" where
  "efd_rests c sys delay s \<longleftrightarrow> efd_listen c sys s = None
     \<and> efd_serve c sys s = None \<and> (\<forall>j d. efd_work c sys delay j d s = None)"

lemma efd_quiet_workers:
  assumes "efd_rests c sys delay s"
  shows "Sleeping i req \<notin> set (workers s)" "Notifying i \<notin> set (workers s)"
proof -
  have q: "efd_work c sys delay j delay s = None" for j using assms by (simp add: efd_rests_def)
  show "Sleeping i req \<notin> set (workers s)"
  proof
    assume "Sleeping i req \<in> set (workers s)"
    then obtain j where "j < length (workers s)" "workers s ! j = Sleeping i req"
      by (metis in_set_conv_nth)
    with q [of j] show False by (simp add: efd_work_def)
  qed
  show "Notifying i \<notin> set (workers s)"
  proof
    assume "Notifying i \<in> set (workers s)"
    then obtain j where "j < length (workers s)" "workers s ! j = Notifying i"
      by (metis in_set_conv_nth)
    with q [of j] show False by (auto simp: efd_work_def split: prod.splits sum.splits)
  qed
qed

lemma efd_quiet_calls:
  assumes "efd_call c sys k s = None" "k < length (calls s)"
  shows "finished_phase (call_phase (calls s ! k))
    \<or> call_phase (calls s ! k) = Waiting \<and> mailbox (calls s ! k) = None
      \<and> pending s (call_id (calls s ! k)) = Some k"
  using assms
  by (cases "call_phase (calls s ! k)")
    (auto simp: efd_call_def rpc_receive_def Let_def split: option.splits if_splits)

lemma efd_quiet_queues:
  assumes laws: "efd_laws sys view" and inv: "efd_inv c view s qs ps"
    and fits: "fits_buffers c 65536 65536 (tickets s)" and quiet: "efd_rests c sys delay s" "unnotified s = 0"
  shows "qs = []" "ps = []" "task_ids (listener s) = []"
proof -
  have q: "efd_serve c sys s = None" "efd_listen c sys s = None"
    using quiet(1) by (simp_all add: efd_rests_def)
  have led: "efd_ledger (shown view (kernel s)) s qs ps" using inv fits by (simp add: efd_inv_def)
  have srv: "server s = Awaiting"
    using inv q(1)
    by (cases "server s") (auto simp: efd_inv_def efd_serve_def split: prod.splits outcome.splits sum.splits if_splits)
  have lst: "listener s = Awaiting"
    using inv q(2)
    by (cases "listener s") (auto simp: efd_inv_def efd_listen_def split: prod.splits outcome.splits sum.splits if_splits)
  have "shown view (kernel s) (request_async_fd s) = Some (length qs, False)"
    using led srv quiet(2) efd_backend_fds(1) [OF inv] by (simp add: efd_ledger_def)
  with laws have "length qs = 0"
    by (cases rule: wait_open) (use q(1) srv in \<open>simp_all add: efd_serve_def server_wait_same\<close>)
  then show "qs = []" by simp
  have "\<not> announcing_worker w" if "w \<in> set (workers s)" for w
    using efd_quiet_workers(2) [OF quiet(1)] that by (cases w) auto
  then have "announcing s = 0" by (simp add: announcing_def filter_False)
  then have "shown view (kernel s) (response_event s) = Some (length ps, False)"
    using led lst by (simp add: efd_ledger_def)
  from laws this have "length ps = 0"
    by (cases rule: wait_open) (use q(2) lst in \<open>simp_all add: efd_listen_def\<close>)
  then show "ps = []" by simp
  show "task_ids (listener s) = []" by (simp add: lst)
qed

text \<open>So a call that waits in such a state has lost its response.\<close>

lemma efd_quiet_call:
  assumes inv: "efd_inv c view s qs ps" and laws: "codec_laws c" "efd_laws sys view"
    and fits: "fits_buffers c 65536 65536 (tickets s)" and quiet: "efd_rests c sys delay s" "unnotified s = 0"
    and call: "efd_call c sys k s = None" "k < length (calls s)"
  shows "finished_phase (call_phase (calls s ! k)) \<or> (\<exists>e. Lost (call_id (calls s ! k)) e \<in> set (workers s))"
proof (cases "finished_phase (call_phase (calls s ! k))")
  case False
  let ?i = "call_id (calls s ! k)"
  have "call_phase (calls s ! k) = Waiting" "pending s ?i = Some k"
    using efd_quiet_calls [OF call] False by auto
  then have "expected s ?i" by (simp add: expected_def)
  then have "?i \<in> set (inflight s qs ps)"
    using rpc_invD(7) [OF efd_inv_rpc [OF inv]] by (simp add: flow_inv_def)
  then obtain w where w: "w \<in> set (workers s)" "?i \<in> set (worker_ids w)"
    using efd_quiet_queues [OF laws(2) inv fits quiet] by (auto simp: inflight_def)
  have "\<exists>e. w = Lost ?i e"
  proof (cases w)
    case (Sleeping i req)
    with w efd_quiet_workers(1) [OF quiet(1)] show ?thesis by blast
  qed (use w in auto)
  with w show ?thesis by blast
qed simp


subsection \<open>A start state for the witnesses\<close>

definition efd_kernel0 :: efd_kernel where
  "efd_kernel0 = \<lparr>descriptors = [(5, 0), (6, 1), (7, 0), (8, 1)], counters = (\<lambda>_. (0, False))\<rparr>"

lemma efd_kernel0_fresh: "efd_fresh ref_view efd_kernel0 (5, 6) (7, 8)"
  by (simp add: efd_fresh_def efd_linked_def shown_def ref_view_def ref_count_def efd_kernel0_def)

definition efd_demo :: "efd_kernel efd_rpc" where
  "efd_demo = efd_boot ring_default ring_default (5, 6) (7, 8) efd_kernel0"

lemma efd_demo_idle: "efd_idle ref_view efd_demo"
  by (simp add: efd_idle_def efd_demo_def efd_boot_def ring_default_nat efd_kernel0_fresh)

lemma efd_demo_done:
  obtains t where "efd_reach ref_codec ref_efd 1000 efd_demo t" "fresh_ids t"
    and "efd_idle ref_view t" "workers t = [Replied [1]]"
    and "calls t = [\<lparr>call_id = [1], call_req = req_hi,
        call_phase = Finished (Ok (echo_response 1000 req_hi)), mailbox = Some (echo_response 1000 req_hi)\<rparr>]"
proof -
  have "\<exists>t. efd_reach ref_codec ref_efd 1000 efd_demo t
    \<and> efd_idle ref_view t \<and> workers t = workers efd_demo @ [Replied [1]]
    \<and> calls t = calls efd_demo @ [\<lparr>call_id = [1], call_req = req_hi,
        call_phase = Finished (Ok (echo_response 1000 req_hi)), mailbox = Some (echo_response 1000 req_hi)\<rparr>]"
    by (rule efd_round_trip_run [OF ref_codec_laws ref_efd_laws efd_demo_idle _
          ref_enc_hi(1) _ ref_enc_hi(3)])
      (simp_all add: ref_enc_hi efd_demo_def efd_boot_def ring_default_nat)
  then show ?thesis
    using that by (auto simp: efd_demo_def efd_boot_def fresh_ids_def tickets_def)
qed

lemma efd_demo_done_quiet:
  assumes "efd_idle ref_view t" "workers t = [Replied [1]]"
    and "calls t = [\<lparr>call_id = [1], call_req = req_hi,
        call_phase = Finished (Ok (echo_response 1000 req_hi)), mailbox = Some (echo_response 1000 req_hi)\<rparr>]"
  shows "efd_rests ref_codec ref_efd 1000 t" "efd_call ref_codec ref_efd k t = None"
proof -
  have fresh: "efd_fresh ref_view (kernel t) (gateway_fds t) (backend_fds t)" using assms(1) by (simp add: efd_idle_def)
  then have "shown ref_view (kernel t) (request_async_fd t) = Some (0, False)"
    "shown ref_view (kernel t) (response_event t) = Some (0, False)"
    using linked_shown(1) by (fastforce simp: efd_fresh_def)+
  then have z: "sys_read ref_efd (request_async_fd t) 8 (kernel t) = (Inl EAGAIN, kernel t)"
    "sys_read ref_efd (response_event t) 8 (kernel t) = (Inl EAGAIN, kernel t)"
    using efd_zero [OF ref_efd_laws] by blast+
  show "efd_call ref_codec ref_efd k t = None"
    by (cases k) (simp_all add: efd_call_def assms(3))
  have "efd_work ref_codec ref_efd 1000 j d t = None" for j d
    by (cases j) (simp_all add: efd_work_def assms(2))
  then show "efd_rests ref_codec ref_efd 1000 t"
    using assms(1) z
    by (simp add: efd_rests_def efd_idle_def efd_listen_def efd_serve_def wait_eventfd_async_def
        server_wait_same)
qed

subsection \<open>Properties\<close>

text \<open>C13. A call on an idle connection can complete over the eventfds: there is a schedule in which
  it returns the response of its own request, after which the connection is idle again. This for
  messages of at most 65536 bytes, each of which lies in its ring, with its prefix and the next one,
  without reaching the end of the area.\<close>

theorem efd_round_trip:
  assumes "codec_laws c" "efd_laws sys view" "efd_idle view s" "delay \<le> d"
    and "enc_request c (i, req) = Inr m" "length m \<le> 65536"
    and "enc_response c (i, echo_response d req) = Inr p" "length p \<le> 65536"
    and "ring_wp (req_ring s) + length m + 8 \<le> ring_cap (req_ring s)"
    and "ring_wp (resp_ring s) + length p + 8 \<le> ring_cap (resp_ring s)"
  shows "\<exists>t. efd_reach c sys delay s t \<and> efd_idle view t \<and> length (calls t) = length (calls s) + 1
    \<and> call_phase (last (calls t)) = Finished (Ok (echo_response d req))"
  using efd_round_trip_run [OF assms] by fastforce

theorem efd_round_trip_witness:
  "\<exists>t. efd_reach ref_codec ref_efd 1000 efd_demo t
    \<and> call_phase (last (calls t)) = Finished (Ok (echo_response 2000 req_hi))"
proof -
  have "\<exists>t. efd_reach ref_codec ref_efd 1000 efd_demo t \<and> efd_idle ref_view t \<and> length (calls t) = length (calls efd_demo) + 1
    \<and> call_phase (last (calls t)) = Finished (Ok (echo_response 2000 req_hi))"
    by (rule efd_round_trip [OF ref_codec_laws ref_efd_laws efd_demo_idle _
          ref_enc_hi(1) _ ref_enc_hi(3)])
      (simp_all add: ref_enc_hi efd_demo_def efd_boot_def ring_default_nat)
  then show ?thesis by blast
qed

text \<open>C7. No cross-talk over the eventfds: in every reachable state a call that has returned a
  response has returned an echo of its own request; no call fails to notify or returns
  \<open>Response channel closed\<close>, and neither listening task has ended.\<close>

theorem efd_no_cross_talk:
  assumes "codec_laws c" "efd_laws sys view" "ring_rep rq []" "ring_rep rp []" "efd_fresh view k0 gs bs"
    and "efd_reach c sys delay (efd_boot rq rp gs bs k0) s" "fresh_ids s" "k < length (calls s)"
  shows "(\<forall>resp. call_phase (calls s ! k) = Finished (Ok resp) \<longrightarrow> echoes (call_req (calls s ! k)) resp)
    \<and> (\<forall>e. call_phase (calls s ! k) \<noteq> Finished (Err (NotifyFailed e)))
    \<and> call_phase (calls s ! k) \<noteq> Finished (Err ChannelClosed)
    \<and> \<not> exited (server s) \<and> \<not> exited (listener s) \<and> crashed s = None"
proof -
  obtain qs ps where inv: "efd_inv c view s qs ps" using efd_run_inv [OF assms(1-7)] by blast
  then have rpc: "rpc_inv c s qs ps" by (rule efd_inv_rpc)
  have "\<not> exited x" if "task_running x" for x using that by (cases x) auto
  with call_invD [OF rpc assms(8)] rpc_invD(1) [OF rpc] inv assms(8) show ?thesis
    by (simp add: call_inv_def Let_def efd_inv_def)
qed

theorem efd_no_cross_talk_witness:
  "\<exists>t. call_phase (calls t ! 0) = Finished (Ok (echo_response 1000 req_hi))
     \<and> efd_reach ref_codec ref_efd 1000 efd_demo t \<and> echoes req_hi (echo_response 1000 req_hi)"
proof -
  obtain t where t: "efd_reach ref_codec ref_efd 1000 efd_demo t" "fresh_ids t"
    "calls t = [\<lparr>call_id = [1], call_req = req_hi,
      call_phase = Finished (Ok (echo_response 1000 req_hi)), mailbox = Some (echo_response 1000 req_hi)\<rparr>]"
    by (rule efd_demo_done)
  have "\<forall>resp. call_phase (calls t ! 0) = Finished (Ok resp) \<longrightarrow> echoes (call_req (calls t ! 0)) resp"
    using efd_no_cross_talk [OF ref_codec_laws ref_efd_laws _ _ _ t(1) [unfolded efd_demo_def] t(2), of 0] t(3)
    by (simp add: ring_default_nat efd_kernel0_fresh)
  with t show ?thesis by (intro exI [of _ t]) simp
qed

text \<open>C11. While all messages fit the 64 KiB buffers (and identifiers differ and no prefix straddles), both counters are exact: the request (response)
  ring holds as many messages as the counter shows, plus those written but not yet announced,
  plus the reads the server (the listener) has still to make in its loop. So every read of
  either loop finds a message.\<close>

theorem efd_ledger_exact:
  assumes "codec_laws c" "efd_laws sys view" "ring_rep rq []" "ring_rep rp []" "efd_fresh view k0 gs bs"
    and "efd_reach c sys delay (efd_boot rq rp gs bs k0) s" "fresh_ids s"
    and "fits_buffers c 65536 65536 (tickets s)"
  shows "(\<exists>qs ps cq cp. carries (enc_request c) (req_ring s) qs \<and> carries (enc_response c) (resp_ring s) ps
      \<and> shown view (kernel s) (request_event s) = Some (cq, False)
      \<and> shown view (kernel s) (response_event s) = Some (cp, False)
      \<and> length qs = cq + unnotified s + owed (server s)
      \<and> length ps = cp + announcing s + owed (listener s))
    \<and> (\<forall>n. server s = Serving n \<longrightarrow> (\<exists>m. fst (rpc_fetch_request s) = Ok m))
    \<and> (\<forall>n. listener s = Serving n \<longrightarrow> (\<exists>m. fst (rpc_fetch_response s) = Ok m))"
proof -
  obtain qs ps where inv: "efd_inv c view s qs ps" using efd_run_inv [OF assms(1-7)] by blast
  note rpc = efd_inv_rpc [OF inv]
  have led: "efd_ledger (shown view (kernel s)) s qs ps" using inv assms(8) by (simp add: efd_inv_def)
  have "\<exists>m. fst (rpc_fetch_request s) = Ok m" if "server s = Serving n" for n
    using assms(1) rpc
  proof (cases rule: rpc_fetch_request_inv)
    case (empty r b)
    with led that inv show ?thesis by (simp add: efd_ledger_def efd_inv_def)
  next
    case (short r b x qs' m)
    with fits_request [of c s x qs' ps] rpc assms(8) inv show ?thesis
      by (fastforce simp: efd_inv_def)
  qed simp
  moreover have "\<exists>m. fst (rpc_fetch_response s) = Ok m" if l: "listener s = Serving n" for n
  proof -
    have "task_ids (listener s) = []" using l by simp
    from assms(1) rpc this show ?thesis
    proof (cases rule: rpc_fetch_response_inv)
      case (empty r b)
      with led l inv show ?thesis by (simp add: efd_ledger_def efd_inv_def)
    next
      case (short r b x ps' m)
      with fits_response [of c s qs x ps'] rpc assms(8) inv show ?thesis
        by (fastforce simp: efd_inv_def)
    qed simp
  qed
  moreover have "\<exists>qs ps cq cp. carries (enc_request c) (req_ring s) qs \<and> carries (enc_response c) (resp_ring s) ps
      \<and> shown view (kernel s) (request_event s) = Some (cq, False)
      \<and> shown view (kernel s) (response_event s) = Some (cp, False)
      \<and> length qs = cq + unnotified s + owed (server s)
      \<and> length ps = cp + announcing s + owed (listener s)"
    using led rpc_invD(4,5) [OF rpc]
    by (intro exI [of _ qs] exI [of _ ps] exI [of _ "length qs - unnotified s - owed (server s)"]
        exI [of _ "length ps - announcing s - owed (listener s)"]) (simp add: efd_ledger_def)
  ultimately show ?thesis by blast
qed

theorem efd_ledger_exact_witness:
  "\<exists>t. length (calls t) = 1 \<and> efd_reach ref_codec ref_efd 1000 efd_demo t
     \<and> (\<exists>qs cq. carries (enc_request ref_codec) (req_ring t) qs
       \<and> shown ref_view (kernel t) (request_event t) = Some (cq, False) \<and> length qs = cq)"
proof -
  obtain t where t: "efd_reach ref_codec ref_efd 1000 efd_demo t" "fresh_ids t"
    "efd_idle ref_view t" "workers t = [Replied [1]]"
    "calls t = [\<lparr>call_id = [1], call_req = req_hi,
      call_phase = Finished (Ok (echo_response 1000 req_hi)), mailbox = Some (echo_response 1000 req_hi)\<rparr>]"
    by (rule efd_demo_done)
  have f: "fits_buffers ref_codec 65536 65536 (tickets t)" using ref_fits_hi(2) t(5) by (simp add: tickets_def)
  have z: "unnotified t = 0" "owed (server t) = 0" using t(3,5) by (simp_all add: unnotified_def efd_idle_def)
  have "\<exists>qs ps cq cp. carries (enc_request ref_codec) (req_ring t) qs
      \<and> carries (enc_response ref_codec) (resp_ring t) ps
      \<and> shown ref_view (kernel t) (request_event t) = Some (cq, False)
      \<and> shown ref_view (kernel t) (response_event t) = Some (cp, False)
      \<and> length qs = cq + unnotified t + owed (server t)
      \<and> length ps = cp + announcing t + owed (listener t)"
    using efd_ledger_exact [OF ref_codec_laws ref_efd_laws ring_default_nat(1) ring_default_nat(1)
        efd_kernel0_fresh t(1) [unfolded efd_demo_def] t(2) f] by simp
  with z t(1,5) show ?thesis by (intro exI [of _ t]) auto
qed

text \<open>C9. No lost wake-up over the eventfds: in a run without straddling prefixes, whose identifiers
  differ and whose messages all fit the 64 KiB buffers, when the listener, the server and the workers
  cannot move any more and no request is written but not announced, every call that cannot move has
  ended, except the calls whose worker could not serialise or write its response.\<close>

theorem efd_no_lost_wakeup:
  assumes "codec_laws c" "efd_laws sys view" "ring_rep rq []" "ring_rep rp []" "efd_fresh view k0 gs bs"
    and "efd_reach c sys delay (efd_boot rq rp gs bs k0) s" "fresh_ids s"
    and "fits_buffers c 65536 65536 (tickets s)" "efd_rests c sys delay s" "unnotified s = 0"
    and "efd_call c sys k s = None" "k < length (calls s)"
  shows "finished_phase (call_phase (calls s ! k)) \<or> (\<exists>e. Lost (call_id (calls s ! k)) e \<in> set (workers s))"
proof -
  obtain qs ps where inv: "efd_inv c view s qs ps" using efd_run_inv [OF assms(1-7)] by blast
  from efd_quiet_call [OF this assms(1,2,8-12)] show ?thesis .
qed

theorem efd_no_lost_wakeup_witness:
  "\<exists>t. efd_rests ref_codec ref_efd 1000 t \<and> length (calls t) = 1
     \<and> (finished_phase (call_phase (calls t ! 0)) \<or> (\<exists>e. Lost (call_id (calls t ! 0)) e \<in> set (workers t)))"
proof -
  obtain t where t: "efd_reach ref_codec ref_efd 1000 efd_demo t" "fresh_ids t"
    "efd_idle ref_view t" "workers t = [Replied [1]]"
    "calls t = [\<lparr>call_id = [1], call_req = req_hi,
      call_phase = Finished (Ok (echo_response 1000 req_hi)), mailbox = Some (echo_response 1000 req_hi)\<rparr>]"
    by (rule efd_demo_done)
  note q = efd_demo_done_quiet [OF t(3,4,5)]
  have f: "fits_buffers ref_codec 65536 65536 (tickets t)" using ref_fits_hi(2) t(5) by (simp add: tickets_def)
  have "finished_phase (call_phase (calls t ! 0)) \<or> (\<exists>e. Lost (call_id (calls t ! 0)) e \<in> set (workers t))"
    by (rule efd_no_lost_wakeup [OF ref_codec_laws ref_efd_laws ring_default_nat(1) ring_default_nat(1)
          efd_kernel0_fresh t(1) [unfolded efd_demo_def] t(2) f q(1) _ q(2)])
      (use t in \<open>simp_all add: unnotified_def\<close>)
  with q(1) t(5) show ?thesis by (intro exI [of _ t]) simp
qed

end
