(* ===== verification/Http_Invariant.thy ===== *)
theory Http_Invariant
  imports Http_Server Eventfd_Properties
begin

section \<open>What holds while the HTTP server runs\<close>

text \<open>
  The invariants of theory \<open>Http_Server\<close>: every handler's call carries the request built from its
  own client, an answer fits its request, the counters account for handlers, calls and answers,
  and over eventfds a call that waits when nothing can move has lost its response in the backend,
  also when other clients have disconnected.
\<close>

subsection \<open>The requests of a transport\<close>

fun transport_reqs :: "('n, 'k) TransportEnum \<Rightarrow> EchoRequest list" where
  "transport_reqs (Tcp t) = map fst (tonic_calls t)"
| "transport_reqs (Uds t) = map fst (tonic_calls t)"
| "transport_reqs (Shm t) = map pcall_req (pcalls t)"
| "transport_reqs (ShmUds t) = map snd (tickets t)"
| "transport_reqs (ShmEventfd t) = map snd (tickets t)"

lemma transport_reqs_size: "length (transport_reqs t) = transport_size t"
  by (cases t) (simp_all add: tickets_def)

lemma transport_reqs_request:
  "k < transport_size t \<Longrightarrow> transport_request t k = Some (transport_reqs t ! k)"
  by (cases t) (simp_all add: tickets_def poll_request_def rpc_request_def)

lemma start_reqs: "transport_reqs (transport_start i req t) = transport_reqs t @ [req]"
  by (cases t) (simp_all add: tonic_start_def poll_start_def)

lemma map_update_same: "k < length xs \<Longrightarrow> f y = f (xs ! k) \<Longrightarrow> map f (xs[k := y]) = map f xs"
  by (simp add: map_update list_update_same_conv)

lemma poll_call_reqs:
  assumes "poll_call c k d s = Some t"
  shows "map pcall_req (pcalls t) = map pcall_req (pcalls s)"
proof -
  have k: "k < length (pcalls s)" using assms by (simp add: poll_call_def split: if_splits)
  then show ?thesis
    using assms
    by (auto simp: poll_call_def poll_send_def poll_turn_def set_pcall_def Let_def
        intro!: map_update_same
        split: poll_phase.splits if_splits sum.splits prod.splits outcome.splits)
qed

lemma poll_server_reqs:
  "run_shm_server c delay d1 d2 s = Some t \<Longrightarrow> pcalls t = pcalls s"
  by (auto simp: run_shm_server_def poll_receive_def poll_reply_def
      split: poll_server.splits if_splits sum.splits prod.splits outcome.splits)

lemma tonic_arrive_reqs:
  "tonic_arrive k answer s = Some t \<Longrightarrow> map fst (tonic_calls t) = map fst (tonic_calls s)"
  by (auto simp: tonic_arrive_def intro!: map_update_same split: if_splits)

lemma advance_reqs:
  assumes "transport_advance jc c ss es k d answer t = Some u" "\<not> transport_crashed t"
  shows "transport_reqs u = transport_reqs t"
proof (cases t)
  case (ShmUds x)
  then obtain y where "u = ShmUds y" "uds_step c ss 0 (Call k) x = Some y"
    using advance_uds [of jc c ss es k d answer x u 0] assms by auto
  with uds_step_tickets(2) [of c ss 0 "Call k" x y] ShmUds show ?thesis by simp
next
  case (ShmEventfd x)
  then obtain y where "u = ShmEventfd y" "efd_step c es 0 (Call k) x = Some y"
    using advance_efd [of jc c ss es k d answer x u 0] assms by auto
  with efd_step_tickets(2) [of c es 0 "Call k" x y] ShmEventfd show ?thesis by simp
qed (use assms(1) in \<open>auto dest: poll_call_reqs tonic_arrive_reqs\<close>)

lemma background_not_start: "\<forall>i req. background_action b \<noteq> Start i req"
  by (cases b) auto

lemma background_reqs:
  assumes "transport_background env b t = Some u" "\<not> transport_crashed t"
  shows "transport_reqs u = transport_reqs t"
proof (cases t)
  case (ShmUds x)
  then obtain y where "u = ShmUds y"
    "uds_step (env_codec env) (env_sock env) (env_delay env) (background_action b) x = Some y"
    using background_uds [of env b x u] assms by auto
  with uds_step_tickets(2) [OF this(2) background_not_start] ShmUds show ?thesis by simp
next
  case (ShmEventfd x)
  then obtain y where "u = ShmEventfd y"
    "efd_step (env_codec env) (env_efd env) (env_delay env) (background_action b) x = Some y"
    using background_efd [of env b x u] assms by auto
  with efd_step_tickets(2) [OF this(2) background_not_start] ShmEventfd show ?thesis by simp
qed (use assms(1) in \<open>auto dest: poll_server_reqs split: background.splits\<close>)

subsection \<open>Steps by case\<close>

text \<open>The six ways in which a step changes the server.\<close>

lemma http_step_cases:
  assumes "http_step env a s = Some s'"
  obtains
    (conns) "gateway s' = gateway s" "handlers s' = handlers s" "stats s' = stats s"
  | (request) hdl where "gateway s' = gateway s" "handlers s' = handlers s @ [hdl]" "h_phase hdl = Collecting"
      "stats s' = stats s @ [HTTP_REQUESTS_TOTAL_inc]"
  | (refused) h where "h < length (handlers s)" "h_phase (handlers s ! h) = Collecting" "gateway s' = gateway s"
      "handlers s' = (handlers s)[h := (handlers s ! h)\<lparr>h_phase := Answered bad_request\<rparr>]" "stats s' = stats s"
  | (called) h elapsed b i where "h < length (handlers s)" "h_phase (handlers s ! h) = Collecting"
      "gateway s' = (gateway s)\<lparr>transport :=
         transport_start i (echo_request (env_js env) (h_path (handlers s ! h)) elapsed b) (link s)\<rparr>"
      "handlers s' = (handlers s)[h := (handlers s ! h)\<lparr>h_body := b, h_elapsed := elapsed,
         h_phase := Calling (transport_size (link s))\<rparr>]"
      "stats s' = stats s @ [GRPC_REQUESTS_TOTAL_inc]"
  | (moved) t where "gateway s' = (gateway s)\<lparr>transport := t\<rparr>" "handlers s' = handlers s" "stats s' = stats s"
      "(\<exists>h k d answer. h < length (handlers s) \<and> h_phase (handlers s ! h) = Calling k
          \<and> transport_advance (env_json env) (env_codec env) (env_sock env) (env_efd env) k d answer (link s) = Some t)
       \<or> (\<exists>b. transport_background env b (link s) = Some t)"
  | (answered) h k r d2 d3 where "h < length (handlers s)" "h_phase (handlers s ! h) = Calling k"
      "transport_call (link s) k = Some r" "gateway s' = gateway s"
      "handlers s' = (handlers s)[h := (handlers s ! h)\<lparr>h_phase :=
         Answered (fst (gateway_answer (env_js env) (env_display env) d2 d3 r))\<rparr>]"
      "stats s' = stats s @ snd (gateway_answer (env_js env) (env_display env) d2 d3 r)"
  | (closed) conn where "gateway s' = gateway s" "handlers s' = map (drop_handler conn) (handlers s)"
      "stats s' = stats s"
      "\<forall>hdl \<in> set (handlers s). case h_phase hdl of
         Calling k \<Rightarrow> h_conn hdl = conn \<longrightarrow> transport_parked (link s) k | _ \<Rightarrow> True"
proof (cases a)
  case (Accept r)
  show ?thesis
    by (rule conns) (use assms Accept in \<open>auto simp: http_step_def http_accept_def split: if_splits sum.splits\<close>)
next
  case (Request conn path)
  show ?thesis
    by (rule request [of "\<lparr>h_conn = conn, h_path = path, h_body = [], h_elapsed = 0, h_phase = Collecting\<rparr>"])
      (use assms Request in \<open>auto simp: http_step_def http_request_def split: if_splits\<close>)
next
  case (Collected h elapsed body i)
  show ?thesis
  proof (cases "collect_body body")
    case (Inl e)
    show ?thesis
      by (rule refused [of h])
        (use assms Collected Inl in \<open>auto simp: http_step_def http_collected_def gateway_receive_def split: if_splits\<close>)
  next
    case (Inr b)
    show ?thesis
      by (rule called [of h i elapsed b])
        (use assms Collected Inr in \<open>auto simp: http_step_def http_collected_def gateway_receive_def Let_def split: if_splits\<close>)
  qed
next
  case (Advance h d answer)
  then obtain t where "h < length (handlers s)" "\<exists>k. h_phase (handlers s ! h) = Calling k
      \<and> transport_advance (env_json env) (env_codec env) (env_sock env) (env_efd env) k d answer (link s) = Some t"
    "s' = set_link t s"
    using assms by (auto simp: http_step_def http_advance_def split: if_splits handler_phase.splits)
  then show ?thesis by (intro moved [of t]) auto
next
  case (Answer h d2 d3)
  then obtain k r where "h < length (handlers s)" "h_phase (handlers s ! h) = Calling k" "transport_call (link s) k = Some r"
    "s' = s\<lparr>handlers := (handlers s)[h := (handlers s ! h)\<lparr>h_phase :=
         Answered (fst (gateway_answer (env_js env) (env_display env) d2 d3 r))\<rparr>],
       stats := stats s @ snd (gateway_answer (env_js env) (env_display env) d2 d3 r)\<rparr>"
    using assms by (auto simp: http_step_def http_answer_def split_def Let_def split: if_splits handler_phase.splits)
  then show ?thesis by (intro answered [of h k r d2 d3]) simp_all
next
  case (Background b)
  then obtain t where "transport_background env b (link s) = Some t" "s' = set_link t s"
    using assms by (auto simp: http_step_def split: if_splits)
  then show ?thesis by (intro moved [of t]) auto
next
  case (Close conn)
  show ?thesis
    by (rule closed [of conn]) (use assms Close in \<open>auto simp: http_step_def http_close_def split: if_splits\<close>)
qed

lemma http_step_live: "http_step env a s = Some s' \<Longrightarrow> accept_error s = None \<and> \<not> transport_crashed (link s)"
  by (simp add: http_step_def split: if_splits)

lemma moved_reqs:
  assumes "(\<exists>h k d answer. h < length (handlers s) \<and> h_phase (handlers s ! h) = Calling k
      \<and> transport_advance (env_json env) (env_codec env) (env_sock env) (env_efd env) k d answer (link s) = Some t)
     \<or> (\<exists>b. transport_background env b (link s) = Some t)"
    and "\<not> transport_crashed (link s)"
  shows "transport_reqs t = transport_reqs (link s)"
  using assms advance_reqs background_reqs by blast


subsection \<open>Every answer fits its request\<close>

text \<open>The 200 with the message of the handler's own client, and what a handler may answer.\<close>

definition own_message :: "('n, 'k, 'j) http_env \<Rightarrow> handler \<Rightarrow> http_response \<Rightarrow> bool" where
  "own_message env hdl r \<longleftrightarrow>
     (\<exists>us ns. r = \<lparr>status = 200, response_headers = [(''Content-Type'', ''application/json'')],
        response_body = js_reply (env_js env)
          (req_message (echo_request (env_js env) (h_path hdl) (h_elapsed hdl) (h_body hdl))) us ns\<rparr>)"

definition handler_ok :: "('n, 'k, 'j) http_env \<Rightarrow> EchoRequest list \<Rightarrow> handler \<Rightarrow> bool" where
  "handler_ok env reqs hdl \<longleftrightarrow>
     (case h_phase hdl of
        Calling k \<Rightarrow> k < length reqs \<and> reqs ! k = echo_request (env_js env) (h_path hdl) (h_elapsed hdl) (h_body hdl)
      | Answered r \<Rightarrow> r = bad_request \<or> status r = 503 \<or> own_message env hdl r
      | _ \<Rightarrow> True)"

lemma handler_ok_grows: "handler_ok env reqs hdl \<Longrightarrow> handler_ok env (reqs @ rest) hdl"
  by (auto simp: handler_ok_def nth_append split: handler_phase.splits)

lemma handler_ok_drop: "handler_ok env reqs hdl \<Longrightarrow> handler_ok env reqs (drop_handler conn hdl)"
  by (auto simp: handler_ok_def drop_handler_def split: handler_phase.splits)

lemma all_update:
  "(\<And>x. x \<in> set xs \<Longrightarrow> P x) \<Longrightarrow> P y \<Longrightarrow> x \<in> set (xs[h := y]) \<Longrightarrow> P x"
  using set_update_subset_insert [of xs h y] by blast

text \<open>A state of any transport in which no call has been answered with another's response.\<close>

definition transport_honest :: "('n, 'k) TransportEnum \<Rightarrow> bool" where
  "transport_honest t \<longleftrightarrow>
     (\<forall>k req resp. transport_request t k = Some req \<longrightarrow> transport_call t k = Some (Inr resp) \<longrightarrow> echoes req resp)"

interpretation honest_transport: echo_transport transport_honest transport_request transport_call
  by unfold_locales (simp add: transport_honest_def)

lemma http_step_handlers:
  assumes inv: "\<forall>hdl \<in> set (handlers s). handler_ok env (transport_reqs (link s)) hdl"
    and session: "transport_honest (link s)" and step: "http_step env a s = Some s'"
  shows "\<forall>hdl \<in> set (handlers s'). handler_ok env (transport_reqs (link s')) hdl"
  using step
proof (cases rule: http_step_cases)
  case conns
  with inv show ?thesis by simp
next
  case (request hdl)
  with inv show ?thesis by (auto simp: handler_ok_def)
next
  case (refused h)
  have "handler_ok env (transport_reqs (link s)) ((handlers s ! h)\<lparr>h_phase := Answered bad_request\<rparr>)"
    by (simp add: handler_ok_def)
  with inv refused show ?thesis by (auto intro: all_update)
next
  case (called h elapsed b i)
  let ?req = "echo_request (env_js env) (h_path (handlers s ! h)) elapsed b"
  have "handler_ok env (transport_reqs (link s) @ [?req]) ((handlers s ! h)\<lparr>h_body := b, h_elapsed := elapsed,
         h_phase := Calling (transport_size (link s))\<rparr>)"
    by (simp add: handler_ok_def transport_reqs_size [symmetric])
  with inv called show ?thesis by (auto simp: start_reqs intro: all_update handler_ok_grows)
next
  case (moved t)
  have "transport_reqs t = transport_reqs (link s)"
    using moved_reqs [OF moved(4)] http_step_live [OF step] by blast
  with inv moved show ?thesis by simp
next
  case (answered h k r d2 d3)
  let ?hdl = "handlers s ! h"
  let ?req = "echo_request (env_js env) (h_path ?hdl) (h_elapsed ?hdl) (h_body ?hdl)"
  have "handler_ok env (transport_reqs (link s)) ?hdl" using inv answered(1) by simp
  then have "transport_request (link s) k = Some ?req"
    using answered(2) transport_reqs_request [of k "link s"] by (simp add: handler_ok_def transport_reqs_size)
  from honest_transport.http_own_message [OF session this answered(3)]
  have "handler_ok env (transport_reqs (link s)) (?hdl\<lparr>h_phase :=
      Answered (fst (gateway_answer (env_js env) (env_display env) d2 d3 r))\<rparr>)"
    by (simp add: handler_ok_def own_message_def)
  with inv answered show ?thesis by (auto intro: all_update)
next
  case (closed conn)
  with inv show ?thesis by (auto intro: handler_ok_drop)
qed

text \<open>A gateway whose transport is notified starts on two empty rings with nothing announced.\<close>

definition notified_boot :: "('n, 'k, 'j) http_env \<Rightarrow> ('n, 'k) TransportEnum \<Rightarrow> bool" where
  "notified_boot env t0 \<longleftrightarrow>
     codec_laws (env_codec env) \<and>
     ((\<exists>rq rp k0 unread. t0 = ShmUds (uds_boot rq rp k0) \<and> sock_laws (env_sock env) unread
         \<and> ring_rep rq [] \<and> ring_rep rp [] \<and> unread k0 Gateway_End = [] \<and> unread k0 Backend_End = [])
    \<or> (\<exists>rq rp gs bs k0 view. t0 = ShmEventfd (efd_boot rq rp gs bs k0) \<and> efd_laws (env_efd env) view
         \<and> ring_rep rq [] \<and> ring_rep rp [] \<and> efd_fresh view k0 gs bs))"

fun transport_fresh :: "('n, 'k) TransportEnum \<Rightarrow> bool" where
  "transport_fresh (ShmUds t) = fresh_ids t"
| "transport_fresh (ShmEventfd t) = fresh_ids t"
| "transport_fresh _ = True"

lemma http_session:
  assumes "notified_boot env t0" "http_reach env (http_boot t0) s" "transport_fresh (link s)"
  shows "transport_honest (link s)"
proof -
  have honest: "transport_session (link s) \<Longrightarrow> transport_honest (link s)"
    unfolding transport_honest_def by (blast intro: any_transport.echoes_own)
  from assms(1) consider (uds) rq rp k0 unread where "t0 = ShmUds (uds_boot rq rp k0)" "sock_laws (env_sock env) unread"
      "ring_rep rq []" "ring_rep rp []" "unread k0 Gateway_End = []" "unread k0 Backend_End = []"
    | (efd) rq rp gs bs k0 view where "t0 = ShmEventfd (efd_boot rq rp gs bs k0)" "efd_laws (env_efd env) view"
      "ring_rep rq []" "ring_rep rp []" "efd_fresh view k0 gs bs"
    unfolding notified_boot_def by (elim conjE disjE exE)
  moreover have codec: "codec_laws (env_codec env)" using assms(1) by (simp add: notified_boot_def)
  ultimately show ?thesis
  proof cases
    case uds
    obtain t where t: "link s = ShmUds t"
      "uds_reach (env_codec env) (env_sock env) (env_delay env) (uds_boot rq rp k0) t"
      using http_reach_uds [of env "uds_boot rq rp k0" s] assms(2) uds(1) by blast
    then have "fresh_ids t" using assms(3) by simp
    with uds(2-6) t codec have "uds_session t" unfolding uds_session_def by blast
    with t honest show ?thesis by simp
  next
    case efd
    obtain t where t: "link s = ShmEventfd t"
      "efd_reach (env_codec env) (env_efd env) (env_delay env) (efd_boot rq rp gs bs k0) t"
      using http_reach_efd [of env "efd_boot rq rp gs bs k0" s] assms(2) efd(1) by blast
    then have "fresh_ids t" using assms(3) by simp
    with efd(2-5) t codec have "efd_session t" unfolding efd_session_def by blast
    with t honest show ?thesis by simp
  qed
qed


lemma transport_fresh_before:
  assumes "http_step env a s = Some s'" "transport_fresh (link s')"
  shows "transport_fresh (link s)"
proof (cases "link s")
  case (ShmUds t)
  from http_step_link [OF assms(1)] show ?thesis
  proof
    assume "\<not> transport_crashed (link s) \<and> link_step env (link s) (link s')"
    then obtain b t' where "link s' = ShmUds t'" "uds_step (env_codec env) (env_sock env) (env_delay env) b t = Some t'"
      using link_step_uds [of env t "link s'"] ShmUds by auto
    with uds_step_tickets(1) [OF this(2)] assms(2) ShmUds show ?thesis by (auto intro: fresh_ids_prefix)
  qed (use assms in simp)
next
  case (ShmEventfd t)
  from http_step_link [OF assms(1)] show ?thesis
  proof
    assume "\<not> transport_crashed (link s) \<and> link_step env (link s) (link s')"
    then obtain b t' where "link s' = ShmEventfd t'" "efd_step (env_codec env) (env_efd env) (env_delay env) b t = Some t'"
      using link_step_efd [of env t "link s'"] ShmEventfd by auto
    with efd_step_tickets(1) [OF this(2)] assms(2) ShmEventfd show ?thesis by (auto intro: fresh_ids_prefix)
  qed (use assms in simp)
qed simp_all

lemma http_reach_handlers:
  assumes boot: "notified_boot env t0" and reach: "http_reach env (http_boot t0) s"
    and fresh: "transport_fresh (link s)"
  shows "\<forall>hdl \<in> set (handlers s). handler_ok env (transport_reqs (link s)) hdl"
  using reach fresh
proof induction
  case http_refl
  show ?case by (simp add: http_boot_def)
next
  case (http_next s a s')
  have fresh: "transport_fresh (link s)" using transport_fresh_before http_next.hyps(3) http_next.prems by blast
  from http_step_handlers [OF http_next.IH [OF fresh] http_session [OF boot http_next.hyps(1) fresh] http_next.hyps(3)]
  show ?case .
qed

lemma answered_own:
  assumes "notified_boot env t0" "http_reach env (http_boot t0) s" "transport_fresh (link s)"
    and "h < length (handlers s)" "h_phase (handlers s ! h) = Answered r"
  shows "r = bad_request \<or> status r = 503 \<or> own_message env (handlers s ! h) r"
proof -
  have "handler_ok env (transport_reqs (link s)) (handlers s ! h)"
    using http_reach_handlers [OF assms(1-3)] assms(4) by simp
  with assms(5) show ?thesis by (simp add: handler_ok_def)
qed

subsection \<open>The counters\<close>

fun grpc_observation :: "gateway_event \<Rightarrow> bool" where
  "grpc_observation (GRPC_REQUEST_DURATION_observe d) = True"
| "grpc_observation _ = False"

fun http_observation :: "gateway_event \<Rightarrow> bool" where
  "http_observation (HTTP_REQUEST_DURATION_observe d) = True"
| "http_observation _ = False"

definition answered_with :: "nat set \<Rightarrow> handler \<Rightarrow> bool" where
  "answered_with codes hdl \<longleftrightarrow> (\<exists>r. h_phase hdl = Answered r \<and> status r \<in> codes)"

definition occurrences :: "(gateway_event \<Rightarrow> bool) \<Rightarrow> ('n, 'k) http_server \<Rightarrow> nat" where
  "occurrences P s = length (filter P (stats s))"

definition answers :: "nat set \<Rightarrow> ('n, 'k) http_server \<Rightarrow> nat" where
  "answers codes s = length (filter (answered_with codes) (handlers s))"

definition http_books :: "('n, 'k) http_server \<Rightarrow> bool" where
  "http_books s \<longleftrightarrow>
     occurrences (\<lambda>e. e = HTTP_REQUESTS_TOTAL_inc) s = length (handlers s)
   \<and> occurrences (\<lambda>e. e = GRPC_REQUESTS_TOTAL_inc) s = transport_size (link s)
   \<and> occurrences grpc_observation s = answers {200} s
   \<and> occurrences http_observation s = answers {200, 503} s
   \<and> metrics (gateway s) = Metrics_new"

lemma answered_with_drop: "answered_with codes \<circ> drop_handler conn = answered_with codes"
  by (auto simp: fun_eq_iff answered_with_def drop_handler_def split: handler_phase.splits)

lemma answered_with_unanswered:
  "h_phase hdl = Collecting \<or> h_phase hdl = Calling k \<Longrightarrow> \<not> answered_with codes hdl"
  by (auto simp: answered_with_def)

lemma answers_update:
  assumes "h < length xs" "\<not> answered_with codes (xs ! h)"
  shows "length (filter (answered_with codes) (xs[h := y]))
       = length (filter (answered_with codes) xs) + (if answered_with codes y then 1 else 0)"
  using filter_update_length [OF assms(1), of "answered_with codes" y] assms(2) by simp

lemma http_step_books:
  assumes inv: "http_books s" and step: "http_step env a s = Some s'"
  shows "http_books s'"
  using step
proof (cases rule: http_step_cases)
  case conns
  with inv show ?thesis by (simp add: http_books_def occurrences_def answers_def)
next
  case (request hdl)
  with inv show ?thesis by (simp add: http_books_def occurrences_def answers_def answered_with_def)
next
  case (refused h)
  with inv show ?thesis
    by (simp add: http_books_def occurrences_def answers_def answers_update answered_with_unanswered)
      (simp add: answered_with_def bad_request_def)
next
  case (called h elapsed b i)
  with inv show ?thesis
    by (simp add: http_books_def occurrences_def answers_def answers_update answered_with_unanswered
        transport_reqs_size [symmetric] start_reqs answered_with_def)
next
  case (moved t)
  have "transport_size t = transport_size (link s)"
    using moved_reqs [OF moved(4)] http_step_live [OF step] by (simp add: transport_reqs_size [symmetric])
  with inv moved show ?thesis by (simp add: http_books_def occurrences_def answers_def)
next
  case (answered h k r d2 d3)
  with inv show ?thesis
    by (simp add: http_books_def occurrences_def answers_def answers_update answered_with_unanswered)
      (simp add: answered_with_def gateway_answer_def split: sum.split)
next
  case (closed conn)
  with inv show ?thesis by (simp add: http_books_def occurrences_def answers_def answered_with_drop)
qed


lemma http_reach_books:
  assumes "http_reach env (http_boot t0) s" "transport_size t0 = 0"
  shows "http_books s"
  using assms(1)
proof induction
  case http_refl
  with assms(2) show ?case
    by (simp add: http_books_def http_boot_def Gateway_new_def occurrences_def answers_def)
next
  case (http_next s a t)
  show ?case by (rule http_step_books [OF http_next.IH http_next.hyps(3)])
qed

subsection \<open>No client is forgotten over eventfds\<close>

text \<open>A call that no handler owns any more, because its client has disconnected or has its answer,
  has announced its request.\<close>

definition settled :: "'k efd_rpc \<Rightarrow> nat \<Rightarrow> bool" where
  "settled t k \<longleftrightarrow> call_phase (calls t ! k) = Waiting \<or> finished_phase (call_phase (calls t ! k))"

definition owned :: "handler list \<Rightarrow> nat \<Rightarrow> bool" where
  "owned hs k \<longleftrightarrow> (\<exists>h < length hs. h_phase (hs ! h) = Calling k)"

lemma efd_step_phase:
  assumes "efd_step c es delay a t = Some t'" "k < length (calls t)" "a \<noteq> Call k"
  shows "call_phase (calls t' ! k) = call_phase (calls t ! k)"
proof (cases a)
  case (Start i req)
  with assms show ?thesis by (auto simp: efd_step_def rpc_insert_def nth_append split: if_splits)
next
  case (Call j)
  with assms show ?thesis
    by (auto simp: efd_step_def efd_call_def efd_notify_def rpc_send_def rpc_receive_def set_phase_def Let_def
        split: if_splits call_phase.splits sum.splits prod.splits outcome.splits option.splits)
next
  case Listen
  with assms show ?thesis
    by (auto simp: efd_step_def efd_listen_def rpc_fetch_response_def rpc_dispatch_def phase_delivered
        split: if_splits task.splits sum.splits prod.splits outcome.splits option.splits)
next
  case Serve
  with assms show ?thesis
    by (auto simp: efd_step_def efd_serve_def rpc_fetch_request_def rpc_spawn_def
        split: if_splits task.splits sum.splits prod.splits outcome.splits option.splits)
next
  case (Work j d)
  with assms show ?thesis
    by (auto simp: efd_step_def efd_work_def rpc_reply_def set_worker_def
        split: if_splits worker.splits sum.splits prod.splits outcome.splits option.splits)
qed


lemma owned_update:
  "h < length hs \<Longrightarrow> (\<And>j. h_phase (hs ! h) = Calling j \<Longrightarrow> j \<noteq> k) \<Longrightarrow> owned hs k \<Longrightarrow> owned (hs[h := x]) k"
  unfolding owned_def by (metis length_list_update nth_list_update_neq)

lemma owned_new: "h < length hs \<Longrightarrow> h_phase x = Calling k \<Longrightarrow> owned (hs[h := x]) k"
  unfolding owned_def by auto

lemma http_step_settled:
  assumes inv: "\<forall>k < length (calls t). owned (handlers s) k \<or> settled t k"
    and l: "link s = ShmEventfd t" and step: "http_step env a s = Some s'" and l': "link s' = ShmEventfd t'"
  shows "\<forall>k < length (calls t'). owned (handlers s') k \<or> settled t' k"
  using step
proof (cases rule: http_step_cases)
  case conns
  with inv l l' show ?thesis by simp
next
  case (request hdl)
  with inv l l' show ?thesis unfolding owned_def by (auto simp: nth_append)
next
  case (refused h)
  have "owned (handlers s') k" if "owned (handlers s) k" for k
    unfolding refused(4) by (rule owned_update [OF refused(1) _ that]) (use refused(2) in simp)
  with inv l l' refused(3) show ?thesis by auto
next
  case (called h elapsed b i)
  have t': "t' = rpc_insert i (echo_request (env_js env) (h_path (handlers s ! h)) elapsed b) t"
    using called(3) l l' by simp
  have "owned (handlers s') k" if "owned (handlers s) k" for k
    unfolding called(4) by (rule owned_update [OF called(1) _ that]) (use called(2) in simp)
  moreover have "owned (handlers s') (length (calls t))"
    unfolding called(4) by (rule owned_new [OF called(1)]) (simp add: l)
  moreover have "settled t' k = settled t k" if "k < length (calls t)" for k
    using that by (simp add: settled_def t' rpc_insert_def nth_append)
  ultimately show ?thesis using inv by (auto simp: t' rpc_insert_def less_Suc_eq)
next
  case (moved u)
  have u: "u = ShmEventfd t'" using moved(1) l' by simp
  have live: "crashed t = None" using http_step_live [OF step] l by simp
  have "length (transport_reqs u) = length (transport_reqs (link s))"
    using moved_reqs [OF moved(4)] http_step_live [OF step] by simp
  then have len: "length (calls t') = length (calls t)" by (simp add: u l tickets_def)
  have same: "settled t' k = settled t k" if "k < length (calls t)" "\<not> owned (handlers s) k" for k
    using moved(4)
  proof
    assume "\<exists>h j d answer. h < length (handlers s) \<and> h_phase (handlers s ! h) = Calling j
      \<and> transport_advance (env_json env) (env_codec env) (env_sock env) (env_efd env) j d answer (link s) = Some u"
    then obtain h j d answer where "h < length (handlers s)" "h_phase (handlers s ! h) = Calling j"
      "transport_advance (env_json env) (env_codec env) (env_sock env) (env_efd env) j d answer (ShmEventfd t) = Some u"
      using l by auto
    moreover from this that have "j \<noteq> k" by (auto simp: owned_def)
    moreover obtain t2 where "u = ShmEventfd t2" "efd_step (env_codec env) (env_efd env) 0 (Call j) t = Some t2"
      using advance_efd [OF calculation(3) live, of 0] by blast
    ultimately show ?thesis using efd_step_phase [of _ _ _ "Call j" t t' k] that u by (auto simp: settled_def)
  next
    assume "\<exists>b. transport_background env b (link s) = Some u"
    then obtain b where "transport_background env b (ShmEventfd t) = Some u" using l by auto
    from background_efd [OF this live] u
    have "efd_step (env_codec env) (env_efd env) (env_delay env) (background_action b) t = Some t'" by simp
    moreover have "background_action b \<noteq> Call k" by (cases b) auto
    ultimately have "call_phase (calls t' ! k) = call_phase (calls t ! k)"
      by (rule efd_step_phase [OF _ that(1)])
    then show ?thesis by (simp add: settled_def)
  qed
  then show ?thesis using inv len moved(2) by auto
next
  case (answered h k r d2 d3)
  have "settled t k" if "k < length (calls t)"
    using answered(3) that by (auto simp: l settled_def rpc_result_def split: call_phase.splits)
  moreover have "owned (handlers s') j" if "owned (handlers s) j" "j \<noteq> k" for j
    unfolding answered(5) by (rule owned_update [OF answered(1) _ that(1)]) (use answered(2) that(2) in simp)
  ultimately show ?thesis using inv l l' answered(4) by auto
next
  case (closed conn)
  have "settled t k \<or> owned (handlers s') k" if k: "owned (handlers s) k" for k
  proof -
    obtain h where h: "h < length (handlers s)" "h_phase (handlers s ! h) = Calling k" using k by (auto simp: owned_def)
    show ?thesis
    proof (cases "h_conn (handlers s ! h) = conn")
      case True
      then have "transport_parked (link s) k" using closed(4) h by (auto dest!: bspec [OF _ nth_mem [OF h(1)]])
      then show ?thesis by (simp add: l settled_def)
    next
      case False
      with h show ?thesis by (auto simp: owned_def closed(2) drop_handler_def)
    qed
  qed
  with inv l l' closed(1) show ?thesis by auto
qed


text \<open>Neither a handler nor a task of the transport can move.\<close>

definition http_quiet :: "('n, 'k, 'j) http_env \<Rightarrow> ('n, 'k) http_server \<Rightarrow> bool" where
  "http_quiet env s \<longleftrightarrow>
     (\<forall>h d answer. http_advance env h d answer s = None) \<and> (\<forall>h d2 d3. http_answer env h d2 d3 s = None)
   \<and> (\<forall>b. transport_background env b (link s) = None)"

lemma quiet_rests:
  assumes "http_quiet env s" "link s = ShmEventfd t"
  shows "efd_rests (env_codec env) (env_efd env) (env_delay env) t"
proof -
  have b: "transport_background env b (ShmEventfd t) = None" for b
    using assms by (simp add: http_quiet_def)
  show ?thesis
    unfolding efd_rests_def using b [of Background_listen] b [of "Background_serve d1 d2" for d1 d2]
      b [of "Background_work j d" for j d] by simp
qed

lemma quiet_calls:
  assumes "http_quiet env s" "link s = ShmEventfd t" "h < length (handlers s)" "h_phase (handlers s ! h) = Calling k"
  shows "efd_call (env_codec env) (env_efd env) k t = None" "rpc_result t k = None"
proof -
  have "http_advance env h 0 (Inl []) s = None" "http_answer env h 0 0 s = None"
    using assms(1) by (simp_all add: http_quiet_def)
  then show "efd_call (env_codec env) (env_efd env) k t = None" "rpc_result t k = None"
    using assms(2-4) by (simp_all add: http_advance_def http_answer_def)
qed

text \<open>The result of a call is never a fault.\<close>

lemma efd_step_sound:
  assumes "efd_step c es delay a t = Some t'" "\<forall>cl \<in> set (calls t). \<forall>f. call_phase cl \<noteq> Finished (Fault f)"
  shows "\<forall>cl \<in> set (calls t'). \<forall>f. call_phase cl \<noteq> Finished (Fault f)"
proof (cases "\<exists>i req. a = Start i req")
  case True
  with assms show ?thesis by (auto simp: efd_step_def rpc_insert_def split: if_splits)
next
  case False
  then have "tickets t' = tickets t" using efd_step_tickets(2) [OF assms(1)] by blast
  then have len: "length (calls t') = length (calls t)" unfolding tickets_def by (rule map_eq_imp_length_eq)
  have "call_phase (calls t' ! k) \<noteq> Finished (Fault f)" if k: "k < length (calls t)" for k f
  proof (cases "a = Call k")
    case True
    have "call_phase (calls t ! k) \<noteq> Finished (Fault f)" using assms(2) k by simp
    with assms(1) True k show ?thesis
      by (auto simp: efd_step_def efd_call_def efd_notify_def rpc_send_def rpc_receive_def set_phase_def Let_def
          split: if_splits call_phase.splits sum.splits prod.splits outcome.splits option.splits)
  next
    case False
    with efd_step_phase [OF assms(1) k] assms(2) k show ?thesis by simp
  qed
  with len show ?thesis by (auto simp: in_set_conv_nth)
qed

lemma efd_reach_sound:
  assumes "efd_reach c es delay (efd_boot rq rp gs bs k0) t"
  shows "\<forall>cl \<in> set (calls t). \<forall>f. call_phase cl \<noteq> Finished (Fault f)"
  using assms
proof induction
  case efd_refl
  show ?case by (simp add: efd_boot_def)
next
  case (efd_next s a t)
  show ?case by (rule efd_step_sound [OF efd_next.hyps(3) efd_next.IH])
qed


lemma http_reach_settled:
  assumes "http_reach env (http_boot (ShmEventfd (efd_boot rq rp gs bs k0))) s" "link s = ShmEventfd t"
  shows "\<forall>k < length (calls t). owned (handlers s) k \<or> settled t k"
  using assms
proof (induction arbitrary: t)
  case http_refl
  then show ?case by (auto simp: http_boot_def Gateway_new_def efd_boot_def)
next
  case (http_next s a s')
  obtain t0 where t0: "link s = ShmEventfd t0" using http_reach_efd [OF http_next.hyps(1)] by blast
  from http_step_settled [OF http_next.IH [OF t0] t0 http_next.hyps(3) http_next.prems] show ?case .
qed

lemma settled_announced:
  assumes "efd_inv c view t qs ps" "\<forall>k < length (calls t). settled t k"
  shows "unnotified t = 0"
proof -
  have "\<not> unnotified_phase (call_phase cl)" if cl: "cl \<in> set (calls t)" for cl
  proof -
    obtain k where k: "k < length (calls t)" "calls t ! k = cl" using cl by (metis in_set_conv_nth)
    then have "call_phase cl \<noteq> Finished (Err (NotifyFailed e))" for e
      using assms(1) by (auto simp: efd_inv_def)
    moreover have "call_phase cl \<noteq> Written" using assms(2) k by (auto simp: settled_def)
    ultimately show ?thesis by (cases "call_phase cl" rule: unnotified_phase.cases) auto
  qed
  then show ?thesis by (simp add: unnotified_def filter_False)
qed

lemma http_quiet_call:
  assumes laws: "codec_laws (env_codec env)" "efd_laws (env_efd env) view" "ring_rep rq []" "ring_rep rp []"
    "efd_fresh view k0 gs bs"
    and reach: "http_reach env (http_boot (ShmEventfd (efd_boot rq rp gs bs k0))) s"
    and l: "link s = ShmEventfd t" and ids: "fresh_ids t"
    and fits: "fits_buffers (env_codec env) 65536 65536 (tickets t)" and quiet: "http_quiet env s"
    and h: "h < length (handlers s)" "h_phase (handlers s ! h) = Calling k"
  shows "\<exists>e. Lost (call_id (calls t ! k)) e \<in> set (workers t)"
proof -
  let ?t0 = "efd_boot rq rp gs bs k0"
  have er: "efd_reach (env_codec env) (env_efd env) (env_delay env) ?t0 t"
    using http_reach_efd [OF reach] l by auto
  obtain qs ps where inv: "efd_inv (env_codec env) view t qs ps"
    using efd_run_inv [OF laws er ids] by blast
  have boot: "notified_boot env (ShmEventfd ?t0)" using laws unfolding notified_boot_def by blast
  have "handler_ok env (transport_reqs (link s)) (handlers s ! h)"
    using http_reach_handlers [OF boot reach] l ids h(1) by simp
  then have k: "k < length (calls t)" using h(2) l by (simp add: handler_ok_def tickets_def)
  have "settled t j" if j: "j < length (calls t)" for j
  proof (cases "owned (handlers s) j")
    case True
    then obtain h' where "h' < length (handlers s)" "h_phase (handlers s ! h') = Calling j" by (auto simp: owned_def)
    from quiet_calls(1) [OF quiet l this] efd_quiet_calls [OF _ j] show ?thesis by (auto simp: settled_def)
  qed (use http_reach_settled [OF reach l] j in blast)
  then have un: "unnotified t = 0" using settled_announced [OF inv] by blast
  note q = quiet_calls [OF quiet l h]
  have "\<not> finished_phase (call_phase (calls t ! k))"
  proof
    assume "finished_phase (call_phase (calls t ! k))"
    then obtain r where r: "call_phase (calls t ! k) = Finished r" by (cases "call_phase (calls t ! k)") auto
    with q(2) k have "outcome_result r = None" by (simp add: rpc_result_def)
    then obtain f where "r = Fault f" by (cases r) auto
    with r efd_reach_sound [OF er] k show False by auto
  qed
  moreover have "finished_phase (call_phase (calls t ! k)) \<or> (\<exists>e. Lost (call_id (calls t ! k)) e \<in> set (workers t))"
    by (rule efd_quiet_call [OF inv laws(1,2) fits quiet_rests [OF quiet l] un q(1) k])
  ultimately show ?thesis by blast
qed

end
