(* ===== verification/Http_Runs.thy ===== *)
theory Http_Runs
  imports Http_Invariant
begin

section \<open>Runs of the HTTP server over the socket\<close>

text \<open>
  Two runs: one client alone, who is answered, and two clients of whom the first disconnects.
  Over the socket a call awaits the lock of the write half between the write of its request to
  the ring and the byte that announces it. A client that disconnects while its handler waits
  there leaves a request in the ring that no byte announces; from then on every byte announces
  the request before the one it was sent for, and the last client waits until another comes.
\<close>

subsection \<open>A server at work\<close>

definition serving :: "bool list \<Rightarrow> handler list \<Rightarrow> gateway_event list \<Rightarrow> ('n, 'k) TransportEnum \<Rightarrow> ('n, 'k) http_server" where
  "serving cs hs es t = \<lparr>gateway = \<lparr>transport = t, metrics = Metrics_new\<rparr>, http_conns = cs,
     handlers = hs, stats = es, accept_error = None\<rparr>"

definition at_work :: "('n, 'k) TransportEnum \<Rightarrow> bool" where
  "at_work t \<longleftrightarrow> transport_fits t \<and> \<not> transport_crashed t"

lemma at_work_uds [simp]: "at_work (ShmUds t) \<longleftrightarrow> rings_fit t \<and> crashed t = None"
  by (simp add: at_work_def)

lemma at_work_efd [simp]: "at_work (ShmEventfd t) \<longleftrightarrow> rings_fit t \<and> crashed t = None"
  by (simp add: at_work_def)

lemma serving_boot: "http_boot t = serving [] [] [] t"
  by (simp add: serving_def http_boot_def Gateway_new_def)

lemma serving_background:
  assumes "http_reach env s0 (serving cs hs es t)" "at_work t" "transport_background env b t = Some t'"
  shows "http_reach env s0 (serving cs hs es t')"
  by (rule http_next [OF assms(1), where a = "Background b"])
    (use assms in \<open>simp_all add: http_step_def serving_def at_work_def\<close>)

lemma serving_accept:
  assumes "http_reach env s0 (serving cs hs es t)" "at_work t"
  shows "http_reach env s0 (serving (cs @ [True]) hs es t)"
  by (rule http_next [OF assms(1), where a = "Accept (Inr ())"])
    (use assms in \<open>simp_all add: http_step_def http_accept_def serving_def at_work_def\<close>)

lemma serving_request:
  assumes "http_reach env s0 (serving cs hs es t)" "at_work t" "conn < length cs" "cs ! conn"
  shows "http_reach env s0 (serving cs (hs @ [\<lparr>h_conn = conn, h_path = path, h_body = [], h_elapsed = 0,
      h_phase = Collecting\<rparr>]) (es @ [HTTP_REQUESTS_TOTAL_inc]) t)"
  by (rule http_next [OF assms(1), where a = "Request conn path"])
    (use assms in \<open>simp_all add: http_step_def http_request_def serving_def at_work_def\<close>)

lemma serving_collected:
  assumes "http_reach env s0 (serving cs hs es t)" "at_work t" "h < length hs" "h_phase (hs ! h) = Collecting"
  shows "http_reach env s0 (serving cs (hs[h := (hs ! h)\<lparr>h_body := b, h_elapsed := e,
      h_phase := Calling (transport_size t)\<rparr>]) (es @ [GRPC_REQUESTS_TOTAL_inc])
      (transport_start i (echo_request (env_js env) (h_path (hs ! h)) e b) t))"
  by (rule http_next [OF assms(1), where a = "Collected h e [Data_frame b] i"])
    (use assms in \<open>simp_all add: http_step_def http_collected_def gateway_receive_def serving_def at_work_def Let_def\<close>)

lemma serving_advance:
  assumes "http_reach env s0 (serving cs hs es t)" "at_work t" "h < length hs" "h_phase (hs ! h) = Calling k"
    and "transport_advance (env_json env) (env_codec env) (env_sock env) (env_efd env) k d answer t = Some t'"
  shows "http_reach env s0 (serving cs hs es t')"
  by (rule http_next [OF assms(1), where a = "Advance h d answer"])
    (use assms in \<open>simp_all add: http_step_def http_advance_def serving_def at_work_def\<close>)

lemma serving_close:
  assumes "http_reach env s0 (serving cs hs es t)" "at_work t" "conn < length cs" "cs ! conn"
    and "\<forall>hdl \<in> set hs. case h_phase hdl of
           Calling k \<Rightarrow> h_conn hdl = conn \<longrightarrow> transport_parked t k | _ \<Rightarrow> True"
  shows "http_reach env s0 (serving (cs[conn := False]) (map (drop_handler conn) hs) es t)"
  by (rule http_next [OF assms(1), where a = "Close conn"])
    (use assms in \<open>auto simp: http_step_def http_close_def serving_def at_work_def split: handler_phase.splits\<close>)

subsection \<open>One client\<close>

text \<open>Moves of the first call and of the tasks beside it.\<close>

inductive first_moves ::
  "('n, 'k, 'j) http_env \<Rightarrow> ('n, 'k) TransportEnum \<Rightarrow> ('n, 'k) TransportEnum \<Rightarrow> bool" for env t0 where
  first_refl: "first_moves env t0 t0"
| first_call: "first_moves env t0 t \<Longrightarrow> at_work t \<Longrightarrow> transport_advance (env_json env) (env_codec env)
     (env_sock env) (env_efd env) 0 d answer t = Some t' \<Longrightarrow> first_moves env t0 t'"
| first_background: "first_moves env t0 t \<Longrightarrow> at_work t \<Longrightarrow> transport_background env b t = Some t' \<Longrightarrow>
     first_moves env t0 t'"

text \<open>A run of the notified transports that starts no further call consists of such moves.\<close>

lemma uds_reach_tickets:
  assumes "uds_reach c sys delay t0 t"
  shows "\<exists>xs. tickets t = tickets t0 @ xs"
  using assms
proof induction
  case (uds_next s a t)
  from uds_next.IH uds_step_tickets(1) [OF uds_next.hyps(3)] show ?case by auto
qed simp

lemma efd_reach_tickets:
  assumes "efd_reach c sys delay t0 t"
  shows "\<exists>xs. tickets t = tickets t0 @ xs"
  using assms
proof induction
  case (efd_next s a t)
  from efd_next.IH efd_step_tickets(1) [OF efd_next.hyps(3)] show ?case by auto
qed simp

lemma first_moves_uds:
  assumes "uds_reach (env_codec env) (env_sock env) (env_delay env) t0 t" "tickets t = tickets t0" "length (tickets t0) = 1"
  shows "first_moves env (ShmUds t0) (ShmUds t)"
  using assms(1,2)
proof induction
  case uds_refl
  show ?case by (rule first_refl)
next
  case (uds_next s a t)
  obtain xs ys where "tickets t = tickets s @ xs" "tickets s = tickets t0 @ ys"
    using uds_step_tickets(1) [OF uds_next.hyps(3)] uds_reach_tickets [OF uds_next.hyps(1)] by blast
  with uds_next.prems have s: "tickets s = tickets t0" and t: "tickets t = tickets s" by simp_all
  have live: "crashed s = None" using uds_next.hyps(3) by (simp add: uds_step_def split: if_splits)
  note work = at_work_uds [THEN iffD2, OF conjI [OF uds_next.hyps(2) live]]
  note adv = first_call [OF uds_next.IH [OF s] work] and bg = first_background [OF uds_next.IH [OF s] work]
  show ?case
  proof (cases a)
    case (Start i req)
    with uds_next.hyps(3) live t show ?thesis by (auto simp: uds_step_def)
  next
    case (Call k)
    with uds_next.hyps(3) live have c: "uds_call (env_codec env) (env_sock env) k s = Some t" by (simp add: uds_step_def)
    then have "k < length (tickets s)" by (simp add: uds_call_def tickets_def split: if_splits)
    with s assms(3) have "k = 0" by simp
    with c adv show ?thesis by simp
  next
    case Listen
    with uds_next.hyps(3) live bg [of Background_listen] show ?thesis by (simp add: uds_step_def)
  next
    case Serve
    with uds_next.hyps(3) live bg [of "Background_serve 0 0"] show ?thesis by (simp add: uds_step_def)
  next
    case (Work j d)
    with uds_next.hyps(3) live bg [of "Background_work j d"] show ?thesis by (simp add: uds_step_def)
  qed
qed

lemma first_moves_efd:
  assumes "efd_reach (env_codec env) (env_efd env) (env_delay env) t0 t" "tickets t = tickets t0" "length (tickets t0) = 1"
  shows "first_moves env (ShmEventfd t0) (ShmEventfd t)"
  using assms(1,2)
proof induction
  case efd_refl
  show ?case by (rule first_refl)
next
  case (efd_next s a t)
  obtain xs ys where "tickets t = tickets s @ xs" "tickets s = tickets t0 @ ys"
    using efd_step_tickets(1) [OF efd_next.hyps(3)] efd_reach_tickets [OF efd_next.hyps(1)] by blast
  with efd_next.prems have s: "tickets s = tickets t0" and t: "tickets t = tickets s" by simp_all
  have live: "crashed s = None" using efd_next.hyps(3) by (simp add: efd_step_def split: if_splits)
  note work = at_work_efd [THEN iffD2, OF conjI [OF efd_next.hyps(2) live]]
  note adv = first_call [OF efd_next.IH [OF s] work] and bg = first_background [OF efd_next.IH [OF s] work]
  show ?case
  proof (cases a)
    case (Start i req)
    with efd_next.hyps(3) live t show ?thesis by (auto simp: efd_step_def)
  next
    case (Call k)
    with efd_next.hyps(3) live have c: "efd_call (env_codec env) (env_efd env) k s = Some t" by (simp add: efd_step_def)
    then have "k < length (tickets s)" by (simp add: efd_call_def tickets_def split: if_splits)
    with s assms(3) have "k = 0" by simp
    with c adv show ?thesis by simp
  next
    case Listen
    with efd_next.hyps(3) live bg [of Background_listen] show ?thesis by (simp add: efd_step_def)
  next
    case Serve
    with efd_next.hyps(3) live bg [of "Background_serve 0 0"] show ?thesis by (simp add: efd_step_def)
  next
    case (Work j d)
    with efd_next.hyps(3) live bg [of "Background_work j d"] show ?thesis by (simp add: efd_step_def)
  qed
qed

lemma serving_moves:
  assumes "first_moves env t0 t" "http_reach env s0 (serving cs hs es t0)" "h < length hs" "h_phase (hs ! h) = Calling 0"
  shows "http_reach env s0 (serving cs hs es t)"
  using assms(1)
proof induction
  case first_refl
  show ?case by (rule assms(2))
next
  case (first_call t d answer t')
  from serving_advance [OF first_call.IH first_call.hyps(2) assms(3,4) first_call.hyps(3)] show ?case .
next
  case (first_background t b t')
  from serving_background [OF first_background.IH first_background.hyps(2,3)] show ?case .
qed

lemma serving_answer:
  assumes "http_reach env s0 (serving cs hs es t)" "at_work t" "h < length hs" "h_phase (hs ! h) = Calling k"
    and "transport_call t k = Some (Inr resp)"
  shows "\<exists>us ns es'. http_reach env s0 (serving cs (hs[h := (hs ! h)\<lparr>h_phase := Answered
      \<lparr>status = 200, response_headers = [(''Content-Type'', ''application/json'')],
       response_body = js_reply (env_js env) (resp_message resp) us ns\<rparr>\<rparr>]) es' t)"
  by (rule exI, rule exI, rule exI, rule http_next [OF assms(1), where a = "Answer h 0 0"])
    (use assms in \<open>simp_all add: http_step_def http_answer_def gateway_answer_def serving_def at_work_def\<close>)

lemma one_client_run:
  assumes t0: "at_work t0" "transport_size t0 = 0" and req: "req = echo_request (env_js env) path e b"
    and moves: "first_moves env (transport_start i req t0) t" and t: "at_work t" "transport_call t 0 = Some (Inr resp)"
  shows "\<exists>s us ns. http_reach env (http_boot t0) s \<and> link s = t \<and> accept_error s = None
    \<and> handlers s = [\<lparr>h_conn = 0, h_path = path, h_body = b, h_elapsed = e, h_phase = Answered
        \<lparr>status = 200, response_headers = [(''Content-Type'', ''application/json'')],
         response_body = js_reply (env_js env) (resp_message resp) us ns\<rparr>\<rparr>]"
proof -
  define h where "h = (\<lambda>b e ph. \<lparr>h_conn = 0, h_path = path, h_body = b, h_elapsed = e, h_phase = ph\<rparr>)"
  have "http_reach env (http_boot t0) (serving [] [] [] t0)" unfolding serving_boot by (rule http_refl)
  from serving_accept [OF this t0(1)] have "http_reach env (http_boot t0) (serving [True] [] [] t0)" by simp
  from serving_request [OF this t0(1), of 0 path]
  have "http_reach env (http_boot t0) (serving [True] [h [] 0 Collecting] [HTTP_REQUESTS_TOTAL_inc] t0)"
    by (simp add: h_def)
  from serving_collected [OF this t0(1), of 0 e b i]
  have "http_reach env (http_boot t0) (serving [True] [h b e (Calling 0)] [HTTP_REQUESTS_TOTAL_inc, GRPC_REQUESTS_TOTAL_inc]
      (transport_start i req t0))"
    by (simp add: h_def req t0(2))
  from serving_moves [OF moves this, of 0]
  have "http_reach env (http_boot t0) (serving [True] [h b e (Calling 0)] [HTTP_REQUESTS_TOTAL_inc, GRPC_REQUESTS_TOTAL_inc] t)"
    by (simp add: h_def)
  from serving_answer [OF this t(1) _ _ t(2), of 0]
  obtain us ns es' where "http_reach env (http_boot t0) (serving [True] [h b e (Answered
      \<lparr>status = 200, response_headers = [(''Content-Type'', ''application/json'')],
       response_body = js_reply (env_js env) (resp_message resp) us ns\<rparr>)] es' t)"
    by (auto simp: h_def)
  then show ?thesis by (intro exI conjI) (assumption | simp add: serving_def h_def)+
qed

subsection \<open>Until the second request is announced\<close>

text \<open>The transport when two requests are in the ring and one byte is on its way.\<close>

definition two_written :: "ring \<Rightarrow> 'n \<Rightarrow> utf8 \<Rightarrow> EchoRequest \<Rightarrow> utf8 \<Rightarrow> EchoRequest \<Rightarrow> 'n uds \<Rightarrow> 'n uds" where
  "two_written q k i0 req0 i1 req1 t =
     t\<lparr>req_ring := q, socket := k, pending := [i0 \<mapsto> 0, i1 \<mapsto> 1],
       calls := [\<lparr>call_id = i0, call_req = req0, call_phase = Written, mailbox = None\<rparr>,
                 \<lparr>call_id = i1, call_req = req1, call_phase = Waiting, mailbox = None\<rparr>]\<rparr>"

lemma strand_first:
  assumes fit: "prefix_fits rq" "prefix_fits rp" "prefix_fits q1" "prefix_fits q2"
    and reqs: "req0 = echo_request (env_js env) path0 e0 b0" "req1 = echo_request (env_js env) path1 e1 b1"
    and m: "enc_request (env_codec env) (i0, req0) = Inr m0" "enc_request (env_codec env) (i1, req1) = Inr m1"
    and q: "ring_write rq m0 = (Ok n0, q1)" "ring_write q1 m1 = (Ok n1, q2)"
    and k: "sock_write_u8 (env_sock env) Gateway_End 1 k0 = (Inr (), k1)"
      "sock_flush (env_sock env) Gateway_End k1 = (Inr (), k2)"
  shows "\<exists>hs es. http_reach env (http_boot (ShmUds (uds_boot rq rp k0)))
      (serving [False, True] hs es (ShmUds (two_written q2 k2 i0 req0 i1 req1 (uds_boot rq rp k0))))
    \<and> map h_phase hs = [Dropped, Calling 1]"
proof -
  let ?t0 = "uds_boot rq rp k0"
  define call where "call = (\<lambda>i req ph. \<lparr>call_id = i, call_req = req, call_phase = ph, mailbox = None\<rparr>)"
  define t1 where "t1 = rpc_insert i0 req0 ?t0"
  define t2 where "t2 = t1\<lparr>req_ring := q1, calls := [call i0 req0 Written]\<rparr>"
  define t3 where "t3 = rpc_insert i1 req1 t2"
  define t4 where "t4 = t3\<lparr>req_ring := q2, calls := [call i0 req0 Written, call i1 req1 Written]\<rparr>"
  define t5 where "t5 = t4\<lparr>socket := k2, calls := [call i0 req0 Written, call i1 req1 Waiting]\<rparr>"
  note defs = t1_def t2_def t3_def t4_def t5_def uds_boot_def rpc_insert_def call_def
  note ev = uds_call_def uds_notify_def rpc_send_def set_phase_def
  have "rings_fit ?t0 \<and> crashed ?t0 = None" "rings_fit t1 \<and> crashed t1 = None" "rings_fit t2 \<and> crashed t2 = None"
    "rings_fit t3 \<and> crashed t3 = None" "rings_fit t4 \<and> crashed t4 = None"
    using fit by (simp_all add: rings_fit_def defs)
  note w = this [THEN at_work_uds [THEN iffD2]]
  have u2: "transport_advance (env_json env) (env_codec env) (env_sock env) (env_efd env) 0 0 (Inl []) (ShmUds t1)
      = Some (ShmUds t2)" using m(1) q(1) by (simp add: ev defs)
  have u4: "transport_advance (env_json env) (env_codec env) (env_sock env) (env_efd env) 1 0 (Inl []) (ShmUds t3)
      = Some (ShmUds t4)" using m(2) q(2) by (simp add: ev defs)
  have u5: "transport_advance (env_json env) (env_codec env) (env_sock env) (env_efd env) 1 0 (Inl []) (ShmUds t4)
      = Some (ShmUds t5)" using k by (simp add: ev defs)
  let ?s0 = "http_boot (ShmUds ?t0)"
  define h where "h = (\<lambda>conn path b e ph. \<lparr>h_conn = conn, h_path = path, h_body = b, h_elapsed = e, h_phase = ph\<rparr>)"
  have "http_reach env ?s0 (serving [] [] [] (ShmUds ?t0))" unfolding serving_boot by (rule http_refl)
  from serving_accept [OF serving_accept [OF this w(1)] w(1)]
  have "http_reach env ?s0 (serving [True, True] [] [] (ShmUds ?t0))" by simp
  from serving_request [OF this w(1), of 0 path0]
  have "http_reach env ?s0 (serving [True, True] [h 0 path0 [] 0 Collecting] [HTTP_REQUESTS_TOTAL_inc] (ShmUds ?t0))"
    by (simp add: h_def)
  from serving_collected [OF this w(1), of 0 e0 b0 i0]
  have "http_reach env ?s0 (serving [True, True] [h 0 path0 b0 e0 (Calling 0)]
      [HTTP_REQUESTS_TOTAL_inc, GRPC_REQUESTS_TOTAL_inc] (ShmUds t1))"
    by (simp add: h_def t1_def reqs uds_boot_def)
  from serving_advance [OF this w(2) _ _ u2, of 0]
  have "http_reach env ?s0 (serving [True, True] [h 0 path0 b0 e0 (Calling 0)]
      [HTTP_REQUESTS_TOTAL_inc, GRPC_REQUESTS_TOTAL_inc] (ShmUds t2))"
    by (simp add: h_def)
  from serving_close [OF this w(3), of 0]
  have "http_reach env ?s0 (serving [False, True] [h 0 path0 b0 e0 Dropped]
      [HTTP_REQUESTS_TOTAL_inc, GRPC_REQUESTS_TOTAL_inc] (ShmUds t2))"
    by (simp add: h_def drop_handler_def t2_def call_def)
  from serving_request [OF this w(3), of 1 path1]
  have "http_reach env ?s0 (serving [False, True] [h 0 path0 b0 e0 Dropped, h 1 path1 [] 0 Collecting]
      [HTTP_REQUESTS_TOTAL_inc, GRPC_REQUESTS_TOTAL_inc, HTTP_REQUESTS_TOTAL_inc] (ShmUds t2))"
    by (simp add: h_def)
  from serving_collected [OF this w(3), of 1 e1 b1 i1]
  have r3: "http_reach env ?s0 (serving [False, True] [h 0 path0 b0 e0 Dropped, h 1 path1 b1 e1 (Calling 1)]
      [HTTP_REQUESTS_TOTAL_inc, GRPC_REQUESTS_TOTAL_inc, HTTP_REQUESTS_TOTAL_inc, GRPC_REQUESTS_TOTAL_inc] (ShmUds t3))"
    by (simp add: h_def t3_def reqs t2_def)
  have "http_reach env ?s0 (serving [False, True] [h 0 path0 b0 e0 Dropped, h 1 path1 b1 e1 (Calling 1)]
      [HTTP_REQUESTS_TOTAL_inc, GRPC_REQUESTS_TOTAL_inc, HTTP_REQUESTS_TOTAL_inc, GRPC_REQUESTS_TOTAL_inc] (ShmUds t5))"
    by (rule serving_advance [OF serving_advance [OF r3 w(4) _ _ u4, where h = 1] w(5) _ _ u5, where h = 1])
      (simp_all add: h_def)
  moreover have "t5 = two_written q2 k2 i0 req0 i1 req1 ?t0"
    by (simp add: two_written_def defs)
  ultimately show ?thesis
    by (intro exI [of _ "[h 0 path0 b0 e0 Dropped, h 1 path1 b1 e1 (Calling 1)]"] exI conjI) (assumption | simp add: h_def)+
qed

subsection \<open>The byte announces the other request\<close>

text \<open>The transport once the tasks have come to rest: the second request is still in its ring.\<close>

definition stranded :: "ring \<Rightarrow> ring \<Rightarrow> bytes \<Rightarrow> bytes \<Rightarrow> 'n \<Rightarrow> utf8 \<Rightarrow> utf8 \<Rightarrow> EchoRequest \<Rightarrow> EchoResponse \<Rightarrow> 'n uds \<Rightarrow> 'n uds" where
  "stranded q p bq bp k i0 i1 req1 resp t =
     t\<lparr>req_ring := q, resp_ring := p, request_buf := bq, response_buf := bp, socket := k,
       pending := [i0 \<mapsto> 0, i1 \<mapsto> 1](i0 := None), workers := [Replied i0],
       calls := [(calls t ! 0)\<lparr>mailbox := Some resp\<rparr>,
                 \<lparr>call_id = i1, call_req = req1, call_phase = Waiting, mailbox = None\<rparr>]\<rparr>"

lemma strand_second:
  assumes reach: "http_reach env s0 (serving cs hs es (ShmUds (two_written q2 k2 i0 req0 i1 req1 (uds_boot rq rp k0))))"
    and fit: "prefix_fits q2" "prefix_fits rp" "prefix_fits q3" "prefix_fits p1" "prefix_fits p2"
    and q: "ring_read q2 (replicate 65536 0) = (Ok n0, bq, q3)" "take (unat n0) bq = m0"
      "dec_request (env_codec env) m0 = Inr (i0, req0)"
    and p: "enc_response (env_codec env) (i0, echo_response d req0) = Inr r0" "ring_write rp r0 = (Ok n2, p1)"
      "ring_read p1 (replicate 131072 0) = (Ok n3, bp, p2)" "take (unat n3) bp = r0"
      "ring_read p2 bp = (Err BufferEmpty, bp, p2)"
      "dec_response (env_codec env) r0 = Inr (i0, echo_response d req0)"
    and k: "sock_read_exact (env_sock env) Backend_End k2 = (Some (Inr x), k3)"
      "sock_write_u8 (env_sock env) Backend_End 1 k3 = (Inr (), k4)"
      "sock_flush (env_sock env) Backend_End k4 = (Inr (), k5)"
      "sock_read_exact (env_sock env) Gateway_End k5 = (Some (Inr y), k6)"
    and d: "env_delay env \<le> d" and ids: "i0 \<noteq> i1"
  shows "http_reach env s0 (serving cs hs es (ShmUds (stranded q3 p2 bq bp k6 i0 i1 req1 (echo_response d req0)
      (two_written q2 k2 i0 req0 i1 req1 (uds_boot rq rp k0)))))"
proof -
  let ?resp = "echo_response d req0"
  define t5 where "t5 = two_written q2 k2 i0 req0 i1 req1 (uds_boot rq rp k0)"
  define t6 where "t6 = t5\<lparr>socket := k3, server := Serving 1\<rparr>"
  define t7 where "t7 = t6\<lparr>req_ring := q3, request_buf := bq, server := Awaiting, workers := [Sleeping i0 req0]\<rparr>"
  define t8 where "t8 = t7\<lparr>resp_ring := p1, workers := [Notifying i0]\<rparr>"
  define t9 where "t9 = t8\<lparr>socket := k5, workers := [Replied i0]\<rparr>"
  define t10 where "t10 = t9\<lparr>socket := k6, listener := Serving 1\<rparr>"
  define t11 where "t11 = t10\<lparr>resp_ring := p2, response_buf := bp, listener := Dispatching 1 i0 ?resp\<rparr>"
  define t12 where "t12 = t11\<lparr>pending := [i0 \<mapsto> 0, i1 \<mapsto> 1](i0 := None),
    calls := [(calls t5 ! 0)\<lparr>mailbox := Some ?resp\<rparr>, calls t5 ! 1], listener := Serving 1\<rparr>"
  define t13 where "t13 = t12\<lparr>listener := Awaiting\<rparr>"
  note defs = t6_def t7_def t8_def t9_def t10_def t11_def t12_def t13_def t5_def two_written_def uds_boot_def
  note ev = uds_serve_def uds_listen_def uds_work_def
  have "rings_fit t5 \<and> crashed t5 = None" "rings_fit t6 \<and> crashed t6 = None" "rings_fit t7 \<and> crashed t7 = None"
    "rings_fit t8 \<and> crashed t8 = None" "rings_fit t9 \<and> crashed t9 = None" "rings_fit t10 \<and> crashed t10 = None"
    "rings_fit t11 \<and> crashed t11 = None" "rings_fit t12 \<and> crashed t12 = None"
    using fit by (simp_all add: rings_fit_def defs)
  note w = this [THEN at_work_uds [THEN iffD2]]
  have b6: "transport_background env (Background_serve 0 0) (ShmUds t5) = Some (ShmUds t6 :: ('a, 'b) TransportEnum)"
    using k(1) by (simp add: ev defs)
  have b7: "transport_background env (Background_serve 0 0) (ShmUds t6) = Some (ShmUds t7 :: ('a, 'b) TransportEnum)"
    using q by (simp add: ev defs rpc_fetch_request_def rpc_spawn_def)
  have b8: "transport_background env (Background_work 0 d) (ShmUds t7) = Some (ShmUds t8 :: ('a, 'b) TransportEnum)"
    using p(1,2) d by (simp add: ev defs rpc_reply_def set_worker_def)
  have b9: "transport_background env (Background_work 0 d) (ShmUds t8) = Some (ShmUds t9 :: ('a, 'b) TransportEnum)"
    using k(2,3) by (simp add: ev defs set_worker_def)
  have b10: "transport_background env Background_listen (ShmUds t9) = Some (ShmUds t10 :: ('a, 'b) TransportEnum)"
    using k(4) by (simp add: ev defs)
  have b11: "transport_background env Background_listen (ShmUds t10) = Some (ShmUds t11 :: ('a, 'b) TransportEnum)"
    using p(3,4,6) by (simp add: ev defs rpc_fetch_response_def)
  have "rpc_dispatch i0 ?resp t11 = t11\<lparr>pending := [i0 \<mapsto> 0, i1 \<mapsto> 1](i0 := None),
      calls := [(calls t5 ! 0)\<lparr>mailbox := Some ?resp\<rparr>, calls t5 ! 1]\<rparr>"
    using ids by (simp add: rpc_dispatch_def defs deliver_def)
  then have b12: "transport_background env Background_listen (ShmUds t11) = Some (ShmUds t12 :: ('a, 'b) TransportEnum)"
    by (simp add: uds_listen_def t12_def) (simp add: t11_def)
  have "rpc_fetch_response t12 = (Err BufferEmpty, t12)"
    using p(5) by (simp add: rpc_fetch_response_def defs)
  then have b13: "transport_background env Background_listen (ShmUds t12) = Some (ShmUds t13 :: ('a, 'b) TransportEnum)"
    by (simp add: uds_listen_def t13_def) (simp add: t12_def)
  have "http_reach env s0 (serving cs hs es (ShmUds t5))" using reach by (simp add: t5_def)
  note serving_background [OF this w(1) b6]
  note serving_background [OF this w(2) b7]
  note serving_background [OF this w(3) b8]
  note serving_background [OF this w(4) b9]
  note serving_background [OF this w(5) b10]
  note serving_background [OF this w(6) b11]
  note serving_background [OF this w(7) b12]
  note serving_background [OF this w(8) b13]
  moreover have "t13 = stranded q3 p2 bq bp k6 i0 i1 req1 ?resp t5"
    by (simp add: stranded_def defs)
  ultimately show ?thesis by (simp add: t5_def)
qed

text \<open>Then nothing moves: no byte is unread (on a connected socket a read then waits), the worker is done, the first handler is gone, and the
  second call has no response.\<close>

lemma stranded_quiet:
  assumes conn: "sock_connected (env_sock env) unread" and hs: "map h_phase hs = [Dropped, Calling 1]"
    and still: "\<And>e. unread k e = []" and ids: "i0 \<noteq> i1"
  shows "http_quiet env (serving cs hs es (ShmUds (stranded q p bq bp k i0 i1 req1 resp
      (two_written q' k' i0 req0 i1 req1 (uds_boot rq rp k0)))))"
proof -
  define t where "t = stranded q p bq bp k i0 i1 req1 resp (two_written q' k' i0 req0 i1 req1 (uds_boot rq rp k0))"
  have t: "server t = Awaiting" "listener t = Awaiting" "workers t = [Replied i0]" "socket t = k"
    "pending t i1 = Some 1" "length (calls t) = 2"
    "calls t ! 1 = \<lparr>call_id = i1, call_req = req1, call_phase = Waiting, mailbox = None\<rparr>"
    using ids by (simp_all add: t_def stranded_def two_written_def uds_boot_def)
  have "\<exists>n. sock_read_exact (env_sock env) e k = (None, n)" for e
    using conn still by (simp add: sock_connected_def)
  then obtain n n' where "sock_read_exact (env_sock env) Backend_End k = (None, n)"
    "sock_read_exact (env_sock env) Gateway_End k = (None, n')" by blast
  then have "uds_serve (env_codec env) (env_sock env) t = None" "uds_listen (env_codec env) (env_sock env) t = None"
    using t(1,2,4) by (simp_all add: uds_serve_def uds_listen_def)
  moreover have "uds_work (env_codec env) (env_sock env) (env_delay env) j d t = None" for j d
    by (cases j) (simp_all add: uds_work_def t(3))
  ultimately have bg: "transport_background env b (ShmUds t) = None" for b
    by (cases b) simp_all
  have call: "uds_call (env_codec env) (env_sock env) 1 t = None" "rpc_result t 1 = None"
    using t(5-7) by (simp_all add: uds_call_def rpc_receive_def rpc_result_def)
  have phases: "h_phase (hs ! h) = Dropped \<or> h_phase (hs ! h) = Calling 1" if "h < length hs" for h
  proof -
    have "h_phase (hs ! h) = map h_phase hs ! h" using that by simp
    also have "\<dots> \<in> set (map h_phase hs)" using that by (intro nth_mem) simp
    finally show ?thesis using hs by simp
  qed
  have "http_advance env h d answer (serving cs hs es (ShmUds t)) = None" for h d answer
    using phases [of h] call(1) by (cases "h < length hs") (auto simp: http_advance_def serving_def)
  moreover have "http_answer env h d2 d3 (serving cs hs es (ShmUds t)) = None" for h d2 d3
    using phases [of h] call(2) by (cases "h < length hs") (auto simp: http_answer_def serving_def)
  moreover have "transport_background env b (link (serving cs hs es (ShmUds t))) = None" for b
    using bg [of b] by (simp add: serving_def)
  ultimately show ?thesis unfolding http_quiet_def t_def [symmetric] by blast
qed

text \<open>Both halves.\<close>

lemma strand_run:
  assumes codec: "codec_laws (env_codec env)" and laws: "sock_laws (env_sock env) unread"
    and up: "sock_healthy UNIV (env_sock env) unread" "sock_connected (env_sock env) unread"
    and quiet: "\<And>e. unread k0 e = []"
    and rings: "ring_rep rq []" "ring_rep rp []" and d: "env_delay env \<le> d" and ids: "i0 \<noteq> i1"
    and reqs: "req0 = echo_request (env_js env) path0 e0 b0" "req1 = echo_request (env_js env) path1 e1 b1"
    and m: "enc_request (env_codec env) (i0, req0) = Inr m0" "enc_request (env_codec env) (i1, req1) = Inr m1"
    and p: "enc_response (env_codec env) (i0, echo_response d req0) = Inr r0"
    and size: "length m0 \<le> 65536" "length r0 \<le> 131072"
    and room: "ring_wp rq + length m0 + length m1 + 12 \<le> ring_cap rq" "ring_wp rp + length r0 + 8 \<le> ring_cap rp"
  shows "\<exists>s t. http_reach env (http_boot (ShmUds (uds_boot rq rp k0))) s \<and> link s = ShmUds t
    \<and> map h_phase (handlers s) = [Dropped, Calling 1] \<and> accept_error s = None \<and> ring_rep (req_ring t) [m1]
    \<and> workers t = [Replied i0] \<and> http_quiet env s"
proof -
  let ?zq = "replicate 65536 0 :: bytes" and ?zp = "replicate 131072 0 :: bytes"
  define bq where "bq = m0 @ drop (length m0) ?zq"
  define bp where "bp = r0 @ drop (length r0) ?zp"
  have z: "length m0 \<le> length ?zq" "length ?zq \<le> isize_max" "length r0 \<le> length ?zp" "length ?zp \<le> isize_max"
    using size by (simp_all add: isize_max_def)
  obtain q1 q2' q3 where q: "ring_write rq m0 = (Ok (len_usize m0), q1)" "prefix_fits q1"
    "ring_write q1 m1 = (Ok (len_usize m1), q2')" "prefix_fits q2'"
    "ring_read q2' ?zq = (Ok (len_usize m0), bq, q3)" "prefix_fits q3" "ring_rep q3 [m1]"
    unfolding bq_def by (rule ring_two_messages [OF rings(1) room(1) z(1,2)])
  obtain p1 p2 where pr: "ring_write rp r0 = (Ok (len_usize r0), p1)" "prefix_fits p1"
    "ring_read p1 ?zp = (Ok (len_usize r0), bp, p2)" "prefix_fits p2" "\<And>b. ring_read p2 b = (Err BufferEmpty, b, p2)"
    unfolding bp_def by (rule ring_one_message [OF rings(2) room(2) z(3,4)]) blast
  have dec: "dec_request (env_codec env) m0 = Inr (i0, req0)" "length m0 \<le> isize_max"
    "dec_response (env_codec env) r0 = Inr (i0, echo_response d req0)" "length r0 \<le> isize_max"
    using codec_request [OF codec m(1)] codec_response [OF codec p] by auto
  have take: "take (unat (len_usize m0)) bq = m0" "take (unat (len_usize r0)) bp = r0"
    using dec by (simp_all add: bq_def bp_def)
  have fit: "prefix_fits rq" "prefix_fits rp" using room by (simp_all add: prefix_fits_def)
  obtain k1 where k1: "sock_write_u8 (env_sock env) Gateway_End 1 k0 = (Inr (), k1)"
    using up(1) unfolding sock_healthy_def by blast
  obtain k2' where k2: "sock_flush (env_sock env) Gateway_End k1 = (Inr (), k2')"
    using up(1) unfolding sock_healthy_def by blast
  have u2: "unread k2' Backend_End = [1]" "unread k2' Gateway_End = []"
    using sock_written [OF laws k1] sock_flushed [OF laws, of Gateway_End k1] k2 quiet by simp_all
  then have "unread k2' Backend_End \<noteq> []" by simp
  then obtain x k3 where k3: "sock_read_exact (env_sock env) Backend_End k2' = (Some (Inr x), k3)"
    using up(1) unfolding sock_healthy_def by blast
  have u3: "unread k3 e = []" for e using sock_read [OF laws k3] u2 by (cases e) simp_all
  obtain k4 where k4: "sock_write_u8 (env_sock env) Backend_End 1 k3 = (Inr (), k4)"
    using up(1) unfolding sock_healthy_def by blast
  obtain k5 where k5: "sock_flush (env_sock env) Backend_End k4 = (Inr (), k5)"
    using up(1) unfolding sock_healthy_def by blast
  have u5: "unread k5 Gateway_End = [1]" "unread k5 Backend_End = []"
    using sock_written [OF laws k4] sock_flushed [OF laws, of Backend_End k4] k5 u3 by simp_all
  then have "unread k5 Gateway_End \<noteq> []" by simp
  then obtain y k6 where k6: "sock_read_exact (env_sock env) Gateway_End k5 = (Some (Inr y), k6)"
    using up(1) unfolding sock_healthy_def by blast
  have u6: "unread k6 e = []" for e using sock_read [OF laws k6] u5 by (cases e) simp_all
  obtain hs es where first: "http_reach env (http_boot (ShmUds (uds_boot rq rp k0)))
      (serving [False, True] hs es (ShmUds (two_written q2' k2' i0 req0 i1 req1 (uds_boot rq rp k0))))"
    "map h_phase hs = [Dropped, Calling 1]"
    using strand_first [OF fit q(2,4) reqs m q(1,3) k1 k2] by (elim exE conjE) (rule that)
  note run = strand_second [OF first(1) q(4) fit(2) q(6) pr(2,4) q(5) take(1) dec(1) p pr(1,3) take(2) pr(5) dec(3)
        k3 k4 k5 k6 d ids]
  from stranded_quiet [OF up(2) first(2) u6 ids]
  have "http_quiet env (serving [False, True] hs es (ShmUds (stranded q3 p2 bq bp k6 i0 i1 req1 (echo_response d req0)
      (two_written q2' k2' i0 req0 i1 req1 (uds_boot rq rp k0)))))" .
  with run first(2) q(7) show ?thesis
    by (intro exI conjI) (assumption | simp add: serving_def stranded_def)+
qed

end
