(* ===== verification/Http_Properties.thy ===== *)
theory Http_Properties
  imports Http_Runs
begin

section \<open>Properties of the HTTP server\<close>

text \<open>
  What a client of the gateway can rely on, over the whole system of HTTP server, transport and
  backend, and what a client that disconnects can do to another.
\<close>

subsection \<open>Demonstrations\<close>

definition ref_env :: "(side \<Rightarrow> bytes, efd_kernel, utf8) http_env" where
  "ref_env = \<lparr>env_js = ref_js, env_display = (\<lambda>_. []), env_json = ref_json, env_codec = ref_codec,
     env_sock = ref_sock, env_efd = ref_efd, env_delay = 1000\<rparr>"

lemma ref_env_simps [simp]:
  "env_js ref_env = ref_js" "env_codec ref_env = ref_codec" "env_sock ref_env = ref_sock"
  "env_efd ref_env = ref_efd" "env_delay ref_env = 1000"
  by (simp_all add: ref_env_def)

text \<open>The requests of the witnesses, as made for empty bodies from the paths \<open>hi\<close> and \<open>bye\<close>.\<close>

lemma req_hi_from_http: "req_hi = echo_request ref_js [104, 105] 0 []"
  by (simp add: req_hi_def echo_request_def as_nanos_i64_def)

lemma req_bye_from_http: "req_bye = echo_request ref_js [98, 121, 101] 0 []"
  by (simp add: req_bye_def echo_request_def as_nanos_i64_def)

definition hi_answered :: "i64 \<Rightarrow> i64 \<Rightarrow> handler" where
  "hi_answered us ns = \<lparr>h_conn = 0, h_path = [104, 105], h_body = [], h_elapsed = 0, h_phase = Answered
     \<lparr>status = 200, response_headers = [(''Content-Type'', ''application/json'')],
      response_body = js_reply ref_js [104, 105] us ns\<rparr>\<rparr>"

lemma http_demo_uds:
  "\<exists>s t us ns. http_reach ref_env (http_boot (ShmUds uds_demo)) s \<and> link s = ShmUds t
    \<and> tickets t = [([1], req_hi)] \<and> handlers s = [hi_answered us ns]"
proof -
  have "\<exists>t. uds_reach ref_codec ref_sock 1000 (rpc_insert [1] req_hi uds_demo) t \<and> uds_idle (\<lambda>k. k) t
    \<and> rings_fit t \<and> workers t = workers uds_demo @ [Replied [1]]
    \<and> calls t = calls uds_demo @ [\<lparr>call_id = [1], call_req = req_hi,
        call_phase = Finished (Ok (echo_response 1000 req_hi)), mailbox = Some (echo_response 1000 req_hi)\<rparr>]"
    by (rule uds_round_trip_moves [OF ref_codec_laws ref_sock_laws ref_sock_healthy uds_demo_idle _
          ref_enc_hi(1) _ ref_enc_hi(3)])
      (simp_all add: ref_enc_hi uds_demo_def uds_boot_def ring_default_nat)
  then obtain t where t: "uds_reach ref_codec ref_sock 1000 (rpc_insert [1] req_hi uds_demo) t" "uds_idle (\<lambda>k. k) t"
    "rings_fit t" "calls t = [\<lparr>call_id = [1], call_req = req_hi,
        call_phase = Finished (Ok (echo_response 1000 req_hi)), mailbox = Some (echo_response 1000 req_hi)\<rparr>]"
    by (auto simp: uds_demo_def uds_boot_def)
  have tk: "tickets t = [([1], req_hi)]" "tickets uds_demo = []"
    by (simp_all add: tickets_def t(4) uds_demo_def uds_boot_def)
  have moves: "first_moves ref_env (transport_start [1] req_hi (ShmUds uds_demo)) (ShmUds t)"
    unfolding transport_start.simps by (rule first_moves_uds) (use t(1) tk in simp_all)
  have "at_work (ShmUds uds_demo)" "transport_size (ShmUds uds_demo) = 0"
    "at_work (ShmUds t)" "transport_call (ShmUds t) 0 = Some (Inr (echo_response 1000 req_hi))"
    using t(2-4) by (simp_all add: uds_demo_def uds_boot_def rings_fit_def prefix_fits_def ring_default_nat
        uds_idle_def rpc_result_def)
  from one_client_run [where env = ref_env, OF this(1,2) _ moves this(3,4), of "[104, 105]" 0 "[]"] tk(1)
  show ?thesis by (fastforce simp: req_hi_from_http [symmetric] hi_answered_def echo_response_def req_hi_def)
qed

lemma http_demo_efd:
  "\<exists>s t us ns. http_reach ref_env (http_boot (ShmEventfd efd_demo)) s \<and> link s = ShmEventfd t \<and> accept_error s = None
    \<and> tickets t = [([1], req_hi)] \<and> handlers s = [hi_answered us ns]
    \<and> efd_rests ref_codec ref_efd 1000 t"
proof -
  have "\<exists>t. efd_reach ref_codec ref_efd 1000 (rpc_insert [1] req_hi efd_demo) t \<and> efd_idle ref_view t
    \<and> rings_fit t \<and> workers t = workers efd_demo @ [Replied [1]]
    \<and> calls t = calls efd_demo @ [\<lparr>call_id = [1], call_req = req_hi,
        call_phase = Finished (Ok (echo_response 1000 req_hi)), mailbox = Some (echo_response 1000 req_hi)\<rparr>]"
    by (rule efd_round_trip_moves [OF ref_codec_laws ref_efd_laws efd_demo_idle _
          ref_enc_hi(1) _ ref_enc_hi(3)])
      (simp_all add: ref_enc_hi efd_demo_def efd_boot_def ring_default_nat)
  then obtain t where t: "efd_reach ref_codec ref_efd 1000 (rpc_insert [1] req_hi efd_demo) t" "efd_idle ref_view t"
    "rings_fit t" "workers t = [Replied [1]]" "calls t = [\<lparr>call_id = [1], call_req = req_hi,
        call_phase = Finished (Ok (echo_response 1000 req_hi)), mailbox = Some (echo_response 1000 req_hi)\<rparr>]"
    by (auto simp: efd_demo_def efd_boot_def)
  have tk: "tickets t = [([1], req_hi)]" "tickets efd_demo = []"
    by (simp_all add: tickets_def t(5) efd_demo_def efd_boot_def)
  have moves: "first_moves ref_env (transport_start [1] req_hi (ShmEventfd efd_demo)) (ShmEventfd t)"
    unfolding transport_start.simps by (rule first_moves_efd) (use t(1) tk in simp_all)
  have "at_work (ShmEventfd efd_demo)" "transport_size (ShmEventfd efd_demo) = 0"
    "at_work (ShmEventfd t)" "transport_call (ShmEventfd t) 0 = Some (Inr (echo_response 1000 req_hi))"
    using t(2,3,5) by (simp_all add: efd_demo_def efd_boot_def rings_fit_def prefix_fits_def ring_default_nat
        efd_idle_def rpc_result_def)
  from one_client_run [where env = ref_env, OF this(1,2) _ moves this(3,4), of "[104, 105]" 0 "[]"] tk(1)
    efd_demo_done_quiet(1) [OF t(2,4,5)]
  show ?thesis by (fastforce simp: req_hi_from_http [symmetric] hi_answered_def echo_response_def req_hi_def)
qed

lemma ref_enc_bye:
  "enc_request ref_codec ([2], req_bye) = Inr (ref_put_request ([2], req_bye))"
  "length (ref_put_request ([2], req_bye)) = 36"
  by (simp_all add: ref_codec_def ref_put_request_def req_bye_def put_i64_def isize_max_def)

text \<open>The eventfd transport at rest: nothing can move.\<close>

lemma http_demo_efd_quiet:
  assumes "link s = ShmEventfd t" "handlers s = [hi_answered us ns]" "efd_rests ref_codec ref_efd 1000 t"
  shows "http_quiet ref_env s"
proof -
  have "transport_background ref_env b (link s) = None" for b
    using assms(1,3) by (cases b) (simp_all add: efd_rests_def)
  moreover have "http_advance ref_env h d answer s = None" "http_answer ref_env h d2 d3 s = None" for h d answer d2 d3
    using assms(2) by (cases h; simp add: http_advance_def http_answer_def hi_answered_def)+
  ultimately show ?thesis by (simp add: http_quiet_def)
qed

subsection \<open>Properties\<close>

text \<open>C5. From the HTTP client to the backend and back: over either notified transport, in every state
  of the running server, a handler that has answered has answered its client with 400 (its body
  could not be read), with 503, or with 200 and the message of that client's own request,
  whatever other clients, calls and workers run beside it, and whoever disconnects.\<close>

theorem http_server_answers_own:
  assumes "notified_boot env t0" "http_reach env (http_boot t0) s" "transport_fresh (link s)"
    and "h < length (handlers s)" "h_phase (handlers s ! h) = Answered r"
  shows "r = bad_request \<or> status r = 503 \<or> own_message env (handlers s ! h) r"
  using assms by (rule answered_own)

lemma notified_boot_demo: "notified_boot ref_env (ShmUds uds_demo)"
proof -
  have "sock_quiet Gateway_End = []" "sock_quiet Backend_End = []" by (simp_all add: sock_quiet_def)
  then show ?thesis
    unfolding notified_boot_def uds_demo_def ref_env_simps
    using ref_codec_laws ref_sock_laws ring_default_nat(1) by blast
qed

lemma http_server_answers_own_witness:
  "\<exists>s r. http_reach ref_env (http_boot (ShmUds uds_demo)) s \<and> h_phase (handlers s ! 0) = Answered r
    \<and> status r = 200 \<and> own_message ref_env (handlers s ! 0) r"
proof -
  obtain s t us ns where s: "http_reach ref_env (http_boot (ShmUds uds_demo)) s" "link s = ShmUds t"
    "tickets t = [([1], req_hi)]" "handlers s = [hi_answered us ns]"
    using http_demo_uds by blast
  obtain r where r: "h_phase (handlers s ! 0) = Answered r" "status r = 200"
    using s(4) by (simp add: hi_answered_def)
  have "transport_fresh (link s)" using s(2,3) by (simp add: fresh_ids_def)
  then have "r = bad_request \<or> status r = 503 \<or> own_message ref_env (handlers s ! 0) r"
    using http_server_answers_own [OF notified_boot_demo s(1), of 0 r] s(4) r(1) by simp
  then have "own_message ref_env (handlers s ! 0) r" using r(2) by (auto simp: bad_request_def)
  with s(1) r show ?thesis by blast
qed

text \<open>C17. The Prometheus counters are exact over every transport, whoever disconnects: one HTTP request
  is counted per handler, one gRPC request per call of the transport, one gRPC duration per answer
  200 and one HTTP duration per answer 200 or 503 (an answer 400 is not timed); and the metrics
  object of the gateway is never touched.\<close>

theorem http_counters_exact:
  assumes "http_reach env (http_boot t0) s" "transport_size t0 = 0"
  shows "occurrences (\<lambda>e. e = HTTP_REQUESTS_TOTAL_inc) s = length (handlers s)
    \<and> occurrences (\<lambda>e. e = GRPC_REQUESTS_TOTAL_inc) s = transport_size (link s)
    \<and> occurrences grpc_observation s = answers {200} s
    \<and> occurrences http_observation s = answers {200, 503} s
    \<and> metrics (gateway s) = Metrics_new"
  using http_reach_books [OF assms] by (simp add: http_books_def)

lemma http_counters_exact_witness:
  "\<exists>s. http_reach ref_env (http_boot (ShmUds uds_demo)) s \<and> occurrences grpc_observation s = 1
    \<and> occurrences http_observation s = 1"
proof -
  obtain s t us ns where s: "http_reach ref_env (http_boot (ShmUds uds_demo)) s" "handlers s = [hi_answered us ns]"
    using http_demo_uds by blast
  have "transport_size (ShmUds uds_demo) = 0" by (simp add: uds_demo_def uds_boot_def)
  from http_counters_exact [OF s(1) this] s(2)
  have "occurrences grpc_observation s = 1 \<and> occurrences http_observation s = 1"
    by (simp add: answers_def answered_with_def hi_answered_def)
  with s(1) show ?thesis by blast
qed

text \<open>C18. Over eventfds no client is forgotten, also when others disconnect in the middle of their
  requests, while all messages fit the 64 KiB buffers (and identifiers differ and no prefix
  straddles): when neither a handler nor a task of the transport or the backend can move, a handler
  that still waits for its call waits for a response its worker could not serialise or write;
  every other handler reads its body, has answered or has been dropped.\<close>

theorem http_no_client_forgotten:
  assumes "codec_laws (env_codec env)" "efd_laws (env_efd env) view" "ring_rep rq []" "ring_rep rp []"
    and "efd_fresh view k0 gs bs"
    and "http_reach env (http_boot (ShmEventfd (efd_boot rq rp gs bs k0))) s"
    and "link s = ShmEventfd t" "fresh_ids t" "fits_buffers (env_codec env) 65536 65536 (tickets t)"
    and "http_quiet env s" "h < length (handlers s)"
  shows "case h_phase (handlers s ! h) of
      Calling k \<Rightarrow> \<exists>e. Lost (call_id (calls t ! k)) e \<in> set (workers t)
    | _ \<Rightarrow> True"
  using http_quiet_call [OF assms] by (auto split: handler_phase.split)

lemma http_no_client_forgotten_witness:
  "\<exists>s t. http_reach ref_env (http_boot (ShmEventfd efd_demo)) s \<and> link s = ShmEventfd t \<and> http_quiet ref_env s
    \<and> (case h_phase (handlers s ! 0) of
        Calling k \<Rightarrow> \<exists>e. Lost (call_id (calls t ! k)) e \<in> set (workers t) | _ \<Rightarrow> True)"
proof -
  obtain s t us ns where s: "http_reach ref_env (http_boot (ShmEventfd efd_demo)) s" "link s = ShmEventfd t"
    "tickets t = [([1], req_hi)]" "handlers s = [hi_answered us ns]" "efd_rests ref_codec ref_efd 1000 t"
    using http_demo_efd by blast
  note quiet = http_demo_efd_quiet [OF s(2,4,5)]
  have "case h_phase (handlers s ! 0) of
        Calling k \<Rightarrow> \<exists>e. Lost (call_id (calls t ! k)) e \<in> set (workers t) | _ \<Rightarrow> True"
    by (rule http_no_client_forgotten [where env = ref_env, unfolded ref_env_simps, OF ref_codec_laws ref_efd_laws
          ring_default_nat(1) ring_default_nat(1) efd_kernel0_fresh s(1) [unfolded efd_demo_def] s(2) _ _ quiet])
      (use s(3,4) ref_fits_hi(2) in \<open>simp_all add: fresh_ids_def\<close>)
  with s(1,2) quiet show ?thesis by blast
qed

text \<open>C19. Over the socket a client that disconnects can strand another. When a first client leaves
  while its handler waits to announce its request, there is a run in which the byte sent for the
  second client makes the backend serve the first one's request; then nothing can move, the
  second client's request is still in the ring and its handler waits for ever.\<close>

theorem http_disconnect_strands:
  assumes "codec_laws (env_codec env)" "sock_laws (env_sock env) unread" "sock_healthy UNIV (env_sock env) unread"
    and "sock_connected (env_sock env) unread" "\<forall>e. unread k0 e = []" "ring_rep rq []" "ring_rep rp []"
    and "env_delay env \<le> d" "i0 \<noteq> i1"
    and "req0 = echo_request (env_js env) path0 e0 b0" "req1 = echo_request (env_js env) path1 e1 b1"
    and "enc_request (env_codec env) (i0, req0) = Inr m0" "enc_request (env_codec env) (i1, req1) = Inr m1"
    and "enc_response (env_codec env) (i0, echo_response d req0) = Inr r0"
    and "length m0 \<le> 65536" "length r0 \<le> 131072"
    and "ring_wp rq + length m0 + length m1 + 12 \<le> ring_cap rq" "ring_wp rp + length r0 + 8 \<le> ring_cap rp"
  shows "\<exists>s t. http_reach env (http_boot (ShmUds (uds_boot rq rp k0))) s \<and> link s = ShmUds t
    \<and> map h_phase (handlers s) = [Dropped, Calling 1] \<and> ring_rep (req_ring t) [m1]
    \<and> workers t = [Replied i0] \<and> http_quiet env s"
proof -
  have still: "unread k0 e = []" for e using assms(5) by blast
  show ?thesis
    using strand_run [OF assms(1-4) still assms(6-)] by (elim exE conjE) (intro exI conjI, assumption+)
qed

lemma http_disconnect_strands_witness:
  "\<exists>s t. http_reach ref_env (http_boot (ShmUds (uds_boot ring_default ring_default sock_quiet))) s
    \<and> link s = ShmUds t \<and> map h_phase (handlers s) = [Dropped, Calling 1] \<and> http_quiet ref_env s"
proof -
  have still: "\<forall>e. sock_quiet e = []" by (simp add: sock_quiet_def)
  have "\<exists>s t. http_reach ref_env (http_boot (ShmUds (uds_boot ring_default ring_default sock_quiet))) s
      \<and> link s = ShmUds t \<and> map h_phase (handlers s) = [Dropped, Calling 1]
      \<and> ring_rep (req_ring t) [ref_put_request ([2], req_bye)] \<and> workers t = [Replied [1]] \<and> http_quiet ref_env s"
    by (rule http_disconnect_strands [where env = ref_env and d = 1000, unfolded ref_env_simps, OF ref_codec_laws
          ref_sock_laws ref_sock_healthy ref_sock_connected still ring_default_nat(1) ring_default_nat(1)
          _ _ req_hi_from_http req_bye_from_http ref_enc_hi(1) ref_enc_bye(1) ref_enc_hi(3)])
      (simp_all add: ref_enc_hi ref_enc_bye ring_default_nat)
  then show ?thesis by (elim exE conjE) (intro exI conjI, assumption+)
qed

end
