(* ===== verification/Descriptors.thy ===== *)
theory Descriptors
  imports Startup_Properties Shm_Eventfd "HOL-Library.Sublist"
begin

section \<open>The passing of the eventfds\<close>

text \<open>
  The backend creates two eventfds (\<open>efd_server_new\<close>), sends them over the control socket
  (\<open>efd_server_connect\<close>) and the gateway receives them (\<open>efd_transport_new\<close>). A descriptor is a
  number of one process; what two processes share is the file behind it, \<open>file_at\<close> of the view of
  the eventfds. \<open>passing_laws\<close> states what \<^verbatim>\<open>unix(7)\<close> documents for sockets and for descriptors in
  control messages, in terms of the connection a stream descriptor belongs to, and for each
  connection the files sent over it so far and the number of those that have been received. The
  descriptors of both processes are numbers of one space.
\<close>

record ('os, 'c) passing =
  stream_conn :: "'os \<Rightarrow> int \<Rightarrow> 'c option"
  sent_files :: "'os \<Rightarrow> 'c \<Rightarrow> nat list"
  received :: "'os \<Rightarrow> 'c \<Rightarrow> nat"

text \<open>The eventfds open before a call are the same after it, and their counters stand where they stood.\<close>

definition eventfds_kept :: "'os efd_view \<Rightarrow> 'os \<Rightarrow> 'os \<Rightarrow> bool" where
  "eventfds_kept view os os' \<longleftrightarrow> (\<forall>fd x. file_at view os fd = Some x \<longrightarrow>
     file_at view os' fd = Some x \<and> counter_at view os' x = counter_at view os x)"

lemma eventfds_keptD:
  "eventfds_kept view os os' \<Longrightarrow> file_at view os fd = Some x \<and> counter_at view os x = e \<Longrightarrow>
     file_at view os' fd = Some x \<and> counter_at view os' x = e"
  unfolding eventfds_kept_def by metis

text \<open>Nothing the two tasks hold changes.\<close>

definition still :: "'os efd_view \<Rightarrow> ('os, 'c) passing \<Rightarrow> 'os \<Rightarrow> 'os \<Rightarrow> bool" where
  "still view v os os' \<longleftrightarrow> stream_conn v os' = stream_conn v os \<and> sent_files v os' = sent_files v os \<and> received v os' = received v os
     \<and> file_at view os' = file_at view os"

text \<open>Accepting a connection on which nothing has been sent; one descriptor sent; a clone.\<close>

definition sending_laws :: "'os net_sys \<Rightarrow> 'os efd_view \<Rightarrow> ('os, 'c) passing \<Rightarrow> bool" where
  "sending_laws net view v \<longleftrightarrow>
     (\<forall>l os st os'. net_accept net l os = (Inr st, os') \<longrightarrow>
        (\<exists>c. stream_conn v os' st = Some c \<and> sent_files v os' c = []) \<and> (\<forall>fd x. file_at view os fd = Some x \<longrightarrow> file_at view os' fd = Some x))
   \<and> (\<forall>st b fd os n os' c x. net_sendmsg net st b [ScmRights [fd]] os = (Inr n, os') \<longrightarrow> stream_conn v os st = Some c \<longrightarrow>
        file_at view os fd = Some x \<longrightarrow> sent_files v os' c = sent_files v os c @ [x] \<and> stream_conn v os' st = Some c \<and> file_at view os' = file_at view os)
   \<and> (\<forall>fd os fd' os'. net_try_clone net fd os = (Inr fd', os') \<longrightarrow> file_at view os' fd' = file_at view os fd \<and> sent_files v os' = sent_files v os)
   \<and> (\<forall>fd os fd' os'. net_async_fd net fd os = (Inr fd', os') \<longrightarrow> fd' = fd \<and> still view v os os')"

text \<open>Binding a socket and removing its file; connecting: nothing has been received yet.\<close>

definition socket_laws :: "'os net_sys \<Rightarrow> 'os efd_view \<Rightarrow> ('os, 'c) passing \<Rightarrow> bool" where
  "socket_laws net view v \<longleftrightarrow>
     (\<forall>path os. eventfds_kept view os (snd (net_bind net path os)) \<and> eventfds_kept view os (snd (net_remove_file net path os)))
   \<and> (\<forall>path os st os'. net_connect net path os = (Inr st, os') \<longrightarrow>
        (\<exists>c. stream_conn v os' st = Some c \<and> received v os' c = 0))"

text \<open>While a task waits for a message others may send; a message with a descriptor carries the
  first one not yet received, as a fresh descriptor; a failed receive changes nothing; a closed
  stream takes no other descriptor with it.\<close>

definition waiting_law :: "'os net_sys \<Rightarrow> 'os efd_view \<Rightarrow> ('os, 'c) passing \<Rightarrow> bool" where
  "waiting_law net view v \<longleftrightarrow>
     (\<forall>st os r os' c. net_readable net st os = (r, os') \<longrightarrow> stream_conn v os st = Some c \<longrightarrow>
        prefix (sent_files v os c) (sent_files v os' c) \<and> received v os' c = received v os c \<and> stream_conn v os' st = Some c
        \<and> (\<forall>fd x. file_at view os fd = Some x \<longrightarrow> file_at view os' fd = Some x))"

definition receiving_law :: "'os net_sys \<Rightarrow> 'os efd_view \<Rightarrow> ('os, 'c) passing \<Rightarrow> bool" where
  "receiving_law net view v \<longleftrightarrow>
     (\<forall>st os r os' c. net_recvmsg net st os = (r, os') \<longrightarrow> stream_conn v os st = Some c \<longrightarrow>
        (case r of
           Inl e \<Rightarrow> still view v os os'
         | Inr msg \<Rightarrow> (case first_descriptor msg of
             None \<Rightarrow> still view v os os'
           | Some fd \<Rightarrow> received v os c < length (sent_files v os c) \<and> file_at view os fd = None
               \<and> file_at view os' = (file_at view os)(fd \<mapsto> sent_files v os c ! received v os c)
               \<and> received v os' c = Suc (received v os c) \<and> sent_files v os' = sent_files v os \<and> stream_conn v os' st = Some c)))"

definition passing_laws :: "'os net_sys \<Rightarrow> 'os efd_view \<Rightarrow> ('os, 'c) passing \<Rightarrow> bool" where
  "passing_laws net view v \<longleftrightarrow> socket_laws net view v \<and> sending_laws net view v \<and> waiting_law net view v \<and> receiving_law net view v
     \<and> (\<forall>st fd os. fd \<noteq> st \<longrightarrow> file_at view (net_close net st os) fd = file_at view os fd)
     \<and> (\<forall>st os. sent_files v (net_close net st os) = sent_files v os)
     \<and> (\<forall>st os c. stream_conn v os st = Some c \<longrightarrow> file_at view os st = None)"

subsection \<open>One descriptor\<close>

text \<open>What a successful receive gives: the next open file of the connection, and nothing lost.\<close>

definition received_one :: "'os efd_view \<Rightarrow> ('os, 'c) passing \<Rightarrow> int \<Rightarrow> 'c \<Rightarrow> 'os \<Rightarrow> int \<Rightarrow> 'os \<Rightarrow> bool" where
  "received_one view v st c os fd os' \<longleftrightarrow>
     received v os c < length (sent_files v os' c) \<and> file_at view os' fd = Some (sent_files v os' c ! received v os c)
   \<and> received v os' c = Suc (received v os c) \<and> stream_conn v os' st = Some c \<and> prefix (sent_files v os c) (sent_files v os' c)
   \<and> (\<forall>fd x. file_at view os fd = Some x \<longrightarrow> file_at view os' fd = Some x)"

lemma prefix_nth: "prefix xs ys \<Longrightarrow> k < length xs \<Longrightarrow> ys ! k = xs ! k"
  by (auto simp: prefix_def nth_append)

lemma received_one_later:
  assumes "received_one view v st c os1 fd os'" "prefix (sent_files v os c) (sent_files v os1 c)"
    and "received v os1 c = received v os c" "\<forall>fd x. file_at view os fd = Some x \<longrightarrow> file_at view os1 fd = Some x"
  shows "received_one view v st c os fd os'"
  using assms by (auto simp: received_one_def intro: prefix_order.trans)

text \<open>The step of the loop after a wait: a message, or nothing and the same state.\<close>

lemma received_one_now:
  assumes laws: "passing_laws net view v" and c: "stream_conn v os st = Some c"
    and msg: "net_recvmsg net st os = (Inr msg, os1)" "first_descriptor msg = Some fd0"
    and fd: "net_async_fd net fd0 os1 = (Inr fd, os2)"
  shows "received_one view v st c os fd os2"
proof -
  have "receiving_law net view v" "sending_laws net view v" using laws by (simp_all add: passing_laws_def)
  then have r: "received v os c < length (sent_files v os c)" "file_at view os fd0 = None"
    "file_at view os1 = (file_at view os)(fd0 \<mapsto> sent_files v os c ! received v os c)"
    "received v os1 c = Suc (received v os c)" "sent_files v os1 = sent_files v os" "stream_conn v os1 st = Some c"
    and a: "fd = fd0" "still view v os1 os2"
    using c msg fd unfolding receiving_law_def sending_laws_def by (fastforce split: sum.splits option.splits)+
  then show ?thesis by (auto simp: received_one_def still_def)
qed

lemma recv_eventfd_Ok:
  fixes net :: "'a net_sys"
  assumes "passing_laws net view v" "stream_conn v os st = Some c" "recv_eventfd net st os = Some (Ok fd, os')"
  shows "received_one view v st c os fd os'"
proof -
  define P where "P = (\<lambda>net st os (y :: (startup_error, int) outcome \<times> 'a). passing_laws net view v \<longrightarrow> stream_conn v os st = Some c \<longrightarrow>
    (\<forall>fd os'. y = (Ok fd, os') \<longrightarrow> received_one view v st c os fd os'))"
  have "P net st os (Ok fd, os')"
  proof (rule recv_eventfd.raw_induct [of P, OF _ assms(3)])
    fix rec net st os y
    assume 1: "\<And>net st os y. rec net st os = Some y \<Longrightarrow> P net st os y"
      "(case net_readable net st os of
        (Inl e, os1) \<Rightarrow> Some (Err (Socket_error e), os1)
      | (Inr _, os1) \<Rightarrow>
        (case net_recvmsg net st os1 of
           (Inl e, os2) \<Rightarrow> if e = EAGAIN then rec net st os2 else Some (Err (Socket_error e), os2)
         | (Inr msg, os2) \<Rightarrow>
             (case first_descriptor msg of
                None \<Rightarrow> Some (Err No_file_descriptor_received, os2)
              | Some fd \<Rightarrow>
                (case net_async_fd net fd os2 of
                   (Inl e, os3) \<Rightarrow> Some (Err (Failed_to_create_AsyncFd e), net_close net fd os3)
                 | (Inr afd, os3) \<Rightarrow> Some (Ok afd, os3))))) = Some y"
    show "P net st os y" unfolding P_def
    proof (intro impI allI)
      fix fd os'
      assume laws: "passing_laws net view v" and c: "stream_conn v os st = Some c" and y: "y = (Ok fd, os')"
      obtain w os1 where w: "net_readable net st os = (w, os1)" by fastforce
      have "waiting_law net view v" using laws by (simp add: passing_laws_def)
      with w c have l: "prefix (sent_files v os c) (sent_files v os1 c)" "received v os1 c = received v os c"
        "stream_conn v os1 st = Some c" "\<forall>fd x. file_at view os fd = Some x \<longrightarrow> file_at view os1 fd = Some x"
        unfolding waiting_law_def by blast+
      obtain m os2 where m: "net_recvmsg net st os1 = (m, os2)" by fastforce
      obtain u where u: "w = Inr u" using 1(2) w y by (cases w) auto
      have "received_one view v st c os1 fd os'"
      proof (cases m)
        case (Inl e)
        then have again: "e = EAGAIN" "rec net st os2 = Some y" using 1(2) w u m y by (auto split: if_splits)
        have "receiving_law net view v" using laws by (simp add: passing_laws_def)
        then have "still view v os1 os2" using l(3) m Inl unfolding receiving_law_def by fastforce
        then have same: "stream_conn v os2 st = Some c" "sent_files v os2 = sent_files v os1" "received v os2 = received v os1"
          "file_at view os2 = file_at view os1" using l(3) by (simp_all add: still_def)
        have "received_one view v st c os2 fd os'" using 1(1) [OF again(2)] laws same(1) y by (simp add: P_def)
        then show ?thesis by (rule received_one_later) (simp_all add: same)
      next
        case (Inr msg)
        then obtain fd0 where fd0: "first_descriptor msg = Some fd0" using 1(2) w u m y by (cases "first_descriptor msg") auto
        then have "net_async_fd net fd0 os2 = (Inr fd, os')"
          using 1(2) w u m Inr y by (auto split: prod.splits sum.splits)
        from received_one_now [OF laws l(3) _ fd0 this] m Inr show ?thesis by simp
      qed
      then show "received_one view v st c os fd os'" by (rule received_one_later) (simp_all add: l)
    qed
  qed
  with assms show ?thesis by (simp add: P_def)
qed

text \<open>A gateway whose connection the backend never accepts gets no descriptor: the loop goes on for
  ever, and with it the constructor of the transport.\<close>

lemma recv_eventfd_starves:
  fixes net :: "'a net_sys"
  assumes "\<And>os. \<exists>os'. net_readable net st os = (Inr (), os')" "\<And>os. \<exists>os'. net_recvmsg net st os = (Inl EAGAIN, os')"
  shows "recv_eventfd net st os = None"
proof (rule ccontr)
  assume "recv_eventfd net st os \<noteq> None"
  then obtain y where y: "recv_eventfd net st os = Some y" by blast
  define P where "P = (\<lambda>n s (os :: 'a) (y :: (startup_error, int) outcome \<times> 'a). n = net \<longrightarrow> s \<noteq> st)"
  have "P net st os y"
  proof (rule recv_eventfd.raw_induct [of P, OF _ y])
    fix rec n s os y
    assume ih: "\<And>n s os y. rec n s os = Some y \<Longrightarrow> P n s os y"
      and step: "(case net_readable n s os of
        (Inl e, os1) \<Rightarrow> Some (Err (Socket_error e), os1)
      | (Inr _, os1) \<Rightarrow>
        (case net_recvmsg n s os1 of
           (Inl e, os2) \<Rightarrow> if e = EAGAIN then rec n s os2 else Some (Err (Socket_error e), os2)
         | (Inr msg, os2) \<Rightarrow>
             (case first_descriptor msg of
                None \<Rightarrow> Some (Err No_file_descriptor_received, os2)
              | Some fd \<Rightarrow>
                (case net_async_fd n fd os2 of
                   (Inl e, os3) \<Rightarrow> Some (Err (Failed_to_create_AsyncFd e), net_close n fd os3)
                 | (Inr afd, os3) \<Rightarrow> Some (Ok afd, os3))))) = Some y"
    show "P n s os y"
    proof (cases "n = net \<and> s = st")
      case True
      obtain os1 where r: "net_readable net st os = (Inr (), os1)" using assms(1) by blast
      obtain os2 where m: "net_recvmsg net st os1 = (Inl EAGAIN, os2)" using assms(2) by blast
      from step True r m have "rec net st os2 = Some y" by simp
      from ih [OF this] show ?thesis by (simp add: P_def)
    qed (auto simp: P_def)
  qed
  then show False by (simp add: P_def)
qed

subsection \<open>Two descriptors\<close>

lemma efd_receive_pair_Ok:
  assumes laws: "passing_laws net view v" and c: "stream_conn v os st = Some c"
    and ok: "efd_receive_pair net st os = Some (Ok (gq, gp), os')"
  shows "Suc (received v os c) < length (sent_files v os' c)"
    and "file_at view os' gq = Some (sent_files v os' c ! received v os c)"
    and "file_at view os' gp = Some (sent_files v os' c ! Suc (received v os c))"
proof -
  obtain os1 os2 where r: "recv_eventfd net st os = Some (Ok gq, os1)" "recv_eventfd net st os1 = Some (Ok gp, os2)"
    and os': "os' = net_close net st os2"
    using ok by (auto simp: efd_receive_pair_def split: Option.bind_splits prod.splits outcome.splits)
  have 1: "received_one view v st c os gq os1" by (rule recv_eventfd_Ok [OF laws c r(1)])
  then have c1: "stream_conn v os1 st = Some c" by (simp add: received_one_def)
  have 2: "received_one view v st c os1 gp os2" by (rule recv_eventfd_Ok [OF laws c1 r(2)])
  have files: "file_at view os2 gq = Some (sent_files v os2 c ! received v os c)"
    "file_at view os2 gp = Some (sent_files v os2 c ! Suc (received v os c))" "file_at view os2 st = None"
    using 1 2 laws prefix_nth [of "sent_files v os1 c" "sent_files v os2 c" "received v os c"]
    by (simp_all add: received_one_def passing_laws_def)
  then have "gq \<noteq> st" "gp \<noteq> st" by auto
  with laws have keep: "file_at view os' gq = file_at view os2 gq" "file_at view os' gp = file_at view os2 gp"
    "sent_files v os' = sent_files v os2"
    by (simp_all add: passing_laws_def os')
  show "Suc (received v os c) < length (sent_files v os' c)" using 1 2 by (simp add: received_one_def keep)
  show "file_at view os' gq = Some (sent_files v os' c ! received v os c)"
    "file_at view os' gp = Some (sent_files v os' c ! Suc (received v os c))"
    using files by (simp_all add: keep)
qed

lemma efd_server_connect_Ok:
  assumes laws: "passing_laws net view v"
    and x: "file_at view os ev_q = Some x" "file_at view os ev_p = Some y"
    and acc: "net_accept net l os = (Inr st, os1)" "stream_conn v os1 st = Some c"
    and ok: "efd_server_connect net l ev_q ev_p os = (Ok fd, os')"
  shows "file_at view os' fd = Some x" "sent_files v os' c = [x, y]"
proof -
  obtain n os2 n' os3 fd' os4 where sent: "net_sendmsg net st [1] [ScmRights [ev_q]] os1 = (Inr n, os2)"
    "net_sendmsg net st [1] [ScmRights [ev_p]] os2 = (Inr n', os3)"
    and cl: "net_try_clone net ev_q os3 = (Inr fd', os4)" and af: "net_async_fd net fd' os4 = (Inr fd, os')"
    using ok acc(1) by (auto simp: efd_server_connect_def send_eventfd_def and_then_Ok lift_sys_Ok)
  have laws': "sending_laws net view v" using laws by (simp add: passing_laws_def)
  then have 1: "sent_files v os1 c = []" "file_at view os1 ev_q = Some x" "file_at view os1 ev_p = Some y"
    using acc x unfolding sending_laws_def by fastforce+
  have 2: "sent_files v os2 c = [x]" "stream_conn v os2 st = Some c" "file_at view os2 = file_at view os1"
    using laws' sent(1) acc(2) 1 unfolding sending_laws_def by fastforce+
  have 3: "sent_files v os3 c = [x, y]" "file_at view os3 = file_at view os2"
    using laws' sent(2) 2 1 unfolding sending_laws_def by fastforce+
  have 4: "file_at view os4 fd' = file_at view os3 ev_q" "sent_files v os4 = sent_files v os3" "fd = fd'" "still view v os4 os'"
    using laws' cl af unfolding sending_laws_def by blast+
  show "file_at view os' fd = Some x" "sent_files v os' c = [x, y]"
    using 1 2 3 4 by (simp_all add: still_def)
qed


subsection \<open>The two eventfds of a backend\<close>

lemma efd_server_new_files:
  assumes net: "socket_laws net view v" and efds: "efd_open_laws efds view"
    and new: "efd_server_new sys efds net name os = (Ok (rq, rp, ev_q, ev_p, l), os')"
  obtains x y where "x \<noteq> y" "file_at view os' ev_q = Some x" "file_at view os' ev_p = Some y"
    "counter_at view os' x = (0, False)" "counter_at view os' y = (0, False)"
proof -
  obtain res os2 where c: "create_buffers sys name os = (res, os2)" by fastforce
  obtain e1 os3 where e1: "sys_eventfd efds 0 [EFD_CLOEXEC, EFD_NONBLOCK] os2 = (e1, os3)" by fastforce
  obtain e2 os4 where e2: "sys_eventfd efds 0 [EFD_CLOEXEC, EFD_NONBLOCK] os3 = (e2, os4)" by fastforce
  obtain b os5 where b: "net_bind net (control_path name) (snd (net_remove_file net (control_path name) os4)) = (b, os5)"
    by fastforce
  have ok: "e1 = Inr ev_q" "e2 = Inr ev_p" "os' = os5"
    using new c e1 e2 b by (cases res; cases e1; cases e2; cases b; auto simp: efd_server_new_def)+
  have opened: "\<exists>x. x \<notin> ran (file_at view k) \<and> file_at view k' = (file_at view k)(fd \<mapsto> x) \<and> unused_fd view k fd
      \<and> counter_at view k' = (counter_at view k)(x := (0, False))"
    if "sys_eventfd efds 0 [EFD_CLOEXEC, EFD_NONBLOCK] k = (Inr fd, k')" for k fd k'
    using efds that unfolding efd_open_laws_def by fastforce
  obtain x where x: "file_at view os3 ev_q = Some x" "counter_at view os3 x = (0, False)"
    using opened [OF e1 [unfolded ok]] by auto
  obtain y where y: "y \<notin> ran (file_at view os3)" "file_at view os4 = (file_at view os3)(ev_p \<mapsto> y)" "unused_fd view os3 ev_p"
    "counter_at view os4 = (counter_at view os3)(y := (0, False))"
    using opened [OF e2 [unfolded ok]] by blast
  have differ: "x \<noteq> y" "ev_q \<noteq> ev_p" using x(1) y(1,3) efds unfolding efd_open_laws_def by (auto simp: ran_def)
  then have at4: "file_at view os4 ev_q = Some x" "file_at view os4 ev_p = Some y"
    "counter_at view os4 x = (0, False)" "counter_at view os4 y = (0, False)" using x y by simp_all
  have "eventfds_kept view os4 (snd (net_remove_file net (control_path name) os4))"
    "eventfds_kept view (snd (net_remove_file net (control_path name) os4)) os5"
    using net b unfolding socket_laws_def by (metis snd_conv)+
  then have "file_at view os5 ev_q = Some x \<and> counter_at view os5 x = (0, False)"
    "file_at view os5 ev_p = Some y \<and> counter_at view os5 y = (0, False)"
    using at4 eventfds_keptD by metis+
  with differ(1) ok(3) that show ?thesis by blast
qed

subsection \<open>The link after the start\<close>

lemma efd_start_linked:
  assumes "passing_laws net view v" "efd_open_laws efds view"
    and "efd_server_new sys efds net name os0 = (Ok (rq, rp, ev_q, ev_p, l), os1)" "eventfds_kept view os1 osb"
    and "net_accept net l osb = (Inr st, osb1)" "stream_conn v osb1 st = Some c"
    and "efd_server_connect net l ev_q ev_p osb = (Ok fd, osb')"
    and "shm_transport_new sys env name osg0 = (Ok (rq', rp'), osg)"
    and "net_connect net (control_path name) osg = (Inr g, osg1)" "stream_conn v osg1 g = Some c"
    and "efd_transport_new sys net env name osg0 = Some (Ok (rq', rp', gq, gp), osg')"
    and "prefix (sent_files v osg' c) (sent_files v osb' c) \<or> prefix (sent_files v osb' c) (sent_files v osg' c)"
    and "\<forall>os \<in> {os1, osb', osg'}. eventfds_kept view os osr"
  shows "efd_fresh view osr (gq, gp) (fd, ev_p)"
proof -
  have "socket_laws net view v" using assms(1) by (simp add: passing_laws_def)
  then obtain x y where xy: "x \<noteq> y" "file_at view os1 ev_q = Some x" "file_at view os1 ev_p = Some y"
    "counter_at view os1 x = (0, False)" "counter_at view os1 y = (0, False)"
    by (rule efd_server_new_files [OF _ assms(2,3)])
  then have "file_at view osb ev_q = Some x" "file_at view osb ev_p = Some y"
    using assms(4) by (simp_all add: eventfds_kept_def)
  note server = efd_server_connect_Ok [OF assms(1) this assms(5-7)]
  have "received v osg1 c = 0"
    using \<open>socket_laws net view v\<close> assms(9,10) unfolding socket_laws_def by fastforce
  moreover have "efd_receive_pair net g osg1 = Some (Ok (gq, gp), osg')"
    using assms(8,9,11) by (auto simp: efd_transport_new_unfold and_then_Ok)
  ultimately have gateway: "Suc 0 < length (sent_files v osg' c)"
    "file_at view osg' gq = Some (sent_files v osg' c ! 0)" "file_at view osg' gp = Some (sent_files v osg' c ! Suc 0)"
    using efd_receive_pair_Ok [OF assms(1,10)] by fastforce+
  from assms(12) server(2) gateway(1) have "\<exists>zs. sent_files v osg' c = x # y # zs"
    by (cases "sent_files v osg' c" rule: remdups_adj.cases) (auto simp: prefix_def)
  then have sent: "sent_files v osg' c ! 0 = x" "sent_files v osg' c ! Suc 0 = y" by auto
  have kept: "eventfds_kept view os1 osr" "eventfds_kept view osb' osr" "eventfds_kept view osg' osr"
    using assms(13) by simp_all
  have "file_at view osr ev_p = Some y" "counter_at view osr x = (0, False)" "counter_at view osr y = (0, False)"
    using eventfds_keptD [OF kept(1)] xy by blast+
  moreover have "file_at view osr fd = Some x" using kept(2) server(1) by (simp add: eventfds_kept_def)
  moreover have "file_at view osr gq = Some x" "file_at view osr gp = Some y"
    using kept(3) gateway(2,3) sent by (simp_all add: eventfds_kept_def)
  ultimately show ?thesis using xy(1) by (simp add: efd_fresh_def efd_linked_def shown_def)
qed

subsection \<open>A system that satisfies the laws\<close>

text \<open>
  Objects as in \<open>ref_sys\<close>, and one table of descriptors for eventfds, streams and listeners. A
  connect queues the connection for the listener; a gateway that waits for a message lets the
  backend take its turn.
\<close>

datatype slot = Event nat | Stream nat | Listening

record world = shm_model +
  slots :: "(int \<times> slot) list"
  counts :: "nat \<Rightarrow> nat \<times> bool"
  backlog :: "nat list"
  history :: "nat \<Rightarrow> nat list"
  taken :: "nat \<Rightarrow> nat"
  next_conn :: nat

definition EMFILE :: errno where
  "EMFILE = OtherErrno 24"

fun event_of :: "slot \<Rightarrow> nat" where
  "event_of (Event x) = x"
| "event_of _ = 0"

definition world_fd :: "world \<Rightarrow> int" where
  "world_fd w = fold max (map fst (slots w)) 2 + 1"

definition world_file :: "world \<Rightarrow> nat" where
  "world_file w = Suc (fold max (map (event_of \<circ> snd) (slots w)) 0)"

definition occupy :: "slot \<Rightarrow> world \<Rightarrow> world" where
  "occupy x w = w\<lparr>slots := (world_fd w, x) # slots w\<rparr>"

definition world_view :: "world efd_view" where
  "world_view = \<lparr>file_at = (\<lambda>w fd. case map_of (slots w) fd of Some (Event x) \<Rightarrow> Some x | _ \<Rightarrow> None),
     counter_at = counts, unused_fd = (\<lambda>w fd. map_of (slots w) fd = None)\<rparr>"

definition world_passing :: "(world, nat) passing" where
  "world_passing = \<lparr>stream_conn = (\<lambda>w fd. case map_of (slots w) fd of Some (Stream c) \<Rightarrow> Some c | _ \<Rightarrow> None),
     sent_files = history, received = taken\<rparr>"

definition world_efd :: "world efd_sys" where
  "world_efd = \<lparr>sys_eventfd = (\<lambda>v flags w. (Inr (world_fd w),
        (occupy (Event (world_file w)) w)\<lparr>counts := (counts w)(world_file w := (unat v, EFD_SEMAPHORE \<in> set flags))\<rparr>)),
     sys_read = (\<lambda>_ _ w. (Inl EAGAIN, w)), sys_write = (\<lambda>_ _ w. (Inl EAGAIN, w)),
     sys_close = (\<lambda>fd w. w\<lparr>slots := filter (\<lambda>d. fst d \<noteq> fd) (slots w)\<rparr>)\<rparr>"

definition world_net0 :: "world net_sys" where
  "world_net0 = \<lparr>
     net_connect = (\<lambda>_ w. if taken w (next_conn w) = 0
        then (Inr (world_fd w), (occupy (Stream (next_conn w)) w)\<lparr>next_conn := Suc (next_conn w), backlog := backlog w @ [next_conn w]\<rparr>)
        else (Inl EMFILE, w)),
     net_bind = (\<lambda>_ w. (Inr (world_fd w), occupy Listening w)),
     net_accept = (\<lambda>l w. case backlog w of
        [] \<Rightarrow> (Inl EAGAIN, w)
      | c # cs \<Rightarrow> if history w c = [] then (Inr (world_fd w), (occupy (Stream c) w)\<lparr>backlog := cs\<rparr>) else (Inl EMFILE, w)),
     net_exists = (\<lambda>_ w. False),
     net_remove_file = (\<lambda>_ w. (Inl ENOENT, w)),
     net_sendmsg = (\<lambda>st b cs w. case (map_of (slots w) st, cs) of
        (Some (Stream c), [ScmRights [fd]]) \<Rightarrow>
          (case map_of (slots w) fd of
             Some (Event x) \<Rightarrow> (Inr (length b), w\<lparr>history := (history w)(c := history w c @ [x])\<rparr>)
           | _ \<Rightarrow> (Inl EMFILE, w))
      | _ \<Rightarrow> (Inl EMFILE, w)),
     net_readable = (\<lambda>_ w. (Inr (), w)),
     net_recvmsg = (\<lambda>st w. case map_of (slots w) st of
        Some (Stream c) \<Rightarrow>
          (if taken w c < length (history w c)
           then (Inr [ScmRights [world_fd w]],
                 (occupy (Event (history w c ! taken w c)) w)\<lparr>taken := (taken w)(c := Suc (taken w c))\<rparr>)
           else (Inl EAGAIN, w))
      | _ \<Rightarrow> (Inl EMFILE, w)),
     net_async_fd = (\<lambda>fd w. (Inr fd, w)),
     net_try_clone = (\<lambda>fd w. case map_of (slots w) fd of
        None \<Rightarrow> (Inl EMFILE, w)
      | Some x \<Rightarrow> (Inr (world_fd w), occupy x w)),
     net_close = (\<lambda>fd w. w\<lparr>slots := filter (\<lambda>d. fst d \<noteq> fd) (slots w)\<rparr>)\<rparr>"

definition backend_turn :: "int \<Rightarrow> int \<Rightarrow> int \<Rightarrow> world \<Rightarrow> world" where
  "backend_turn l ev_q ev_p w = snd (efd_server_connect world_net0 l ev_q ev_p w)"

definition world_net :: "int \<Rightarrow> int \<Rightarrow> int \<Rightarrow> world net_sys" where
  "world_net l ev_q ev_p = world_net0\<lparr>net_readable := (\<lambda>_ w. (Inr (), backend_turn l ev_q ev_p w))\<rparr>"

lemma world_fresh [simp]: "map_of (slots w) (world_fd w) = None"
proof -
  have "fd \<noteq> world_fd w" if "(fd, x) \<in> set (slots w)" for fd x
    using fold_max_ge [of fd "map fst (slots w)" 2] that by (force simp: world_fd_def)
  then show ?thesis by (force simp: map_of_eq_None_iff)
qed

lemma world_file_fresh: "map_of (slots w) fd \<noteq> Some (Event (world_file w))"
proof
  assume "map_of (slots w) fd = Some (Event (world_file w))"
  then have "(fd, Event (world_file w)) \<in> set (slots w)" by (rule map_of_SomeD)
  then have "world_file w \<in> set (map (event_of \<circ> snd) (slots w))" by force
  from fold_max_ge [OF this, of 0] show False by (simp add: world_file_def)
qed

lemma world_efd_laws: "efd_open_laws world_efd world_view"
  using world_file_fresh
  by (auto simp: efd_open_laws_def world_efd_def world_view_def occupy_def fun_eq_iff ran_def map_of_drop
      split: option.splits slot.splits)

text \<open>The backend's turn only adds descriptors and messages.\<close>

definition world_grows :: "world \<Rightarrow> world \<Rightarrow> bool" where
  "world_grows w w' \<longleftrightarrow> (\<forall>fd x. map_of (slots w) fd = Some x \<longrightarrow> map_of (slots w') fd = Some x)
     \<and> (\<forall>c. prefix (history w c) (history w' c)) \<and> taken w' = taken w"

lemma world_grows_trans: "world_grows u v \<Longrightarrow> world_grows v w \<Longrightarrow> world_grows u w"
  by (auto simp: world_grows_def intro: prefix_order.trans)

lemma world_net0_grows:
  "world_grows w (snd (net_accept world_net0 l w))" "world_grows w (snd (net_sendmsg world_net0 st b cs w))"
  "world_grows w (snd (net_try_clone world_net0 fd w))" "world_grows w (snd (net_async_fd world_net0 fd w))"
  by (auto simp: world_net0_def world_grows_def occupy_def split: list.splits option.splits slot.splits cmsg.splits)

lemma grows_and_then:
  "world_grows w (snd r) \<Longrightarrow> (\<And>x u. fst r = Ok x \<Longrightarrow> snd r = u \<Longrightarrow> world_grows u (snd (f x u))) \<Longrightarrow>
     world_grows w (snd (and_then r f))"
  by (cases "(r, f)" rule: and_then.cases) (auto intro: world_grows_trans)

lemma grows_lift: "world_grows w (snd r) \<Longrightarrow> world_grows w (snd (lift_sys g r))"
  by (cases "(g, r)" rule: lift_sys.cases) auto

lemma backend_turn_grows: "world_grows w (backend_turn l ev_q ev_p w)"
proof -
  have refl: "world_grows w w" for w by (simp add: world_grows_def)
  show ?thesis
    unfolding backend_turn_def efd_server_connect_def send_eventfd_def
    by (intro grows_and_then grows_lift world_net0_grows) (auto simp: refl)
qed

lemma world_passing_laws: "passing_laws (world_net l ev_q ev_p) world_view world_passing"
proof -
  note defs = world_net_def world_net0_def world_view_def world_passing_def occupy_def
  have "socket_laws (world_net l ev_q ev_p) world_view world_passing"
    by (auto simp: socket_laws_def eventfds_kept_def defs split: option.splits slot.splits if_splits)
  moreover have "sending_laws (world_net l ev_q ev_p) world_view world_passing"
    unfolding sending_laws_def still_def
    by (intro conjI)
      (auto simp: defs fun_eq_iff split: if_splits option.splits slot.splits list.splits cmsg.splits)
  moreover have "waiting_law (world_net l ev_q ev_p) world_view world_passing"
    using backend_turn_grows
    by (fastforce simp: waiting_law_def world_net_def world_view_def world_passing_def world_grows_def
        split: option.splits slot.splits)
  moreover have "receiving_law (world_net l ev_q ev_p) world_view world_passing"
    by (auto simp: receiving_law_def still_def defs fun_eq_iff split: if_splits option.splits slot.splits)
  ultimately show ?thesis
    by (auto simp: passing_laws_def defs map_of_drop split: option.splits slot.splits)
qed

subsection \<open>The property\<close>

text \<open>C20. The start of the eventfd-notified transport links the two processes: the first descriptor the
  gateway receives names the file the server's loop waits on, the second the file its workers
  signal for responses, these are two files, and both counters stand at zero when the first request
  comes; this is the state in which the runs of theory \<open>Shm_Eventfd\<close> start. However often the
  gateway had to wait and whatever the server sent meanwhile.\<close>

theorem descriptors_match:
  assumes "passing_laws net view v" "efd_open_laws efds view"
    and "efd_server_new sys efds net name os0 = (Ok (rq, rp, ev_q, ev_p, l), os1)" "eventfds_kept view os1 osb"
    and "net_accept net l osb = (Inr st, osb1)" "stream_conn v osb1 st = Some c"
    and "efd_server_connect net l ev_q ev_p osb = (Ok fd, osb')"
    and "shm_transport_new sys env name osg0 = (Ok (rq', rp'), osg)"
    and "net_connect net (control_path name) osg = (Inr g, osg1)" "stream_conn v osg1 g = Some c"
    and "efd_transport_new sys net env name osg0 = Some (Ok (rq', rp', gq, gp), osg')"
    and "prefix (sent_files v osg' c) (sent_files v osb' c) \<or> prefix (sent_files v osb' c) (sent_files v osg' c)"
    and "\<forall>os \<in> {os1, osb', osg'}. eventfds_kept view os osr"
  shows "efd_fresh view osr (gq, gp) (fd, ev_p)"
  using assms by (rule efd_start_linked)

definition world0 :: world where
  "world0 = \<lparr>objs = Map.empty, fds = [], slots = [], counts = (\<lambda>_. (0, False)), backlog = [], history = (\<lambda>_. []),
     taken = (\<lambda>_. 0), next_conn = 0\<rparr>"

lemma world_same:
  assumes "shm_model.more w = shm_model.more w'"
  shows "slots w = slots w'" "counts w = counts w'" "backlog w = backlog w'" "history w = history w'"
    "taken w = taken w'" "next_conn w = next_conn w'"
  using assms by (cases w; cases w'; simp)+

lemma recv_eventfd_now:
  assumes "net_readable net st os = (Inr (), os1)" "net_recvmsg net st os1 = (Inr msg, os2)"
    and "first_descriptor msg = Some fd" "net_async_fd net fd os2 = (Inr fd', os3)"
  shows "recv_eventfd net st os = Some (Ok fd', os3)"
  using assms by (simp add: recv_eventfd.simps [of net st os])

lemma descriptors_match_witness:
  "\<exists>net rq rp os1 osr. efd_server_new ref_sys world_efd net ''b'' world0 = (Ok (rq, rp, 3, 4, 5), os1)
    \<and> efd_transport_new ref_sys net (\<lambda>_ _ os. os) ''b'' os1 = Some (Ok (rq, rp, 9, 10), osr)
    \<and> efd_fresh world_view osr (9, 10) (8, 4)"
proof -
  let ?net = "world_net 5 3 4" and ?ring = "fresh_ring (buffer_size ShmConfig_default) (replicate (unat (buffer_size ShmConfig_default)) 0)"
  note net = world_net_def world_net0_def
  obtain w1 where made: "create_buffers ref_sys ''b'' world0 = (Ok (?ring, ?ring), w1)"
    by (rule ref_create_empty [of world0 "''b''"]) (simp_all add: world0_def)
  have more1: "shm_model.more w1 = shm_model.more world0"
    using ref_create_more [of "''b''" world0] made by simp
  define os1 where "os1 = w1\<lparr>slots := [(5, Listening), (4, Event 2), (3, Event 1)], counts := (\<lambda>_. (0, False))\<rparr>"
  note w1 = world_same [OF more1, unfolded world0_def, simplified]
  have new: "efd_server_new ref_sys world_efd ?net ''b'' world0 = (Ok (?ring, ?ring, 3, 4, 5), os1)"
    using w1 by (simp add: efd_server_new_def made world_efd_def net occupy_def world_fd_def world_file_def os1_def fun_eq_iff)
  have "objs os1 = objs w1" by (simp add: os1_def)
  with ref_transport_Ok [OF made this] obtain osg where
    trans: "shm_transport_new ref_sys (\<lambda>_ _ os. os) ''b'' os1 = (Ok (?ring, ?ring), osg)"
    and moreg: "shm_model.more osg = shm_model.more os1" by blast
  note g = world_same [OF moreg, unfolded os1_def, simplified, unfolded w1]
  define osg1 where "osg1 = osg\<lparr>slots := (6, Stream 0) # slots osg, next_conn := 1, backlog := [0]\<rparr>"
  have conn: "net_connect ?net (control_path ''b'') osg = (Inr 6, osg1)"
    using g by (simp add: net occupy_def world_fd_def osg1_def)
  define osb1 where "osb1 = osg1\<lparr>slots := (7, Stream 0) # slots osg1, backlog := []\<rparr>"
  have acc: "net_accept ?net 5 osg1 = (Inr 7, osb1)"
    using g by (simp add: net occupy_def world_fd_def osg1_def osb1_def)
  define osb' where "osb' = osb1\<lparr>slots := (8, Event 1) # slots osb1, history := (\<lambda>_. [])(0 := [1, 2])\<rparr>"
  have server0: "efd_server_connect world_net0 5 3 4 osg1 = (Ok 8, osb')"
    using g by (simp add: efd_server_connect_def send_eventfd_def net occupy_def world_fd_def osg1_def osb1_def osb'_def)
  then have server: "efd_server_connect ?net 5 3 4 osg1 = (Ok 8, osb')"
    by (simp add: efd_server_connect_def send_eventfd_def world_net_def)
  have turn1: "backend_turn 5 3 4 osg1 = osb'" by (simp add: backend_turn_def server0)
  define osg2 where "osg2 = osb'\<lparr>slots := (9, Event 1) # slots osb', taken := (\<lambda>_. 0)(0 := 1)\<rparr>"
  have recv1: "recv_eventfd ?net 6 osg1 = Some (Ok 9, osg2)"
  proof (rule recv_eventfd_now)
    show "net_readable ?net 6 osg1 = (Inr (), osb')" by (simp add: world_net_def turn1)
    show "net_recvmsg ?net 6 osb' = (Inr [ScmRights [9]], osg2)"
      using g by (simp add: net occupy_def world_fd_def osb'_def osb1_def osg1_def osg2_def)
  qed (simp_all add: net)
  have turn2: "backend_turn 5 3 4 osg2 = osg2"
    using g by (simp add: backend_turn_def efd_server_connect_def world_net0_def osg2_def osb'_def osb1_def osg1_def)
  define osr where "osr = osg2\<lparr>slots := filter (\<lambda>d. fst d \<noteq> 6) ((10, Event 2) # slots osg2), taken := (\<lambda>_. 0)(0 := 2)\<rparr>"
  have recv2: "recv_eventfd ?net 6 osg2 = Some (Ok 10, osg2\<lparr>slots := (10, Event 2) # slots osg2, taken := (\<lambda>_. 0)(0 := 2)\<rparr>)"
  proof (rule recv_eventfd_now)
    show "net_readable ?net 6 osg2 = (Inr (), osg2)" by (simp add: world_net_def turn2)
    show "net_recvmsg ?net 6 osg2 = (Inr [ScmRights [10]], osg2\<lparr>slots := (10, Event 2) # slots osg2, taken := (\<lambda>_. 0)(0 := 2)\<rparr>)"
      using g by (simp add: net occupy_def world_fd_def osb'_def osb1_def osg1_def osg2_def numeral_2_eq_2)
  qed (simp_all add: net)
  have "net_close ?net 6 (osg2\<lparr>slots := (10, Event 2) # slots osg2, taken := (\<lambda>_. 0)(0 := 2)\<rparr>) = osr"
    by (simp add: net osr_def)
  then have "efd_receive_pair ?net 6 osg1 = Some (Ok (9, 10), osr)"
    by (simp add: efd_receive_pair_def recv1 recv2)
  then have gateway: "efd_transport_new ref_sys ?net (\<lambda>_ _ os. os) ''b'' os1 = Some (Ok (?ring, ?ring, 9, 10), osr)"
    by (simp add: efd_transport_new_unfold trans conn)
  note states = os1_def osg1_def osb1_def osb'_def osg2_def osr_def
  have kept: "eventfds_kept world_view os1 osg1" "eventfds_kept world_view os1 osr" "eventfds_kept world_view osb' osr"
    using g by (auto simp: eventfds_kept_def world_view_def states split: if_splits)
  have "efd_fresh world_view osr (9, 10) (8, 4)"
    by (rule descriptors_match [OF world_passing_laws world_efd_laws new kept(1) acc _ server trans conn _ gateway])
      (use g kept in \<open>simp_all add: world_passing_def states eventfds_kept_def\<close>)
  with new gateway show ?thesis by blast
qed

end
