(* ===== verification/Deployment.thy ===== *)
theory Deployment
  imports Mains Http_Properties Descriptors
begin

section \<open>From the command lines to the answers\<close>

text \<open>
  The start of the two programs (theory \<open>Mains\<close>) joined with the runs of the HTTP server (theory
  \<open>Http_Server\<close>): \<open>link_boot\<close> is the transport that the gateway's \<^verbatim>\<open>main\<close> wraps into its
  \<^verbatim>\<open>TransportEnum\<close> and hands to \<^verbatim>\<open>Gateway::new\<close>, as it stands before the first request, beside a
  backend whose descriptors of the two eventfds are \<open>bs\<close>.
\<close>

fun link_boot :: "'n \<Rightarrow> 'k \<Rightarrow> int \<times> int \<Rightarrow> gateway_link \<Rightarrow> ('n, 'k) TransportEnum" where
  "link_boot kn kk bs (Link_Tcp t) = Tcp t"
| "link_boot kn kk bs (Link_Uds t) = Uds t"
| "link_boot kn kk bs (Link_Shm rq rp) = Shm (poll_boot rq rp)"
| "link_boot kn kk bs (Link_ShmUds rq rp fd) = ShmUds (uds_boot rq rp kn)"
| "link_boot kn kk bs (Link_ShmEventfd rq rp ev_q ev_p) = ShmEventfd (efd_boot rq rp (ev_q, ev_p) bs kk)"

text \<open>The socket and the eventfds behind the link: connected and silent, the descriptors of both sides
  on the same two counters, at zero. For the eventfds this is what the start of the two programs
  leaves (\<open>eventfds_ready\<close> below).\<close>

definition link_ready :: "('n, 'k, 'j) http_env \<Rightarrow> 'n \<Rightarrow> 'k \<Rightarrow> int \<times> int \<Rightarrow> gateway_link \<Rightarrow> bool" where
  "link_ready env kn kk bs lnk \<longleftrightarrow> codec_laws (env_codec env) \<and>
     (case lnk of
        Link_ShmUds rq rp fd \<Rightarrow>
          \<exists>unread. sock_laws (env_sock env) unread \<and> unread kn Gateway_End = [] \<and> unread kn Backend_End = []
      | Link_ShmEventfd rq rp ev_q ev_p \<Rightarrow>
          \<exists>view. efd_laws (env_efd env) view \<and> efd_fresh view kk (ev_q, ev_p) bs
      | _ \<Rightarrow> True)"

fun link_rings :: "gateway_link \<Rightarrow> (ring \<times> ring) option" where
  "link_rings (Link_Shm rq rp) = Some (rq, rp)"
| "link_rings (Link_ShmUds rq rp fd) = Some (rq, rp)"
| "link_rings (Link_ShmEventfd rq rp ev_q ev_p) = Some (rq, rp)"
| "link_rings _ = None"

fun listener_rings :: "'addr backend_listener \<Rightarrow> (ring \<times> ring) option" where
  "listener_rings (Serve_Shm rq rp) = Some (rq, rp)"
| "listener_rings (Serve_ShmUds rq rp fd) = Some (rq, rp)"
| "listener_rings (Serve_ShmEventfd rq rp ev_q ev_p fd) = Some (rq, rp)"
| "listener_rings _ = None"

subsection \<open>The rings of a backend and of a gateway that have started\<close>

lemma backend_main_rings:
  assumes keeps: "net_keeps obj net efds" and ok: "backend_main sys efds net parse_addr args os = (Ok l, os1)"
    and ty: "backend_transport args \<in> {Type_Shm, Type_ShmUds, Type_ShmEventfd}"
  obtains rq rp os' where "create_buffers sys (backend_shm_name args) os = (Ok (rq, rp), os')" "obj os1 = obj os'"
    "listener_rings l = Some (rq, rp)"
proof -
  let ?n = "backend_shm_name args"
  from ty consider "backend_transport args = Type_Shm" | "backend_transport args = Type_ShmUds"
    | "backend_transport args = Type_ShmEventfd" by blast
  then show ?thesis
  proof cases
    case 1
    with ok obtain rq rp where "shm_server_new sys ?n os = (Ok (rq, rp), os1)" "l = Serve_Shm rq rp"
      by (auto simp: backend_main_def and_then_Ok)
    then show ?thesis by (intro that [of rq rp os1]) (simp_all add: shm_server_new_def)
  next
    case 2
    with ok obtain rq rp fd where s: "uds_server_new sys net ?n os = (Ok (rq, rp, fd), os1)" "l = Serve_ShmUds rq rp fd"
      by (auto simp: backend_main_def and_then_Ok)
    then obtain os' where "create_buffers sys ?n os = (Ok (rq, rp), os')" "obj os1 = obj os'"
      using uds_server_Ok [OF keeps s(1)] by blast
    with s(2) show ?thesis by (intro that [of rq rp os']) simp_all
  next
    case 3
    with ok obtain rq rp ev_q ev_p fd where s: "efd_server_new sys efds net ?n os = (Ok (rq, rp, ev_q, ev_p, fd), os1)"
      "l = Serve_ShmEventfd rq rp ev_q ev_p fd"
      by (auto simp: backend_main_def and_then_Ok)
    obtain res os2 where c: "create_buffers sys ?n os = (res, os2)" by fastforce
    obtain e1 os3 where e1: "sys_eventfd efds 0 [EFD_CLOEXEC, EFD_NONBLOCK] os2 = (e1, os3)" by fastforce
    obtain e2 os4 where e2: "sys_eventfd efds 0 [EFD_CLOEXEC, EFD_NONBLOCK] os3 = (e2, os4)" by fastforce
    obtain b os5 where b: "net_bind net (control_path ?n) (snd (net_remove_file net (control_path ?n) os4)) = (b, os5)"
      by fastforce
    from c e1 e2 b s(1) have "res = Ok (rq, rp)"
      by (cases res; cases e1; cases e2; cases b) (auto simp: efd_server_new_def)
    with c obtain os' where "create_buffers sys ?n os = (Ok (rq, rp), os')" by blast
    with s efd_server_objects [OF keeps, of sys ?n os] show ?thesis by (intro that [of rq rp os']) simp_all
  qed
qed

lemma gateway_main_rings:
  assumes ok: "gateway_main sys net tonic env parse_addr tcp_bind args os = Some (Ok (lnk, fd), os1)"
    and ty: "gateway_transport args \<in> {Type_Shm, Type_ShmUds, Type_ShmEventfd}"
  obtains rq rp os' where "shm_transport_new sys env (gateway_shm_name args) os = (Ok (rq, rp), os')"
    "link_rings lnk = Some (rq, rp)"
    "gateway_transport args = Type_ShmUds \<longrightarrow> (\<exists>fd. lnk = Link_ShmUds rq rp fd)"
    "gateway_transport args = Type_ShmEventfd \<longrightarrow> (\<exists>ev_q ev_p. lnk = Link_ShmEventfd rq rp ev_q ev_p)"
proof -
  let ?n = "gateway_shm_name args"
  obtain os2 where new: "gateway_link_new sys net tonic env args os = Some (Ok lnk, os2)"
    using ok by (auto simp: gateway_main_def and_then_Ok split: option.splits)
  from ty consider "gateway_transport args = Type_Shm" | "gateway_transport args = Type_ShmUds"
    | "gateway_transport args = Type_ShmEventfd" by blast
  then show ?thesis
  proof cases
    case 1
    with new obtain rq rp where "shm_transport_new sys env ?n os = (Ok (rq, rp), os2)" "lnk = Link_Shm rq rp"
      by (auto simp: gateway_link_new_def and_then_Ok)
    with 1 show ?thesis by (intro that [of rq rp os2]) simp_all
  next
    case 2
    with new obtain rq rp c os3 where "shm_transport_new sys env ?n os = (Ok (rq, rp), os3)" "lnk = Link_ShmUds rq rp c"
      by (auto simp: gateway_link_new_def uds_transport_new_unfold and_then_Ok)
    with 2 show ?thesis by (intro that [of rq rp os3]) simp_all
  next
    case 3
    with new obtain rq rp ev_q ev_p where e: "efd_transport_new sys net env ?n os = Some (Ok (rq, rp, ev_q, ev_p), os2)"
      "lnk = Link_ShmEventfd rq rp ev_q ev_p"
      by (auto simp: gateway_link_new_def and_then_Ok)
    from e(1) obtain rq' rp' c os3 where s: "shm_transport_new sys env ?n os = (Ok (rq', rp'), os3)" "rq' = rq" "rp' = rp"
      by (auto simp: efd_transport_new_unfold and_then_Ok split: prod.splits outcome.splits)
    with 3 e(2) show ?thesis by (intro that [of rq rp os3]) simp_all
  qed
qed

subsection \<open>Over the eventfds\<close>

text \<open>A backend and a gateway that have started over the eventfds leave their link ready: nothing about
  the counters has to be assumed of the run that follows.\<close>

lemma eventfds_ready:
  assumes laws: "codec_laws (env_codec env)" "efd_laws (env_efd env) view" "passing_laws net view v"
    and backend: "backend_main sys (env_efd env) net parse_addr bargs os = (Ok (Serve_ShmEventfd rq rp ev_q ev_p l), os1)"
      "backend_transport bargs = Type_ShmEventfd" "eventfds_kept view os1 osb"
    and served: "net_accept net l osb = (Inr st, osb1)" "stream_conn v osb1 st = Some c"
      "efd_server_connect net l ev_q ev_p osb = (Ok fd, osb')"
    and gateway: "gateway_link_new sys net tonic penv gargs os2 = Some (Ok (Link_ShmEventfd rq' rp' gq gp), osg')"
      "gateway_transport gargs = Type_ShmEventfd" "backend_shm_name bargs = gateway_shm_name gargs"
    and conn: "shm_transport_new sys penv (gateway_shm_name gargs) os2 = (Ok (rq', rp'), osg)"
      "net_connect net (control_path (gateway_shm_name gargs)) osg = (Inr g, osg1)" "stream_conn v osg1 g = Some c"
    and sent: "prefix (sent_files v osg' c) (sent_files v osb' c) \<or> prefix (sent_files v osb' c) (sent_files v osg' c)"
    and kept: "\<forall>os \<in> {os1, osb', osg'}. eventfds_kept view os osr"
  shows "link_ready env kn osr (fd, ev_p) (Link_ShmEventfd rq' rp' gq gp)"
proof -
  let ?n = "gateway_shm_name gargs"
  have opened: "efd_open_laws (env_efd env) view" using laws(2) by (simp add: efd_laws_def)
  have server: "efd_server_new sys (env_efd env) net ?n os = (Ok (rq, rp, ev_q, ev_p, l), os1)"
    using backend(1,2) gateway(3) by (auto simp: backend_main_def and_then_Ok)
  have transport: "efd_transport_new sys net penv ?n os2 = Some (Ok (rq', rp', gq, gp), osg')"
    using gateway(1,2) by (auto simp: gateway_link_new_def and_then_Ok)
  have "efd_fresh view osr (gq, gp) (fd, ev_p)"
    by (rule efd_start_linked [OF laws(3) opened server backend(3) served conn transport sent kept])
  with laws(1,2) show ?thesis by (auto simp: link_ready_def)
qed

subsection \<open>Properties\<close>

text \<open>C3. From the command lines to the answers: when a backend and then a gateway have started over one
  of the notified transports and with the same name, both hold the very same two rings, empty,
  and every handler of the gateway that answers, answers 400, 503, or 200 with the message of its
  own client, in every run of the HTTP server.\<close>

theorem deployed_answers_own:
  assumes "posix_shm sys obj bound" "net_keeps obj net efds" "\<forall>n. keeps_objects obj (penv n)"
    and "backend_main sys efds net parse_addr bargs os = (Ok l, os1)" "obj os2 = obj os1"
    and "gateway_main sys net tonic penv parse_addr' tcp_bind gargs os2 = Some (Ok (lnk, lfd), os3)"
    and "backend_transport bargs = gateway_transport gargs" "gateway_transport gargs \<in> {Type_ShmUds, Type_ShmEventfd}"
    and "backend_shm_name bargs = gateway_shm_name gargs" "link_ready env kn kk bs lnk"
    and "http_reach env (http_boot (link_boot kn kk bs lnk)) s" "transport_fresh (link s)"
    and "h < length (handlers s)" "h_phase (handlers s ! h) = Answered r"
  shows "(\<exists>rq rp. link_rings lnk = Some (rq, rp) \<and> listener_rings l = Some (rq, rp) \<and> ring_rep rq [] \<and> ring_rep rp [])
    \<and> (r = bad_request \<or> status r = 503 \<or> own_message env (handlers s ! h) r)"
proof -
  have "backend_transport bargs \<in> {Type_Shm, Type_ShmUds, Type_ShmEventfd}" using assms(7,8) by auto
  from backend_main_rings [OF assms(2,4) this] obtain rq rp os' where
    b: "create_buffers sys (backend_shm_name bargs) os = (Ok (rq, rp), os')" "obj os1 = obj os'"
      "listener_rings l = Some (rq, rp)" .
  have "gateway_transport gargs \<in> {Type_Shm, Type_ShmUds, Type_ShmEventfd}" using assms(8) by auto
  from gateway_main_rings [OF assms(6) this] obtain rq' rp' os4 where
    g: "shm_transport_new sys penv (gateway_shm_name gargs) os2 = (Ok (rq', rp'), os4)" "link_rings lnk = Some (rq', rp')"
      "gateway_transport gargs = Type_ShmUds \<longrightarrow> (\<exists>fd. lnk = Link_ShmUds rq' rp' fd)"
      "gateway_transport gargs = Type_ShmEventfd \<longrightarrow> (\<exists>ev_q ev_p. lnk = Link_ShmEventfd rq' rp' ev_q ev_p)" .
  have "\<And>n. keeps_objects obj (penv n)" "obj os2 = obj os'" using assms(3,5) b(2) by simp_all
  note still = this
  from waits_created [of sys obj bound penv, OF assms(1) still(1) b(1) still(2)] g(1) assms(9) have same: "rq' = rq" "rp' = rp" by auto
  note made = create_buffers_Ok(1,2) [OF assms(1) b(1)]
  have reps: "ring_rep rq []" "ring_rep rp []" unfolding made by (rule default_ring_rep)+
  have "notified_boot env (link_boot kn kk bs lnk)"
    using assms(8,10) g(3,4) reps unfolding notified_boot_def link_ready_def same by fastforce
  from answered_own [OF this assms(11-14)] b(3) g(2) same reps show ?thesis by blast
qed

subsection \<open>A deployment\<close>

text \<open>On the reference system both programs start over the socket, and a client is answered.\<close>

lemma ring_default_fresh:
  "fresh_ring (buffer_size ShmConfig_default) (replicate (unat (buffer_size ShmConfig_default)) 0) = ring_default"
  by (simp add: ring_default_def ShmConfig_default_def)

definition ref_tonic :: "shm_model tonic_sys" where
  "ref_tonic = \<lparr>tonic_endpoint = (\<lambda>_. None), tonic_connect = (\<lambda>_ os. (Inr (), os)),
     tonic_connect_path = (\<lambda>_ _ os. (Inr (), os))\<rparr>"

definition deployed_gateway :: gateway_args where
  "deployed_gateway = gateway_args_default\<lparr>gateway_transport := Type_ShmUds, gateway_shm_name := ''backend''\<rparr>"

definition deployed_backend :: backend_args where
  "deployed_backend = backend_args_default\<lparr>backend_transport := Type_ShmUds\<rparr>"

lemma deployed_args [simp]:
  "gateway_transport deployed_gateway = Type_ShmUds" "gateway_shm_name deployed_gateway = ''backend''"
  "backend_transport deployed_backend = Type_ShmUds" "backend_shm_name deployed_backend = ''backend''"
  by (simp_all add: deployed_gateway_def deployed_backend_def backend_args_default_def)

lemma deployed_starts:
  obtains os1 os3 where
    "backend_main ref_sys ref_no_efd ref_net_ok (\<lambda>_. None :: unit option) deployed_backend ref_os
      = (Ok (Serve_ShmUds ring_default ring_default 8), os1)"
    "gateway_main ref_sys ref_net_ok ref_tonic (\<lambda>_ _ os. os) (\<lambda>_. Some ()) (\<lambda>_ os. (Inr 7, os)) deployed_gateway os1
      = Some (Ok (Link_ShmUds ring_default ring_default 9, 7), os3)"
proof -
  obtain os1 where c: "create_buffers ref_sys ''backend'' ref_os = (Ok (ring_default, ring_default), os1)"
    using ref_create_buffers unfolding ring_default_fresh by blast
  obtain os2 where t: "shm_transport_new ref_sys (\<lambda>_ _ os. os) ''backend'' os1 = (Ok (ring_default, ring_default), os2)"
    using ref_transport_Ok [OF c [folded ring_default_fresh] refl] unfolding ring_default_fresh by blast
  show ?thesis
  proof (rule that [of os1 os2])
    show "backend_main ref_sys ref_no_efd ref_net_ok (\<lambda>_. None :: unit option) deployed_backend ref_os
        = (Ok (Serve_ShmUds ring_default ring_default 8), os1)"
      by (simp add: backend_main_def uds_server_new_def c ref_net_ok_def ref_net_def)
    show "gateway_main ref_sys ref_net_ok ref_tonic (\<lambda>_ _ os. os) (\<lambda>_. Some ()) (\<lambda>_ os. (Inr 7, os)) deployed_gateway os1
        = Some (Ok (Link_ShmUds ring_default ring_default 9, 7), os2)"
      by (simp add: gateway_main_def gateway_link_new_def uds_transport_new_unfold t ref_net_ok_def ref_net_def)
  qed
qed

lemma deployed_answers_own_witness:
  "\<exists>s r. http_reach ref_env (http_boot (link_boot sock_quiet efd_kernel0 (0, 0) (Link_ShmUds ring_default ring_default 9))) s
    \<and> h_phase (handlers s ! 0) = Answered r \<and> own_message ref_env (handlers s ! 0) r"
proof -
  obtain os1 os3 where st:
    "backend_main ref_sys ref_no_efd ref_net_ok (\<lambda>_. None :: unit option) deployed_backend ref_os
      = (Ok (Serve_ShmUds ring_default ring_default 8), os1)"
    "gateway_main ref_sys ref_net_ok ref_tonic (\<lambda>_ _ os. os) (\<lambda>_. Some ()) (\<lambda>_ os. (Inr 7, os)) deployed_gateway os1
      = Some (Ok (Link_ShmUds ring_default ring_default 9, 7), os3)"
    by (rule deployed_starts)
  obtain s t us ns where s: "http_reach ref_env (http_boot (ShmUds uds_demo)) s" "link s = ShmUds t"
    "tickets t = [([1], req_hi)]" "handlers s = [hi_answered us ns]"
    using http_demo_uds by blast
  obtain r where r: "h_phase (handlers s ! 0) = Answered r" "status r = 200"
    using s(4) by (simp add: hi_answered_def)
  let ?boot = "link_boot sock_quiet efd_kernel0 (0, 0) (Link_ShmUds ring_default ring_default 9)"
  have boot: "?boot = ShmUds uds_demo" by (simp add: uds_demo_def)
  have still: "\<forall>n :: string. keeps_objects objs (\<lambda>(_ :: nat) os. os)" by (simp add: keeps_objects_def)
  have "sock_quiet Gateway_End = []" "sock_quiet Backend_End = []" by (simp_all add: sock_quiet_def)
  then have ready: "link_ready ref_env sock_quiet efd_kernel0 (0, 0) (Link_ShmUds ring_default ring_default 9)"
    using ref_codec_laws ref_sock_laws by (auto simp: link_ready_def)
  have reach: "http_reach ref_env (http_boot ?boot) s" unfolding boot by (rule s(1))
  have fresh: "transport_fresh (link s)" using s(2,3) by (simp add: fresh_ids_def)
  from deployed_answers_own [OF ref_sys_posix ref_net_keeps(2) still st(1) refl st(2) _ _ _ ready reach fresh, of 0 r]
  have "r = bad_request \<or> status r = 503 \<or> own_message ref_env (handlers s ! 0) r"
    using s(4) r(1) by simp
  with r reach show ?thesis by (auto simp: bad_request_def)
qed

end
