(* ===== verification/Http_Grpc.thy ===== *)
theory Http_Grpc
  imports Http_Properties Echo_Service
begin

section \<open>The HTTP server over the gRPC transports\<close>

text \<open>
  The gateway of theory \<open>Http_Server\<close> with a \<^verbatim>\<open>TcpTransport\<close> or a \<^verbatim>\<open>UdsTransport\<close>, together with the
  backend's \<^verbatim>\<open>EchoServiceImpl\<close>. Between them is \<^verbatim>\<open>tonic\<close>: the client of a call gets a status (an
  error of the connection or the timeout) or what the method returned for the request of that call.
  The backend may run the method for any call that has been made, at any time, in any order.
\<close>

record ('n, 'k) grpc_system =
  front :: "('n, 'k) http_server"
  in_flight :: "(nat \<times> EchoResponse) list"
  service_events :: "backend_event list"

definition grpc_boot :: "('n, 'k) TransportEnum \<Rightarrow> ('n, 'k) grpc_system" where
  "grpc_boot t = \<lparr>front = http_boot t, in_flight = [], service_events = []\<rparr>"

text \<open>A step of the gateway, or one execution of the method; it takes no less than the delay.\<close>

datatype grpc_action =
    Front http_action
  | Execute nat duration duration duration

definition delivers :: "http_action \<Rightarrow> ('n, 'k) grpc_system \<Rightarrow> bool" where
  "delivers a s =
     (case a of
        Advance h d (Inr resp) \<Rightarrow>
          h < length (handlers (front s)) \<and>
          (case h_phase (handlers (front s) ! h) of Calling k \<Rightarrow> (k, resp) \<in> set (in_flight s) | _ \<Rightarrow> False)
      | _ \<Rightarrow> True)"

definition grpc_step ::
  "('n, 'k, 'j) http_env \<Rightarrow> EchoServiceImpl \<Rightarrow> grpc_action \<Rightarrow> ('n, 'k) grpc_system \<Rightarrow> ('n, 'k) grpc_system option" where
  "grpc_step env svc a s =
     (case a of
        Front b \<Rightarrow> if delivers b s then map_option (\<lambda>t. s\<lparr>front := t\<rparr>) (http_step env b (front s)) else None
      | Execute k processing since_recv whole \<Rightarrow>
          (case transport_request (link (front s)) k of
             Some req \<Rightarrow>
               if svc_delay svc \<le> processing then
                 (let (resp, es) = echo svc processing since_recv whole req in
                  Some (s\<lparr>in_flight := in_flight s @ [(k, resp)], service_events := service_events s @ es\<rparr>))
               else None
           | None \<Rightarrow> None))"

inductive grpc_reach ::
  "('n, 'k, 'j) http_env \<Rightarrow> EchoServiceImpl \<Rightarrow> ('n, 'k) grpc_system \<Rightarrow> ('n, 'k) grpc_system \<Rightarrow> bool"
  for env svc s0 where
  grpc_refl: "grpc_reach env svc s0 s0"
| grpc_next: "grpc_reach env svc s0 s \<Longrightarrow> grpc_step env svc a s = Some t \<Longrightarrow> grpc_reach env svc s0 t"

subsection \<open>The invariant\<close>

fun grpc_client :: "('n, 'k) TransportEnum \<Rightarrow> tonic_client option" where
  "grpc_client (Tcp t) = Some t"
| "grpc_client (Uds t) = Some t"
| "grpc_client _ = None"

definition answers_echo :: "tonic_client \<Rightarrow> bool" where
  "answers_echo t \<longleftrightarrow> (\<forall>x \<in> set (tonic_calls t). \<forall>resp. snd x = Some (Inr resp) \<longrightarrow> echoes (fst x) resp)"

text \<open>Every response on its way answers a call that was made.\<close>

definition flight_ok :: "('n, 'k) grpc_system \<Rightarrow> bool" where
  "flight_ok s \<longleftrightarrow> (\<forall>(k, resp) \<in> set (in_flight s). \<exists>req. transport_request (link (front s)) k = Some req \<and> echoes req resp)"

definition grpc_inv :: "('n, 'k, 'j) http_env \<Rightarrow> ('n, 'k) grpc_system \<Rightarrow> bool" where
  "grpc_inv env s \<longleftrightarrow>
     (\<exists>t. grpc_client (link (front s)) = Some t \<and> answers_echo t) \<and> flight_ok s
   \<and> (\<forall>hdl \<in> set (handlers (front s)). handler_ok env (transport_reqs (link (front s))) hdl)"

lemma grpc_honest:
  assumes "grpc_client u = Some t" "answers_echo t"
  shows "transport_honest u"
proof -
  have "echoes (fst x) resp" if "x \<in> set (tonic_calls t)" "snd x = Some (Inr resp)" for x resp
    using assms(2) that unfolding answers_echo_def by blast
  then have "echoes (fst (tonic_calls t ! k)) resp"
    if "k < length (tonic_calls t)" "snd (tonic_calls t ! k) = Some (Inr resp)" for k resp
    using that by simp
  moreover have "u = Tcp t \<or> u = Uds t" using assms(1) by (cases u) simp_all
  ultimately show ?thesis
    by (auto simp: transport_honest_def tcp_call_def grpc_uds_call_def map_sum_def id_def
        split: if_splits sum.splits)
qed

lemma tonic_start_echo: "answers_echo t \<Longrightarrow> answers_echo (tonic_start req t)"
  by (auto simp: answers_echo_def tonic_start_def)

lemma tonic_arrive_echo:
  assumes "answers_echo t" "tonic_arrive k ans t = Some t'"
    and "\<And>resp. ans = Inr resp \<Longrightarrow> echoes (fst (tonic_calls t ! k)) resp"
  shows "answers_echo t'"
proof -
  have t': "tonic_calls t' = (tonic_calls t)[k := (fst (tonic_calls t ! k), Some ans)]"
    using assms(2) by (auto simp: tonic_arrive_def split: if_splits)
  let ?P = "\<lambda>x. \<forall>resp. snd x = Some (Inr resp) \<longrightarrow> echoes (fst x) resp"
  have "?P x" if "x \<in> set (tonic_calls t)" for x using assms(1) that unfolding answers_echo_def by blast
  moreover have "?P (fst (tonic_calls t ! k), Some ans)" using assms(3) by simp
  ultimately show ?thesis unfolding answers_echo_def t' using all_update [of "tonic_calls t" ?P] by blast
qed

text \<open>A step of the gateway keeps the requests already made, so what is on its way stays an answer.\<close>

lemma http_step_reqs:
  assumes "http_step env a s = Some s'"
  shows "\<exists>rest. transport_reqs (link s') = transport_reqs (link s) @ rest"
  using assms
proof (cases rule: http_step_cases)
  case (moved t)
  with moved_reqs [OF moved(4)] http_step_live [OF assms] show ?thesis by auto
qed (simp_all add: start_reqs)

lemma transport_request_iff:
  "transport_request t k = Some req \<longleftrightarrow> k < length (transport_reqs t) \<and> transport_reqs t ! k = req"
  by (cases t) (auto simp: tickets_def poll_request_def rpc_request_def)

lemma grpc_link_step:
  assumes "grpc_client (link s) = Some t" "answers_echo t" "http_step env a s = Some s'"
    and "\<And>h d resp k. a = Advance h d (Inr resp) \<Longrightarrow> h < length (handlers s) \<Longrightarrow> h_phase (handlers s ! h) = Calling k \<Longrightarrow>
        echoes (fst (tonic_calls t ! k)) resp"
  shows "\<exists>t'. grpc_client (link s') = Some t' \<and> answers_echo t'"
proof -
  have u: "link s = Tcp t \<or> link s = Uds t" using assms(1) by (cases "link s") simp_all
  show ?thesis
  proof (cases a)
    case (Accept r)
    then show ?thesis using assms(1-3) by (auto simp: http_step_def http_accept_def split: if_splits sum.splits)
  next
    case (Request conn path)
    then show ?thesis using assms(1-3) by (auto simp: http_step_def http_request_def split: if_splits)
  next
    case (Collected h elapsed body i)
    then consider "link s' = link s" | req where "link s' = transport_start i req (link s)"
      using assms(3) by (auto simp: http_step_def http_collected_def Let_def split: if_splits sum.splits prod.splits)
    then show ?thesis
      by cases (use u assms(1,2) in \<open>auto simp: tonic_start_echo\<close>)
  next
    case (Advance h d ans)
    then obtain k where k: "h < length (handlers s)" "h_phase (handlers s ! h) = Calling k"
      "transport_advance (env_json env) (env_codec env) (env_sock env) (env_efd env) k d ans (link s) = Some (link s')"
      using assms(3) by (auto simp: http_step_def http_advance_def split: if_splits handler_phase.splits)
    from u k(3) obtain t' where t': "tonic_arrive k ans t = Some t'" "link s' = Tcp t' \<or> link s' = Uds t'" by auto
    have "answers_echo t'"
      by (rule tonic_arrive_echo [OF assms(2) t'(1)]) (use assms(4) Advance k(1,2) in simp)
    with t' show ?thesis by auto
  next
    case (Answer h d2 d3)
    then show ?thesis using assms(1-3)
      by (auto simp: http_step_def http_answer_def split_def Let_def split: if_splits handler_phase.splits)
  next
    case (Background b)
    then show ?thesis using assms(3) u by (auto simp: http_step_def split: if_splits)
  next
    case (Close conn)
    then show ?thesis using assms(1-3) by (auto simp: http_step_def http_close_def split: if_splits)
  qed
qed

lemma flight_request:
  assumes "flight_ok s" "(k, resp) \<in> set (in_flight s)" "grpc_client (link (front s)) = Some t"
  shows "echoes (fst (tonic_calls t ! k)) resp"
proof -
  obtain req where "transport_request (link (front s)) k = Some req" "echoes req resp"
    using assms(1,2) unfolding flight_ok_def by auto
  moreover have "link (front s) = Tcp t \<or> link (front s) = Uds t" using assms(3) by (cases "link (front s)") simp_all
  ultimately show ?thesis by (auto split: if_splits)
qed

lemma grpc_step_inv:
  assumes inv: "grpc_inv env s" and step: "grpc_step env svc a s = Some s'"
  shows "grpc_inv env s'"
proof (cases a)
  case (Front b)
  then obtain f where f: "delivers b s" "http_step env b (front s) = Some f" "s' = s\<lparr>front := f\<rparr>"
    using step by (auto simp: grpc_step_def split: if_splits)
  from inv obtain t where t: "grpc_client (link (front s)) = Some t" "answers_echo t" "flight_ok s"
    "\<forall>hdl \<in> set (handlers (front s)). handler_ok env (transport_reqs (link (front s))) hdl"
    by (auto simp: grpc_inv_def)
  have "\<exists>t'. grpc_client (link f) = Some t' \<and> answers_echo t'"
  proof (rule grpc_link_step [OF t(1,2) f(2)])
    fix h d resp k assume "b = Advance h d (Inr resp)" "h < length (handlers (front s))"
      "h_phase (handlers (front s) ! h) = Calling k"
    with f(1) have "(k, resp) \<in> set (in_flight s)" by (simp add: delivers_def)
    then show "echoes (fst (tonic_calls t ! k)) resp" by (rule flight_request [OF t(3) _ t(1)])
  qed
  moreover have "flight_ok s'"
    using t(3) http_step_reqs [OF f(2)] by (fastforce simp: flight_ok_def f(3) transport_request_iff nth_append)
  moreover note http_step_handlers [OF t(4) grpc_honest [OF t(1,2)] f(2)]
  ultimately show ?thesis by (simp add: grpc_inv_def f(3))
next
  case (Execute k p r w)
  then obtain req where "transport_request (link (front s)) k = Some req"
    "s' = s\<lparr>in_flight := in_flight s @ [(k, fst (echo svc p r w req))], service_events := service_events s @ snd (echo svc p r w req)\<rparr>"
    using step by (auto simp: grpc_step_def split_def Let_def split: option.splits if_splits)
  with inv show ?thesis by (auto simp: grpc_inv_def flight_ok_def echo_def echoes_def)
qed

lemma grpc_reach_inv:
  assumes "grpc_reach env svc (grpc_boot t0) s" "t0 = Tcp \<lparr>tonic_calls = []\<rparr> \<or> t0 = Uds \<lparr>tonic_calls = []\<rparr>"
  shows "grpc_inv env s"
  using assms(1)
proof induction
  case grpc_refl
  from assms(2) show ?case
    by (auto simp: grpc_inv_def grpc_boot_def http_boot_def Gateway_new_def flight_ok_def answers_echo_def)
next
  case (grpc_next s a s')
  then show ?case by (blast intro: grpc_step_inv)
qed

subsection \<open>Properties\<close>

text \<open>C16. Over both gRPC transports, too, a handler that has answered has answered 400, 503, or 200 with
  the message of its own client, whatever executions of the method and errors of the connection
  happen, in whatever order the responses come back.\<close>

theorem http_grpc_answers_own:
  assumes "t0 = Tcp \<lparr>tonic_calls = []\<rparr> \<or> t0 = Uds \<lparr>tonic_calls = []\<rparr>" "grpc_reach env svc (grpc_boot t0) s"
    and "h < length (handlers (front s))" "h_phase (handlers (front s) ! h) = Answered r"
  shows "r = bad_request \<or> status r = 503 \<or> own_message env (handlers (front s) ! h) r"
proof -
  have "grpc_inv env s" using assms(1,2) by (blast intro: grpc_reach_inv)
  then have "handler_ok env (transport_reqs (link (front s))) (handlers (front s) ! h)"
    using assms(3) by (simp add: grpc_inv_def)
  with assms(4) show ?thesis by (simp add: handler_ok_def)
qed

text \<open>Two clients whose responses come back in the other order.\<close>

fun grpc_run ::
  "('n, 'k, 'j) http_env \<Rightarrow> EchoServiceImpl \<Rightarrow> grpc_action list \<Rightarrow> ('n, 'k) grpc_system \<Rightarrow> ('n, 'k) grpc_system option" where
  "grpc_run env svc [] s = Some s"
| "grpc_run env svc (a # as) s = Option.bind (grpc_step env svc a s) (grpc_run env svc as)"

lemma grpc_run_reach: "grpc_reach env svc s0 s \<Longrightarrow> grpc_run env svc as s = Some t \<Longrightarrow> grpc_reach env svc s0 t"
  by (induction as arbitrary: s) (auto simp: bind_eq_Some_conv intro: grpc_next)

definition grpc_demo :: "grpc_action list" where
  "grpc_demo = [Front (Accept (Inr ())), Front (Accept (Inr ())), Front (Request 0 [104, 105]), Front (Request 1 [98, 121, 101]),
     Front (Collected 0 0 [] []), Front (Collected 1 0 [Trailers_frame] []), Execute 1 5000 5000 6000, Execute 0 5000 5000 6000,
     Front (Advance 1 0 (Inr (fst (echo (EchoServiceImpl_new 1000 1) 5000 5000 6000 req_bye)))),
     Front (Advance 0 0 (Inr (fst (echo (EchoServiceImpl_new 1000 1) 5000 5000 6000 req_hi)))),
     Front (Answer 1 6000 6000), Front (Answer 0 6000 6000)]"

lemma grpc_demo_run:
  "\<exists>s r. grpc_run ref_env (EchoServiceImpl_new 1000 1) grpc_demo (grpc_boot (Tcp \<lparr>tonic_calls = []\<rparr>)) = Some s
    \<and> length (handlers (front s)) = 2 \<and> h_phase (handlers (front s) ! 0) = Answered r \<and> status r = 200"
  by (simp add: grpc_demo_def grpc_boot_def http_boot_def Gateway_new_def grpc_step_def delivers_def http_step_def
      http_accept_def http_request_def http_collected_def gateway_receive_def http_advance_def http_answer_def
      gateway_answer_def tonic_start_def tonic_arrive_def tcp_call_def req_hi_from_http [symmetric]
      req_bye_from_http [symmetric] echo_def EchoServiceImpl_new_def Let_def)

lemma http_grpc_answers_own_witness:
  "\<exists>s r. grpc_reach ref_env (EchoServiceImpl_new 1000 1) (grpc_boot (Tcp \<lparr>tonic_calls = []\<rparr>)) s
    \<and> h_phase (handlers (front s) ! 0) = Answered r \<and> own_message ref_env (handlers (front s) ! 0) r"
proof -
  obtain s r where s: "grpc_run ref_env (EchoServiceImpl_new 1000 1) grpc_demo (grpc_boot (Tcp \<lparr>tonic_calls = []\<rparr>)) = Some s"
    "length (handlers (front s)) = 2" "h_phase (handlers (front s) ! 0) = Answered r" "status r = 200"
    using grpc_demo_run by blast
  note reach = grpc_run_reach [OF grpc_refl s(1)]
  have "r = bad_request \<or> status r = 503 \<or> own_message ref_env (handlers (front s) ! 0) r"
    by (rule http_grpc_answers_own [OF disjI1 [OF refl] reach _ s(3)]) (simp add: s(2))
  with s(4) have "own_message ref_env (handlers (front s) ! 0) r" by (auto simp: bad_request_def)
  with reach s(3) show ?thesis by blast
qed

end
