(* ===== verification/Uds_Restart.thy ===== *)
theory Uds_Restart
  imports Uds_Properties Startup
begin

section \<open>One backend, any number of gateways\<close>

text \<open>
  \<^verbatim>\<open>ShmServerUds::run\<close> accepts one connection, spawns the request listener for it and waits for
  ctrl-c; it never accepts again. The listening socket stays open meanwhile, so further gateways
  (a second one, or one that is restarted) still connect, map the same two objects and start.
  Theory \<open>Shm_Uds\<close> has one gateway beside its backend; a \<open>hub\<close> has a backend with the state of its
  \<^verbatim>\<open>run\<close>, the two objects, and a list of gateways, each with its own calls, pending map, response
  listener and connection. The steps of a gateway and of the tasks of the backend are those of
  \<open>Shm_Uds\<close>, taken on what the process sees. Each process has its own mutex around its end of a ring,
  so the stores of two gateways can race; what they leave in the objects is arbitrary here
  (\<open>move_race\<close>). A connection may break at any moment (\<open>move_hangup\<close>), as when a process ends.
\<close>

subsection \<open>State\<close>

text \<open>Where \<^verbatim>\<open>run\<close> stands: before its \<^verbatim>\<open>accept\<close>, waiting for the signal with the tasks for the accepted
  connection spawned, or returned (then the process ends and with it the tasks).\<close>

datatype server_run = Accepting | Running nat | Returned "(startup_error, unit) outcome"

record 'k gate =
  gate_pending :: "utf8 \<rightharpoonup> nat"
  gate_calls :: "call list"
  gate_listener :: task
  gate_response_buf :: bytes
  gate_socket :: 'k

record 'k hub =
  hub_req_ring :: ring
  hub_resp_ring :: ring
  gates :: "'k gate list"
  running :: server_run
  hub_server :: task
  hub_request_buf :: bytes
  hub_workers :: "worker list"
  hub_crashed :: "fault option"

text \<open>A gateway whose constructor has returned, and a backend whose constructor has.\<close>

definition gate_boot :: "'k \<Rightarrow> 'k gate" where
  "gate_boot k =
     \<lparr>gate_pending = Map.empty, gate_calls = [], gate_listener = Awaiting,
      gate_response_buf = replicate 131072 0, gate_socket = k\<rparr>"

definition hub_boot :: "ring \<Rightarrow> ring \<Rightarrow> 'k hub" where
  "hub_boot rq rp =
     \<lparr>hub_req_ring = rq, hub_resp_ring = rp, gates = [], running = Accepting, hub_server = Awaiting,
      hub_request_buf = [], hub_workers = [], hub_crashed = None\<rparr>"

text \<open>The system as seen along the connection of gateway \<open>i\<close>, and the effect of a step on it.\<close>

definition seen :: "'k hub \<Rightarrow> nat \<Rightarrow> 'k uds" where
  "seen h i = (let g = gates h ! i in
     \<lparr>req_ring = hub_req_ring h, resp_ring = hub_resp_ring h, pending = gate_pending g,
      calls = gate_calls g, listener = gate_listener g, response_buf = gate_response_buf g,
      server = hub_server h, request_buf = hub_request_buf h, workers = hub_workers h,
      crashed = hub_crashed h, socket = gate_socket g\<rparr>)"

definition gate_of :: "'k uds \<Rightarrow> 'k gate" where
  "gate_of s =
     \<lparr>gate_pending = pending s, gate_calls = calls s, gate_listener = listener s,
      gate_response_buf = response_buf s, gate_socket = socket s\<rparr>"

definition stored :: "'k hub \<Rightarrow> nat \<Rightarrow> 'k uds \<Rightarrow> 'k hub" where
  "stored h i s =
     h\<lparr>hub_req_ring := req_ring s, hub_resp_ring := resp_ring s, gates := (gates h)[i := gate_of s],
       hub_server := server s, hub_request_buf := request_buf s, hub_workers := workers s,
       hub_crashed := crashed s\<rparr>"

subsection \<open>The run of the server\<close>

text \<open>The one \<^verbatim>\<open>accept\<close> yields the connection of one of the gateways that have connected, or an error
  that ends \<^verbatim>\<open>run\<close>; the request listener is spawned with a fresh buffer.\<close>

definition uds_server_accept :: "errno + nat \<Rightarrow> 'k hub \<Rightarrow> 'k hub option" where
  "uds_server_accept r h =
     (case running h of
        Accepting \<Rightarrow>
          (case r of
             Inl e \<Rightarrow> Some (h\<lparr>running := Returned (Err (Failed_to_accept e))\<rparr>)
           | Inr n \<Rightarrow>
               if n < length (gates h)
               then Some (h\<lparr>running := Running n, hub_server := Awaiting,
                            hub_request_buf := replicate 65536 0\<rparr>)
               else None)
      | _ \<Rightarrow> None)"

text \<open>\<^verbatim>\<open>ctrl_c().await?\<close>\<close>

definition uds_server_ctrl_c :: "errno + unit \<Rightarrow> 'k hub \<Rightarrow> 'k hub option" where
  "uds_server_ctrl_c r h =
     (case running h of
        Running n \<Rightarrow>
          Some (h\<lparr>running := Returned (case r of Inl e \<Rightarrow> Err (Socket_error e) | Inr _ \<Rightarrow> Ok ())\<rparr>)
      | _ \<Rightarrow> None)"

subsection \<open>Steps\<close>

text \<open>\<open>Task i a\<close>: a task of gateway \<open>i\<close>, or a task of the backend that serves it.\<close>

datatype 'k hub_action =
    Connected 'k
  | Accepted "errno + nat"
  | Ctrl_c "errno + unit"
  | Task nat rpc_action

fun backend_action :: "rpc_action \<Rightarrow> bool" where
  "backend_action Serve = True"
| "backend_action (Work j d) = True"
| "backend_action _ = False"

text \<open>The socket listens, and accepts connections into its queue, until \<^verbatim>\<open>run\<close> returns.\<close>

definition hub_step ::
  "codec \<Rightarrow> 'k sock_sys \<Rightarrow> duration \<Rightarrow> 'k hub_action \<Rightarrow> 'k hub \<Rightarrow> 'k hub option" where
  "hub_step c sys delay a h =
     (case a of
        Connected k \<Rightarrow>
          (case running h of
             Returned r \<Rightarrow> None
           | _ \<Rightarrow> Some (h\<lparr>gates := gates h @ [gate_boot k]\<rparr>))
      | Accepted r \<Rightarrow> uds_server_accept r h
      | Ctrl_c r \<Rightarrow> uds_server_ctrl_c r h
      | Task i b \<Rightarrow>
          if i < length (gates h) \<and> (backend_action b \<longrightarrow> running h = Running i)
          then map_option (stored h i) (uds_step c sys delay b (seen h i))
          else None)"

text \<open>What can happen to a hub: a step (nothing to read on a new connection), a connection that breaks
  (what was unread on it stays or is lost), racing stores of several gateways.\<close>

inductive hub_move ::
  "codec \<Rightarrow> 'k sock_sys \<Rightarrow> ('k \<Rightarrow> side \<Rightarrow> bytes) \<Rightarrow> duration \<Rightarrow> 'k hub \<Rightarrow> 'k hub \<Rightarrow> bool"
  for c sys unread delay where
  move_step: "hub_step c sys delay a h = Some h' \<Longrightarrow> (\<And>k e. a = Connected k \<Longrightarrow> unread k e = []) \<Longrightarrow>
     hub_move c sys unread delay h h'"
| move_hangup: "i < length (gates h) \<Longrightarrow>
     (\<And>e. unread k e = unread (gate_socket (gates h ! i)) e \<or> unread k e = []) \<Longrightarrow>
     hub_move c sys unread delay h (h\<lparr>gates := (gates h)[i := (gates h ! i)\<lparr>gate_socket := k\<rparr>]\<rparr>)"
| move_race: "2 \<le> length (gates h) \<Longrightarrow>
     hub_move c sys unread delay h (h\<lparr>hub_req_ring := q, hub_resp_ring := p\<rparr>)"

abbreviation hub_reach ::
  "codec \<Rightarrow> 'k sock_sys \<Rightarrow> ('k \<Rightarrow> side \<Rightarrow> bytes) \<Rightarrow> duration \<Rightarrow> 'k hub \<Rightarrow> 'k hub \<Rightarrow> bool" where
  "hub_reach c sys unread delay \<equiv> rtranclp (hub_move c sys unread delay)"

lemma seen_parts:
  "req_ring (seen h i) = hub_req_ring h" "resp_ring (seen h i) = hub_resp_ring h"
  "calls (seen h i) = gate_calls (gates h ! i)" "pending (seen h i) = gate_pending (gates h ! i)"
  "listener (seen h i) = gate_listener (gates h ! i)" "socket (seen h i) = gate_socket (gates h ! i)"
  "response_buf (seen h i) = gate_response_buf (gates h ! i)" "server (seen h i) = hub_server h"
  "request_buf (seen h i) = hub_request_buf h" "workers (seen h i) = hub_workers h"
  "crashed (seen h i) = hub_crashed h"
  "tickets (seen h i) = map (\<lambda>cl. (call_id cl, call_req cl)) (gate_calls (gates h ! i))"
  by (simp_all add: seen_def tickets_def Let_def)

lemma seen_stored [simp]:
  "i < length (gates h) \<Longrightarrow> seen (stored h i s) i = s"
  by (cases s) (simp add: seen_def stored_def gate_of_def)

lemma stored_frame [simp]:
  "running (stored h i s) = running h" "length (gates (stored h i s)) = length (gates h)"
  "i \<noteq> j \<Longrightarrow> gates (stored h i s) ! j = gates h ! j"
  by (simp_all add: stored_def)

text \<open>With one gateway, accepted, the steps of the hub are those of \<open>Shm_Uds\<close>: every run of the one
  transport is a run of a hub.\<close>

lemma uds_reach_hub:
  assumes "uds_reach c sys delay (uds_boot rq rp k) s" "\<And>e. unread k e = []"
  shows "\<exists>h. hub_reach c sys unread delay (hub_boot rq rp) h \<and> gates h = [gate_of s] \<and> running h = Running 0
    \<and> seen h 0 = s"
  using assms(1)
proof induction
  case uds_refl
  let ?h0 = "hub_boot rq rp" let ?h1 = "?h0\<lparr>gates := [gate_boot k]\<rparr>"
  let ?h2 = "?h1\<lparr>running := Running 0, hub_request_buf := replicate 65536 0\<rparr>"
  have "hub_move c sys unread delay ?h0 ?h1"
    by (rule move_step [of _ _ _ "Connected k"]) (auto simp: hub_step_def hub_boot_def assms(2))
  moreover have "hub_move c sys unread delay ?h1 ?h2"
    by (rule move_step [of _ _ _ "Accepted (Inr 0)"]) (simp_all add: hub_step_def uds_server_accept_def hub_boot_def)
  ultimately have "hub_reach c sys unread delay ?h0 ?h2" by (rule converse_rtranclp_into_rtranclp [OF _ r_into_rtranclp])
  then show ?case
    by (rule exI [of _ ?h2, OF conjI]) (simp add: seen_def gate_of_def hub_boot_def gate_boot_def uds_boot_def)
next
  case (uds_next s a t)
  then obtain h where h: "hub_reach c sys unread delay (hub_boot rq rp) h" "gates h = [gate_of s]"
    "running h = Running 0" "seen h 0 = s" by blast
  have "hub_move c sys unread delay h (stored h 0 t)"
    by (rule move_step [of _ _ _ "Task 0 a"]) (simp_all add: hub_step_def h uds_next.hyps)
  with h(1) have "hub_reach c sys unread delay (hub_boot rq rp) (stored h 0 t)" by (rule rtranclp.rtrancl_into_rtrancl)
  then show ?case by (rule exI [of _ "stored h 0 t", OF conjI]) (simp add: h, simp add: stored_def h)
qed

subsection \<open>A gateway that is not accepted\<close>

text \<open>What its side keeps: nothing arrives over its connection, so its listener waits or has ended, no
  call has got a response, and the sender of every call is in the pending map.\<close>

definition unserved :: "call \<Rightarrow> bool" where
  "unserved cl \<longleftrightarrow> mailbox cl = None
     \<and> (\<forall>r. call_phase cl = Finished r \<longrightarrow> (\<exists>x. r = Err x \<and> x \<noteq> ChannelClosed))"

definition starved :: "('k \<Rightarrow> side \<Rightarrow> bytes) \<Rightarrow> 'k uds \<Rightarrow> bool" where
  "starved unread s \<longleftrightarrow>
     (listener s = Awaiting \<and> unread (socket s) Gateway_End = [] \<or> exited (listener s))
   \<and> (\<forall>cl \<in> set (calls s). unserved cl)
   \<and> (\<forall>k < length (calls s). pending s (call_id (calls s ! k)) = Some k)"

lemma starved_receive:
  assumes "starved unread s" "k < length (calls s)"
  shows "rpc_receive k s = None"
  using assms by (simp add: starved_def unserved_def rpc_receive_def Let_def)

lemma starved_phase:
  assumes s: "starved unread s" and k: "k < length (calls s)"
    and p: "\<forall>r. p = Finished r \<longrightarrow> (\<exists>x. r = Err x \<and> x \<noteq> ChannelClosed)"
  shows "starved unread (set_phase k p s)"
proof -
  have q: "unserved cl" if "cl \<in> set (calls s)" for cl using s that by (simp add: starved_def)
  then have "unserved (calls s ! k)" using k by simp
  then have "unserved ((calls s ! k)\<lparr>call_phase := p\<rparr>)" using p by (simp add: unserved_def)
  then have "unserved cl" if "cl \<in> set ((calls s)[k := (calls s ! k)\<lparr>call_phase := p\<rparr>])" for cl
    using q that set_update_subset_insert [of "calls s" k "(calls s ! k)\<lparr>call_phase := p\<rparr>"] by blast
  moreover have "call_id ((calls s)[k := (calls s ! k)\<lparr>call_phase := p\<rparr>] ! j) = call_id (calls s ! j)"
    if "j < length (calls s)" for j
    using k by (simp add: nth_list_update)
  ultimately show ?thesis using s by (auto simp: starved_def set_phase_def)
qed

lemma starved_frame:
  "starved unread (s\<lparr>req_ring := r\<rparr>) = starved unread s" "starved unread (s\<lparr>crashed := x\<rparr>) = starved unread s"
  by (simp_all add: starved_def)

lemma starved_socket:
  "starved unread s \<Longrightarrow> unread n Gateway_End = unread (socket s) Gateway_End \<Longrightarrow> starved unread (s\<lparr>socket := n\<rparr>)"
  by (simp add: starved_def)

lemma starved_call:
  assumes laws: "sock_laws sys unread" and s: "starved unread s" and step: "uds_call c sys k s = Some t"
  shows "starved unread t"
proof -
  have k: "k < length (calls s)" using step by (simp add: uds_call_def split: if_splits)
  show ?thesis
  proof (cases "call_phase (calls s ! k)")
    case Inserted
    then have "t = rpc_send c k s" using step k by (simp add: uds_call_def)
    with s k show ?thesis
      by (auto simp: rpc_send_def Let_def starved_frame intro!: starved_phase
          split: sum.split prod.split outcome.split)
  next
    case Written
    obtain r n where w: "sock_write_u8 sys Gateway_End 1 (socket s) = (r, n)" by fastforce
    have un: "unread n Gateway_End = unread (socket s) Gateway_End"
      using sock_written [OF laws w] by (cases r) simp_all
    obtain r' n' where f: "sock_flush sys Gateway_End n = (r', n')" by fastforce
    have un': "unread n' Gateway_End = unread (socket s) Gateway_End"
      using sock_flushed [OF laws, of Gateway_End n] f un by simp
    have "t = uds_notify sys k s" using step k Written by (simp add: uds_call_def)
    with w f show ?thesis
      using starved_phase [OF starved_socket [OF s un], of k] starved_phase [OF starved_socket [OF s un'], of k] k
      by (cases r; cases r') (simp_all add: uds_notify_def)
  next
    case Waiting
    then show ?thesis using step k starved_receive [OF s k] by (simp add: uds_call_def)
  next
    case (Finished r)
    then show ?thesis using step k by (simp add: uds_call_def)
  qed
qed

lemma starved_insert:
  assumes s: "starved unread s" and fresh: "fresh_ids (rpc_insert i req s)"
  shows "starved unread (rpc_insert i req s)"
proof -
  have "i \<notin> call_id ` set (calls s)" using fresh by (rule fresh_ids_insert)
  then have "call_id (calls s ! k) \<noteq> i" if "k < length (calls s)" for k using that by auto
  with s show ?thesis by (auto simp: starved_def unserved_def rpc_insert_def nth_append)
qed

text \<open>Its listener can only end.\<close>

lemma starved_listen:
  assumes laws: "sock_laws sys unread" and s: "starved unread s" and step: "uds_listen c sys s = Some t"
  obtains e n where "t = s\<lparr>socket := n, listener := Exited e\<rparr>"
proof -
  have aw: "listener s = Awaiting" "unread (socket s) Gateway_End = []"
    using s step by (cases "listener s"; auto simp: starved_def uds_listen_def)+
  obtain r n where r: "sock_read_exact sys Gateway_End (socket s) = (r, n)" by fastforce
  from sock_read [OF laws r] aw(2) obtain e where "r = Some (Inl e)"
    using step aw(1) r by (cases r; cases "the r") (auto simp: uds_listen_def)
  then have "t = s\<lparr>socket := n, listener := Exited e\<rparr>" using step aw(1) r by (simp add: uds_listen_def)
  then show ?thesis by (rule that)
qed

text \<open>Every step of the gateway keeps this, and none moves a call that waits.\<close>

lemma starved_step:
  assumes laws: "sock_laws sys unread" and s: "starved unread s" and a: "\<not> backend_action a"
    and step: "uds_step c sys delay a s = Some t" and fresh: "fresh_ids t"
  shows "starved unread t"
proof (cases a)
  case (Start i req)
  then have "t = rpc_insert i req s" using step by (simp add: uds_step_def split: if_splits)
  with starved_insert [OF s] fresh show ?thesis by simp
next
  case (Call k)
  then show ?thesis using step starved_call [OF laws s] by (simp add: uds_step_def split: if_splits)
next
  case Listen
  then have "uds_listen c sys s = Some t" using step by (simp add: uds_step_def split: if_splits)
  then obtain e n where "t = s\<lparr>socket := n, listener := Exited e\<rparr>" by (rule starved_listen [OF laws s])
  with s show ?thesis by (simp add: starved_def)
qed (use a in simp_all)

lemma starved_waits:
  assumes s: "starved unread s" and step: "uds_step c sys delay a s = Some t"
    and k: "k < length (calls s)" "call_phase (calls s ! k) = Waiting"
  shows "k < length (calls t) \<and> call_phase (calls t ! k) = Waiting"
  by (rule uds_step_waiting [OF step k starved_receive [OF s k(1)]])

subsection \<open>All gateways but the accepted one\<close>

definition fresh_hub :: "'k hub \<Rightarrow> bool" where
  "fresh_hub h \<longleftrightarrow> (\<forall>i < length (gates h). fresh_ids (seen h i))"

lemma starved_gate:
  "starved unread (seen h i) \<longleftrightarrow>
     (let g = gates h ! i in
      (gate_listener g = Awaiting \<and> unread (gate_socket g) Gateway_End = [] \<or> exited (gate_listener g))
    \<and> (\<forall>cl \<in> set (gate_calls g). unserved cl)
    \<and> (\<forall>k < length (gate_calls g). gate_pending g (call_id (gate_calls g ! k)) = Some k))"
  by (simp add: starved_def seen_parts Let_def)

text \<open>What a move does to one gateway: nothing, a break of its connection, or a step taken over it.\<close>

lemma hub_move_gate:
  assumes "hub_move c sys unread delay h h'" "i < length (gates h)"
  obtains (same) "gates h' ! i = gates h ! i"
  | (hangup) k where "gates h' ! i = (gates h ! i)\<lparr>gate_socket := k\<rparr>"
      "unread k Gateway_End = unread (gate_socket (gates h ! i)) Gateway_End \<or> unread k Gateway_End = []"
  | (step) a where "backend_action a \<longrightarrow> running h = Running i" "uds_step c sys delay a (seen h i) = Some (seen h' i)"
  using assms(1)
proof (cases rule: hub_move.cases)
  case (move_step a)
  show ?thesis
  proof (cases a)
    case (Task j b)
    with move_step obtain t where t: "j < length (gates h)" "backend_action b \<longrightarrow> running h = Running j"
      "uds_step c sys delay b (seen h j) = Some t" "h' = stored h j t"
      by (auto simp: hub_step_def split: if_splits)
    show ?thesis
    proof (cases "j = i")
      case True
      with t show ?thesis by (intro step [of b]) simp_all
    next
      case False
      with t show ?thesis by (intro same) simp
    qed
  qed (use move_step assms(2) in \<open>auto simp: hub_step_def uds_server_accept_def uds_server_ctrl_c_def nth_append
      split: server_run.splits sum.splits if_splits intro: same\<close>)
next
  case (move_hangup j k)
  show ?thesis
  proof (cases "j = i")
    case True
    with move_hangup assms(2) show ?thesis by (intro hangup [of k]) simp_all
  next
    case False
    with move_hangup show ?thesis by (intro same) simp
  qed
next
  case (move_race q p)
  then show ?thesis by (intro same) simp
qed

lemma hub_move_gates:
  assumes "hub_move c sys unread delay h h'"
  shows "length (gates h) \<le> length (gates h')"
    and "length (gates h) \<le> i \<Longrightarrow> i < length (gates h') \<Longrightarrow> starved unread (seen h' i)"
proof -
  have "length (gates h') = length (gates h)
    \<or> (\<exists>k. h' = h\<lparr>gates := gates h @ [gate_boot k]\<rparr> \<and> unread k Gateway_End = [])"
    using assms
    by (cases rule: hub_move.cases)
      (auto simp: hub_step_def uds_server_accept_def uds_server_ctrl_c_def
        split: hub_action.splits server_run.splits sum.splits if_splits)
  then show "length (gates h) \<le> length (gates h')"
    "length (gates h) \<le> i \<Longrightarrow> i < length (gates h') \<Longrightarrow> starved unread (seen h' i)"
    by (auto simp: starved_gate gate_boot_def nth_append)
qed

text \<open>A connection is accepted once, and only before the signal.\<close>

lemma hub_move_running:
  assumes "hub_move c sys unread delay h h'"
  shows "running h' = running h \<or> running h = Accepting \<or> (\<exists>n r. running h = Running n \<and> running h' = Returned r)"
  using assms
  by (cases rule: hub_move.cases)
    (auto simp: hub_step_def uds_server_accept_def uds_server_ctrl_c_def
      split: hub_action.splits server_run.splits sum.splits if_splits)

lemma hub_accepted_stays:
  assumes "hub_reach c sys unread delay h h'" "running h = Running n"
  shows "running h' = Running n \<or> (\<exists>r. running h' = Returned r)"
  using assms(1)
proof induction
  case (step h' h'')
  with hub_move_running [OF step.hyps(2)] show ?case by auto
qed (simp add: assms(2))

lemma fresh_hub_back:
  assumes "hub_move c sys unread delay h h'" "fresh_hub h'"
  shows "fresh_hub h"
  unfolding fresh_hub_def
proof (intro allI impI)
  fix i assume i: "i < length (gates h)"
  have f: "fresh_ids (seen h' i)" using assms i hub_move_gates(1) [OF assms(1)] by (simp add: fresh_hub_def)
  from assms(1) i show "fresh_ids (seen h i)"
  proof (cases rule: hub_move_gate)
    case same
    with f show ?thesis by (simp add: fresh_ids_def seen_parts)
  next
    case (hangup k)
    with f show ?thesis by (simp add: fresh_ids_def seen_parts)
  next
    case (step a)
    from uds_step_tickets(1) [OF step(2)] f show ?thesis using fresh_ids_prefix by blast
  qed
qed

lemma fresh_hub_reach:
  "hub_reach c sys unread delay h h' \<Longrightarrow> fresh_hub h' \<Longrightarrow> fresh_hub h"
  by (induction rule: rtranclp_induct) (auto dest: fresh_hub_back)

lemma starved_move:
  assumes laws: "sock_laws sys unread" and m: "hub_move c sys unread delay h h'" and fresh: "fresh_hub h'"
    and i: "i < length (gates h)" "running h \<noteq> Running i" and s: "starved unread (seen h i)"
  shows "starved unread (seen h' i)"
    and "k < length (calls (seen h i)) \<Longrightarrow> call_phase (calls (seen h i) ! k) = Waiting \<Longrightarrow>
      k < length (calls (seen h' i)) \<and> call_phase (calls (seen h' i) ! k) = Waiting"
proof -
  have f: "fresh_ids (seen h' i)" using fresh i hub_move_gates(1) [OF m] by (simp add: fresh_hub_def)
  have "starved unread (seen h' i) \<and> (k < length (calls (seen h i)) \<and> call_phase (calls (seen h i) ! k) = Waiting
    \<longrightarrow> k < length (calls (seen h' i)) \<and> call_phase (calls (seen h' i) ! k) = Waiting)"
    using m i(1)
  proof (cases rule: hub_move_gate)
    case same
    with s show ?thesis by (simp add: starved_gate seen_parts Let_def)
  next
    case (hangup n)
    with s show ?thesis by (auto simp: starved_gate seen_parts Let_def)
  next
    case (step a)
    with i(2) have a: "\<not> backend_action a" by blast
    from starved_step [OF laws s a step(2) f] starved_waits [OF s step(2)] show ?thesis by blast
  qed
  then show "starved unread (seen h' i)"
    "k < length (calls (seen h i)) \<Longrightarrow> call_phase (calls (seen h i) ! k) = Waiting \<Longrightarrow>
      k < length (calls (seen h' i)) \<and> call_phase (calls (seen h' i) ! k) = Waiting"
    by blast+
qed

text \<open>Up to and after the accept: every gateway but the accepted one is starved.\<close>

definition elsewhere :: "'k hub \<Rightarrow> nat \<Rightarrow> bool" where
  "elsewhere h i \<longleftrightarrow> running h = Accepting \<or> (\<exists>n. n \<noteq> i \<and> running h = Running n)"

lemma hub_forsaken:
  assumes laws: "sock_laws sys unread" and "hub_reach c sys unread delay (hub_boot rq rp) h" "fresh_hub h"
    and "i < length (gates h)" "elsewhere h i"
  shows "starved unread (seen h i)"
  using assms(2-5)
proof (induction arbitrary: i)
  case base
  then show ?case by (simp add: hub_boot_def)
next
  case (step h h')
  show ?case
  proof (cases "i < length (gates h)")
    case True
    have "elsewhere h i" using step.prems(3) hub_move_running [OF step.hyps(2)] by (auto simp: elsewhere_def)
    moreover from this have "running h \<noteq> Running i" by (auto simp: elsewhere_def)
    ultimately show ?thesis
      using starved_move(1) [OF laws step.hyps(2) step.prems(1) True] step.IH True fresh_hub_back [OF step.hyps(2) step.prems(1)]
      by blast
  next
    case False
    with hub_move_gates(2) [OF step.hyps(2), of i] step.prems(2) show ?thesis by simp
  qed
qed

lemma hub_forsaken_stays:
  assumes laws: "sock_laws sys unread" and "hub_reach c sys unread delay h h'" "fresh_hub h'"
    and h: "running h = Running n" "i \<noteq> n" and "\<And>j. j < length (gates h) \<Longrightarrow> j \<noteq> n \<Longrightarrow> starved unread (seen h j)"
    and "i < length (gates h')"
  shows "starved unread (seen h' i)"
  using assms(2,3,7)
proof induction
  case base
  with assms(5,6) show ?case by simp
next
  case (step h' h'')
  have n: "running h' \<noteq> Running i" using hub_accepted_stays [OF step.hyps(1) h(1)] h(2) by auto
  show ?case
  proof (cases "i < length (gates h')")
    case True
    with starved_move(1) [OF laws step.hyps(2) step.prems(1) True n] step.IH fresh_hub_back [OF step.hyps(2) step.prems(1)]
    show ?thesis by blast
  next
    case False
    with hub_move_gates(2) [OF step.hyps(2), of i] step.prems(2) show ?thesis by simp
  qed
qed

lemma hub_waits_on:
  assumes laws: "sock_laws sys unread" and "hub_reach c sys unread delay h h'" "fresh_hub h'"
    and h: "i < length (gates h)" "running h = Running n \<or> (\<exists>r. running h = Returned r)" "i \<noteq> n"
    and "starved unread (seen h i)" "k < length (calls (seen h i))" "call_phase (calls (seen h i) ! k) = Waiting"
  shows "i < length (gates h') \<and> (running h' = Running n \<or> (\<exists>r. running h' = Returned r))
    \<and> starved unread (seen h' i) \<and> k < length (calls (seen h' i)) \<and> call_phase (calls (seen h' i) ! k) = Waiting"
  using assms(2,3)
proof induction
  case base
  with assms(4-) show ?case by simp
next
  case (step h' h'')
  from step.IH fresh_hub_back [OF step.hyps(2) step.prems] have ih: "i < length (gates h')"
    "running h' = Running n \<or> (\<exists>r. running h' = Returned r)" "starved unread (seen h' i)"
    "k < length (calls (seen h' i))" "call_phase (calls (seen h' i) ! k) = Waiting" by blast+
  from ih(2) h(3) have n: "running h' \<noteq> Running i" by auto
  from starved_move [OF laws step.hyps(2) step.prems ih(1) n ih(3)] ih hub_move_gates(1) [OF step.hyps(2)]
    hub_move_running [OF step.hyps(2)]
  show ?case by auto
qed

subsection \<open>Properties\<close>

text \<open>C21. The backend accepts one connection in its life, and no other gateway is ever served. From the
  moment it has accepted gateway \<open>n\<close>, whatever the gateways, their listeners, the backend and its
  workers do, also after a break of any connection and the end of the backend: the accepted connection
  stays the one of \<open>n\<close>; a call of any other gateway, one that had connected before or one that
  connects later, has not returned a response nor noticed a closed channel: it is under way or has
  ended with the error of the ring, the encoding or the socket; and once it waits it cannot move, and
  waits in every later state. (The socket obeys its laws, and no gateway draws an identifier twice.)\<close>

theorem uds_unaccepted_starves:
  assumes "sock_laws sys unread"
    and "hub_reach c sys unread delay (hub_boot rq rp) h" "running h = Running n"
    and "hub_reach c sys unread delay h h'" "fresh_hub h'"
    and "i < length (gates h')" "i \<noteq> n" "k < length (calls (seen h' i))"
  shows "(running h' = Running n \<or> (\<exists>r. running h' = Returned r))
    \<and> (call_phase (calls (seen h' i) ! k) \<in> {Inserted, Written, Waiting} \<or>
        (\<exists>x. call_phase (calls (seen h' i) ! k) = Finished (Err x) \<and> x \<noteq> ChannelClosed))
    \<and> (call_phase (calls (seen h' i) ! k) = Waiting \<longrightarrow>
        hub_step c sys delay (Task i (Call k)) h' = None
      \<and> (\<forall>h''. hub_reach c sys unread delay h' h'' \<and> fresh_hub h'' \<longrightarrow> call_phase (calls (seen h'' i) ! k) = Waiting))"
proof -
  note run = hub_accepted_stays [OF assms(4,3)]
  have "starved unread (seen h j)" if "j < length (gates h)" "j \<noteq> n" for j
    using hub_forsaken [OF assms(1,2) fresh_hub_reach [OF assms(4,5)] that(1)] assms(3) that(2) by (auto simp: elsewhere_def)
  then have s: "starved unread (seen h' i)" by (rule hub_forsaken_stays [OF assms(1,4,5,3,7) _ assms(6)])
  have "unserved (calls (seen h' i) ! k)" using s assms(8) by (simp add: starved_def)
  then have phase: "call_phase (calls (seen h' i) ! k) \<in> {Inserted, Written, Waiting} \<or>
        (\<exists>x. call_phase (calls (seen h' i) ! k) = Finished (Err x) \<and> x \<noteq> ChannelClosed)"
    by (cases "call_phase (calls (seen h' i) ! k)") (auto simp: unserved_def)
  have stuck: "hub_step c sys delay (Task i (Call k)) h' = None" if "call_phase (calls (seen h' i) ! k) = Waiting"
    using that starved_receive [OF s assms(8)] assms(8) by (simp add: hub_step_def uds_step_def uds_call_def)
  have "call_phase (calls (seen h'' i) ! k) = Waiting"
    if "call_phase (calls (seen h' i) ! k) = Waiting" "hub_reach c sys unread delay h' h''" "fresh_hub h''" for h''
    using hub_waits_on [OF assms(1) that(2,3) assms(6) run assms(7) s assms(8) that(1)] by blast
  with run phase stuck show ?thesis by blast
qed

text \<open>Two gateways, the first one accepted; a request of the second, written and announced.\<close>

lemma hub_second_waits:
  "\<exists>h h'. hub_reach ref_codec ref_sock (\<lambda>k. k) 1000 (hub_boot ring_default ring_default) h \<and> running h = Running 0
    \<and> hub_reach ref_codec ref_sock (\<lambda>k. k) 1000 h h' \<and> fresh_hub h' \<and> length (gates h') = 2
    \<and> length (calls (seen h' 1)) = 1 \<and> call_phase (calls (seen h' 1) ! 0) = Waiting"
proof -
  let ?h0 = "hub_boot ring_default ring_default"
  let ?move = "hub_move ref_codec ref_sock (\<lambda>k. k) 1000"
  let ?m = "ref_put_request ([1], req_hi)"
  obtain q where q: "ring_write ring_default ?m = (Ok (len_usize ?m), q)"
    by (rule ring_one_message [of ring_default ?m "replicate 65536 0"])
      (auto simp: ring_default_nat ref_enc_hi isize_max_def)
  define h1 where "h1 = ?h0\<lparr>gates := [gate_boot sock_quiet]\<rparr>"
  define h2 where "h2 = h1\<lparr>gates := [gate_boot sock_quiet, gate_boot sock_quiet]\<rparr>"
  define h3 where "h3 = h2\<lparr>running := Running 0, hub_request_buf := replicate 65536 0\<rparr>"
  define u where "u = rpc_insert [1] req_hi (seen h3 1)"
  define v where "v = set_phase 0 Written (u\<lparr>req_ring := q\<rparr>)"
  define w where "w = set_phase 0 Waiting (v\<lparr>socket := sock_quiet(Backend_End := [1])\<rparr>)"
  note defs = hub_boot_def h1_def h2_def h3_def gate_boot_def
  have m1: "?move ?h0 h1"
    by (rule move_step [of _ _ _ "Connected sock_quiet"]) (auto simp: hub_step_def defs sock_quiet_def)
  have m2: "?move h1 h2"
    by (rule move_step [of _ _ _ "Connected sock_quiet"]) (auto simp: hub_step_def defs sock_quiet_def)
  have m3: "?move h2 h3"
    by (rule move_step [of _ _ _ "Accepted (Inr 0)"]) (auto simp: hub_step_def uds_server_accept_def defs)
  have s3: "calls (seen h3 (Suc 0)) = []" "crashed (seen h3 (Suc 0)) = None"
    "req_ring (seen h3 (Suc 0)) = ring_default" "socket (seen h3 (Suc 0)) = sock_quiet"
    by (simp_all add: seen_parts defs)
  have g3: "Suc 0 < length (gates h3)" by (simp add: defs)
  have "uds_step ref_codec ref_sock 1000 (Start [1] req_hi) (seen h3 1) = Some u"
    by (simp add: uds_step_def u_def s3)
  then have m4: "?move h3 (stored h3 1 u)"
    by (intro move_step [of _ _ _ "Task 1 (Start [1] req_hi)"]) (simp_all add: hub_step_def g3)
  have "uds_step ref_codec ref_sock 1000 (Call 0) u = Some v"
    by (simp add: uds_step_def uds_call_def u_def v_def rpc_send_def rpc_insert_def s3 ref_enc_hi q)
  then have m5: "?move (stored h3 1 u) (stored (stored h3 1 u) 1 v)"
    by (intro move_step [of _ _ _ "Task 1 (Call 0)"]) (simp_all add: hub_step_def g3)
  have "uds_step ref_codec ref_sock 1000 (Call 0) v = Some w"
    by (simp add: uds_step_def uds_call_def uds_notify_def u_def v_def w_def rpc_insert_def s3 set_phase_def
        ref_sock_def sock_quiet_def)
  then have m6: "?move (stored (stored h3 1 u) 1 v) (stored (stored (stored h3 1 u) 1 v) 1 w)"
    by (intro move_step [of _ _ _ "Task 1 (Call 0)"]) (simp_all add: hub_step_def g3)
  let ?h' = "stored (stored (stored h3 1 u) 1 v) 1 w"
  have "hub_reach ref_codec ref_sock (\<lambda>k. k) 1000 ?h0 h3" using m1 m2 m3 by auto
  moreover have "hub_reach ref_codec ref_sock (\<lambda>k. k) 1000 h3 ?h'" using m4 m5 m6 by auto
  moreover have w: "calls w = [\<lparr>call_id = [1], call_req = req_hi, call_phase = Waiting, mailbox = None\<rparr>]"
    by (simp add: w_def v_def u_def rpc_insert_def set_phase_def s3)
  moreover have "fresh_ids (seen ?h' i)" if "i < 2" for i
    using that w g3 by (cases "i = 1") (auto simp: fresh_ids_def seen_parts gate_of_def stored_def defs less_2_cases_iff)
  ultimately show ?thesis using g3
    by (intro exI [of _ h3] exI [of _ ?h']) (simp add: fresh_hub_def defs)
qed

theorem uds_unaccepted_starves_witness:
  "\<exists>h h'. hub_reach ref_codec ref_sock (\<lambda>k. k) 1000 (hub_boot ring_default ring_default) h \<and> running h = Running 0
    \<and> hub_reach ref_codec ref_sock (\<lambda>k. k) 1000 h h' \<and> call_phase (calls (seen h' 1) ! 0) = Waiting
    \<and> hub_step ref_codec ref_sock 1000 (Task 1 (Call 0)) h' = None"
proof -
  obtain h h' where h: "hub_reach ref_codec ref_sock (\<lambda>k. k) 1000 (hub_boot ring_default ring_default) h"
    "running h = Running 0" "hub_reach ref_codec ref_sock (\<lambda>k. k) 1000 h h'" "fresh_hub h'" "length (gates h') = 2"
    "length (calls (seen h' 1)) = 1" "call_phase (calls (seen h' 1) ! 0) = Waiting"
    using hub_second_waits by blast
  have "0 < length (calls (seen h' 1))" using h(6) by simp
  from uds_unaccepted_starves [OF ref_sock_laws h(1-4) _ _ this] h(5,7)
  have "hub_step ref_codec ref_sock 1000 (Task 1 (Call 0)) h' = None" by simp
  with h(1-3,7) show ?thesis by blast
qed

subsection \<open>What another gateway does to the accepted one\<close>

fun hub_run ::
  "codec \<Rightarrow> 'k sock_sys \<Rightarrow> duration \<Rightarrow> 'k hub_action list \<Rightarrow> 'k hub \<Rightarrow> 'k hub option" where
  "hub_run c sys delay [] h = Some h"
| "hub_run c sys delay (a # as) h = Option.bind (hub_step c sys delay a h) (hub_run c sys delay as)"

text \<open>No task of any process can move; only a new call, a new gateway or the signal can come.\<close>

definition hub_quiet :: "codec \<Rightarrow> 'k sock_sys \<Rightarrow> duration \<Rightarrow> 'k hub \<Rightarrow> bool" where
  "hub_quiet c sys delay h \<longleftrightarrow>
     (\<forall>i a. (\<forall>j req. a \<noteq> Start j req) \<longrightarrow> hub_step c sys delay (Task i a) h = None)"

text \<open>Two gateways, the first accepted.\<close>

definition hub_pair :: "ring \<Rightarrow> ring \<Rightarrow> task \<Rightarrow> bytes \<Rightarrow> worker list \<Rightarrow> 'k gate \<Rightarrow> 'k gate \<Rightarrow> 'k hub" where
  "hub_pair q p sv b w g0 g1 =
     \<lparr>hub_req_ring = q, hub_resp_ring = p, gates = [g0, g1], running = Running 0, hub_server = sv,
      hub_request_buf = b, hub_workers = w, hub_crashed = None\<rparr>"

definition gate_calling :: "'k \<Rightarrow> utf8 \<Rightarrow> EchoRequest \<Rightarrow> call_phase \<Rightarrow> task \<Rightarrow> bytes \<Rightarrow> 'k gate" where
  "gate_calling k i req ph l b =
     \<lparr>gate_pending = [i \<mapsto> 0], gate_calls = [\<lparr>call_id = i, call_req = req, call_phase = ph, mailbox = None\<rparr>],
      gate_listener = l, gate_response_buf = b, gate_socket = k\<rparr>"

lemmas hub_pair_defs = hub_pair_def gate_calling_def gate_boot_def hub_step_def seen_def stored_def gate_of_def Let_def
  uds_step_def uds_call_def uds_notify_def rpc_insert_def rpc_send_def set_phase_def

text \<open>A call of either gateway, up to the announcement of its request.\<close>

lemma hub_pair_send:
  assumes "enc_request c (i, req) = Inr m" "ring_write q m = (Ok n, q')"
    and "sock_write_u8 sys Gateway_End 1 k = (Inr (), k1)" "sock_flush sys Gateway_End k1 = (Inr (), k2)"
  shows "hub_run c sys delay [Task 0 (Start i req), Task 0 (Call 0), Task 0 (Call 0)] (hub_pair q p sv b w (gate_boot k) g)
      = Some (hub_pair q' p sv b w (gate_calling k2 i req Waiting Awaiting (replicate 131072 0)) g)"
    and "hub_run c sys delay [Task 1 (Start i req), Task 1 (Call 0), Task 1 (Call 0)] (hub_pair q p sv b w g (gate_boot k))
      = Some (hub_pair q' p sv b w g (gate_calling k2 i req Waiting Awaiting (replicate 131072 0)))"
  using assms by (simp_all add: hub_pair_defs)

text \<open>The server takes one message for the byte, a worker replies, and the listener of the accepted
  gateway, which has no call of that identifier, drops the response.\<close>

lemma hub_pair_serve:
  assumes "sock_read_exact sys Backend_End k = (Some (Inr x), k3)"
    and "ring_read q b = (Ok n, b', q')" "take (unat n) b' = m" "dec_request c m = Inr (i, req)"
  shows "hub_run c sys delay [Task 0 Serve, Task 0 Serve] (hub_pair q p Awaiting b [] (gate_calling k i0 req0 Waiting l lb) g)
      = Some (hub_pair q' p Awaiting b' [Sleeping i req] (gate_calling k3 i0 req0 Waiting l lb) g)"
  using assms by (simp add: hub_pair_defs uds_serve_def rpc_fetch_request_def rpc_spawn_def)

lemma hub_pair_work:
  assumes "enc_response c (i, echo_response d req) = Inr r" "ring_write p r = (Ok n, p')" "delay \<le> d"
    and "sock_write_u8 sys Backend_End 1 k = (Inr (), k4)" "sock_flush sys Backend_End k4 = (Inr (), k5)"
  shows "hub_run c sys delay [Task 0 (Work 0 d), Task 0 (Work 0 d)]
        (hub_pair q p Awaiting b [Sleeping i req] (gate_calling k i0 req0 Waiting l lb) g)
      = Some (hub_pair q p' Awaiting b [Replied i] (gate_calling k5 i0 req0 Waiting l lb) g)"
  using assms by (simp add: hub_pair_defs uds_work_def rpc_reply_def set_worker_def)

lemma hub_pair_listen:
  assumes "sock_read_exact sys Gateway_End k = (Some (Inr y), k6)"
    and "ring_read p lb = (Ok n, lb', p')" "take (unat n) lb' = r" "dec_response c r = Inr (i, resp)" "i \<noteq> i0"
    and "ring_read p' lb' = (Err e, lb', p')"
  shows "hub_run c sys delay [Task 0 Listen, Task 0 Listen, Task 0 Listen, Task 0 Listen]
        (hub_pair q p Awaiting b w (gate_calling k i0 req0 Waiting Awaiting lb) g)
      = Some (hub_pair q p' Awaiting b w (gate_calling k6 i0 req0 Waiting Awaiting lb') g)"
  using assms by (simp add: hub_pair_defs uds_listen_def rpc_fetch_response_def rpc_dispatch_def)

lemma hub_run_append:
  "hub_run c sys delay (as @ bs) h = Option.bind (hub_run c sys delay as h) (hub_run c sys delay bs)"
  by (induction "as" arbitrary: h) (auto split: option.split simp: Option.bind_eq_None_conv split: bind_splits)

lemma hub_pair_quiet:
  assumes "\<exists>n. sock_read_exact sys Backend_End k = (None, n)" "\<exists>n. sock_read_exact sys Gateway_End k = (None, n)"
    and "\<exists>n. sock_read_exact sys Gateway_End k' = (None, n)"
  shows "hub_quiet c sys delay (hub_pair q p Awaiting b [Replied i1]
      (gate_calling k i0 req0 Waiting Awaiting lb) (gate_calling k' i1 req1 Waiting Awaiting lb'))"
    (is "hub_quiet c sys delay ?h")
  unfolding hub_quiet_def
proof (intro allI impI)
  fix i a assume a: "\<forall>j req. a \<noteq> Start j req"
  have seen: "call_phase (calls (seen ?h i) ! 0) = Waiting \<and> length (calls (seen ?h i)) = 1 \<and> listener (seen ?h i) = Awaiting
      \<and> rpc_receive 0 (seen ?h i) = None \<and> (\<exists>n. sock_read_exact sys Gateway_End (socket (seen ?h i)) = (None, n))"
    if "i < 2" for i
  proof -
    from that have "i = 0 \<or> i = 1" by auto
    with assms(2,3) show ?thesis by (auto simp: seen_def hub_pair_def gate_calling_def rpc_receive_def)
  qed
  show "hub_step c sys delay (Task i a) ?h = None"
  proof (cases "i < 2")
    case True
    note s = seen [OF True]
    show ?thesis
    proof (cases a)
      case (Call j)
      with s show ?thesis by (cases j) (simp_all add: hub_step_def uds_step_def uds_call_def)
    next
      case Listen
      with s show ?thesis by (auto simp: hub_step_def uds_step_def uds_listen_def)
    next
      case Serve
      then show ?thesis using assms(1)
        by (auto simp: hub_step_def uds_step_def uds_serve_def hub_pair_def seen_def gate_calling_def)
    next
      case (Work j d)
      then show ?thesis
        by (cases j) (simp_all add: hub_step_def uds_step_def uds_work_def hub_pair_def seen_def gate_calling_def)
    qed (use a in simp)
  next
    case False
    then show ?thesis by (simp add: hub_step_def hub_pair_def)
  qed
qed

text \<open>C15. Another gateway can starve the accepted one. Two gateways connect, the first is accepted; the
  second writes a request and announces it over its own connection, which nobody reads; then the
  first writes and announces one. The server takes one message for the one byte it gets, which is
  the request of the second gateway; the response goes to the listener of the first, which has no
  call of that identifier and drops it. The request of the first gateway stays in the ring, its
  call waits, and no task of any process can move without a new call. (Over a connected, healthy socket; the messages
  fit the buffers and the rings before their ends; the two identifiers differ.)\<close>

theorem uds_second_gateway_blocks:
  assumes codec: "codec_laws c" and laws: "sock_laws sys unread"
    and up: "sock_healthy UNIV sys unread" "sock_connected sys unread"
    and quiet: "\<forall>e. unread k0 e = []" "\<forall>e. unread k1 e = []"
    and rings: "ring_rep rq []" "ring_rep rp []" and d: "delay \<le> d" and ids: "i0 \<noteq> i1"
    and m: "enc_request c (i0, req0) = Inr m0" "enc_request c (i1, req1) = Inr m1"
    and r: "enc_response c (i1, echo_response d req1) = Inr r1"
    and size: "length m1 \<le> 65536" "length r1 \<le> 131072"
    and room: "ring_wp rq + length m1 + length m0 + 12 \<le> ring_cap rq" "ring_wp rp + length r1 + 8 \<le> ring_cap rp"
  shows "\<exists>h. hub_run c sys delay [Connected k0, Connected k1, Accepted (Inr 0),
        Task 1 (Start i1 req1), Task 1 (Call 0), Task 1 (Call 0), Task 0 (Start i0 req0), Task 0 (Call 0), Task 0 (Call 0),
        Task 0 Serve, Task 0 Serve, Task 0 (Work 0 d), Task 0 (Work 0 d),
        Task 0 Listen, Task 0 Listen, Task 0 Listen, Task 0 Listen] (hub_boot rq rp) = Some h
    \<and> running h = Running 0 \<and> ring_rep (hub_req_ring h) [m0] \<and> hub_workers h = [Replied i1]
    \<and> call_phase (calls (seen h 0) ! 0) = Waiting \<and> call_phase (calls (seen h 1) ! 0) = Waiting
    \<and> hub_quiet c sys delay h"
proof -
  let ?zq = "replicate 65536 0 :: bytes" and ?zp = "replicate 131072 0 :: bytes"
  define bq where "bq = m1 @ drop (length m1) ?zq"
  define bp where "bp = r1 @ drop (length r1) ?zp"
  have z: "length m1 \<le> length ?zq" "length ?zq \<le> isize_max" "length r1 \<le> length ?zp" "length ?zp \<le> isize_max"
    using size by (simp_all add: isize_max_def)
  obtain q1 q2 q3 where q: "ring_write rq m1 = (Ok (len_usize m1), q1)" "ring_write q1 m0 = (Ok (len_usize m0), q2)"
    "ring_read q2 ?zq = (Ok (len_usize m1), bq, q3)" "ring_rep q3 [m0]"
    unfolding bq_def by (rule ring_two_messages [OF rings(1) room(1) z(1,2)])
  obtain p1 p2 where p: "ring_write rp r1 = (Ok (len_usize r1), p1)" "ring_read p1 ?zp = (Ok (len_usize r1), bp, p2)"
    "\<And>b. ring_read p2 b = (Err BufferEmpty, b, p2)"
    unfolding bp_def by (rule ring_one_message [OF rings(2) room(2) z(3,4)]) blast
  have dec: "dec_request c m1 = Inr (i1, req1)" "dec_response c r1 = Inr (i1, echo_response d req1)"
    "length m1 \<le> isize_max" "length r1 \<le> isize_max"
    using codec_request [OF codec m(2)] codec_response [OF codec r] by auto
  have take: "take (unat (len_usize m1)) bq = m1" "take (unat (len_usize r1)) bp = r1"
    using dec by (simp_all add: bq_def bp_def)
  have sent: "\<exists>k' k2. sock_write_u8 sys e 1 k = (Inr (), k') \<and> sock_flush sys e k' = (Inr (), k2)
      \<and> unread k2 = (unread k)(peer e := unread k (peer e) @ [1])" for e k
    using up(1) sock_written [OF laws] sock_flushed [OF laws] unfolding sock_healthy_def
    by (metis snd_conv sum.simps(6))
  obtain w1 k1' where k1: "sock_write_u8 sys Gateway_End 1 k1 = (Inr (), w1)" "sock_flush sys Gateway_End w1 = (Inr (), k1')"
    "unread k1' Gateway_End = []"
    using sent [of Gateway_End k1] quiet(2) by auto
  obtain w2 k2 where k2: "sock_write_u8 sys Gateway_End 1 k0 = (Inr (), w2)" "sock_flush sys Gateway_End w2 = (Inr (), k2)"
    "unread k2 Backend_End = [1]" "unread k2 Gateway_End = []"
    using sent [of Gateway_End k0] quiet(1) by auto
  then have "unread k2 Backend_End \<noteq> []" by simp
  then obtain x k3 where k3: "sock_read_exact sys Backend_End k2 = (Some (Inr x), k3)"
    using up(1) unfolding sock_healthy_def by blast
  have u3: "unread k3 e = []" for e using sock_read [OF laws k3] k2 by (cases e) simp_all
  obtain k4 k5 where k5: "sock_write_u8 sys Backend_End 1 k3 = (Inr (), k4)" "sock_flush sys Backend_End k4 = (Inr (), k5)"
    "unread k5 Gateway_End = [1]" "unread k5 Backend_End = []"
    using sent [of Backend_End k3] u3 by auto
  then have "unread k5 Gateway_End \<noteq> []" by simp
  then obtain y k6 where k6: "sock_read_exact sys Gateway_End k5 = (Some (Inr y), k6)"
    using up(1) unfolding sock_healthy_def by blast
  have u6: "unread k6 e = []" for e using sock_read [OF laws k6] k5 by (cases e) simp_all
  let ?g = "\<lambda>k. gate_calling k i0 req0 Waiting Awaiting ?zp" and ?g1 = "gate_calling k1' i1 req1 Waiting Awaiting ?zp"
  have start: "hub_run c sys delay [Connected k0, Connected k1, Accepted (Inr 0)] (hub_boot rq rp)
      = Some (hub_pair rq rp Awaiting ?zq [] (gate_boot k0) (gate_boot k1))"
    by (simp add: hub_step_def uds_server_accept_def hub_boot_def hub_pair_def)
  note run = start hub_pair_send(2) [OF m(2) q(1) k1(1,2)] hub_pair_send(1) [OF m(1) q(2) k2(1,2)]
    hub_pair_serve [OF k3 q(3) take(1) dec(1)] hub_pair_work [OF r p(1) d k5(1,2)]
    hub_pair_listen [OF k6 p(2) take(2) dec(2) ids [symmetric] p(3)]
  let ?h = "hub_pair q3 p2 Awaiting bq [Replied i1] (gate_calling k6 i0 req0 Waiting Awaiting bp) ?g1"
  have "hub_run c sys delay ([Connected k0, Connected k1, Accepted (Inr 0)]
      @ [Task 1 (Start i1 req1), Task 1 (Call 0), Task 1 (Call 0)] @ [Task 0 (Start i0 req0), Task 0 (Call 0), Task 0 (Call 0)]
      @ [Task 0 Serve, Task 0 Serve] @ [Task 0 (Work 0 d), Task 0 (Work 0 d)]
      @ [Task 0 Listen, Task 0 Listen, Task 0 Listen, Task 0 Listen]) (hub_boot rq rp) = Some ?h"
    by (simp only: hub_run_append run bind.bind_lunit)
  moreover have "hub_quiet c sys delay ?h"
    by (rule hub_pair_quiet) (use up(2) u6 k1(3) in \<open>auto simp: sock_connected_def\<close>)
  ultimately show ?thesis using q(4)
    by (intro exI [of _ ?h]) (simp add: hub_pair_def seen_def gate_calling_def)
qed

lemma ref_enc_second:
  "enc_request ref_codec ([2], req_hi) = Inr (ref_put_request ([2], req_hi))" "length (ref_put_request ([2], req_hi)) = 35"
  by (simp_all add: ref_codec_def ref_put_request_def req_hi_def put_i64_def isize_max_def)

theorem uds_second_gateway_blocks_witness:
  "\<exists>as h. hub_run ref_codec ref_sock 1000 as (hub_boot ring_default ring_default) = Some h \<and> running h = Running 0
    \<and> call_phase (calls (seen h 0) ! 0) = Waiting \<and> hub_quiet ref_codec ref_sock 1000 h"
proof -
  have still: "\<forall>e. sock_quiet e = []" by (simp add: sock_quiet_def)
  from uds_second_gateway_blocks [where unread = "\<lambda>k. k", OF ref_codec_laws ref_sock_laws ref_sock_healthy ref_sock_connected
      still still ring_default_nat(1) ring_default_nat(1) le_refl _ ref_enc_second(1) ref_enc_hi(1) ref_enc_hi(3), of 1000]
  obtain h where "\<exists>as. hub_run ref_codec ref_sock 1000 as (hub_boot ring_default ring_default) = Some h" "running h = Running 0"
    "call_phase (calls (seen h 0) ! 0) = Waiting" "hub_quiet ref_codec ref_sock 1000 h"
    by (auto simp: ref_enc_hi ref_enc_second ring_default_nat simp del: hub_run.simps)
  then show ?thesis by blast
qed

end
