(* ===== verification/Metrics_Properties.thy ===== *)
theory Metrics_Properties
  imports Metrics
begin

section \<open>What the latency metrics report\<close>

text \<open>
  The histogram counts the latencies observed, the percentiles are bounds of the rank they
  stand for and come in order, and the rank of a short run is rounded down to zero.
\<close>

subsection \<open>Targets\<close>

lemma p50_target:
  assumes "0 < unat w" "unat w < 2 ^ 47"
  shows "unat (percentile_target w (Finite 50)) = unat w div 2"
proof -
  define n where "n = unat w"
  have n: "0 < n" "n < 2 ^ 47" using assms by (simp_all add: n_def)
  have big: "(2::rat) ^ 53 < pow2 1024"
  proof -
    have "(2::rat) ^ 53 = pow2 53" by (simp add: pow2_def)
    also have "\<dots> < pow2 (53 + 1)" unfolding pow2_Suc using pow2_pos [of 53] by linarith
    also have "\<dots> \<le> pow2 1024" by (rule pow2_mono) simp
    finally show ?thesis .
  qed
  have lt: "of_nat k < pow2 1024" if "k < 2 ^ 53" for k
  proof -
    have "(of_nat k :: rat) < of_nat (2 ^ 53)" using that by (simp only: of_nat_less_iff)
    with big show ?thesis by simp
  qed
  have a: "u64_as_f64 w = Finite (of_nat n)"
    unfolding u64_as_f64_def n_def [symmetric] using n lt [of n] by (intro round_exact [of n 0]) auto
  have b: "round_f64 (of_nat n * 50) = Finite (of_nat n * 50)"
    using n lt [of "n * 50"] by (intro round_exact [of "n * 50" 0]) auto
  have half: "(of_nat n * 50 / 100 :: rat) = of_nat n * pow2 (- 1)" by (simp add: pow2_def)
  have "of_nat n * pow2 (- 1) < pow2 1024" using lt [of n] n by (simp add: pow2_def)
  then have c: "round_f64 (of_nat n * 50 / 100) = Finite (of_nat n * pow2 (- 1))"
    unfolding half using n by (intro round_exact [of n "- 1"]) auto
  have d: "of_nat n * pow2 (- 1) = (of_nat n / of_nat 2 :: rat)" by (simp add: pow2_def)
  have e: "\<lfloor>of_nat n / of_nat 2 :: rat\<rfloor> = int (n div 2)" by (rule floor_divide_of_nat_eq)
  have f: "percentile_target w (Finite 50) = f64_as_u64 (Finite (of_nat n / of_nat 2))"
    using a b c d by (simp add: percentile_target_def)
  have g: "\<not> 2 ^ 64 \<le> (of_nat n / of_nat 2 :: rat)"
  proof -
    have "(of_nat n :: rat) < of_nat (2 ^ 47)" using n(2) by (simp only: of_nat_less_iff)
    then show ?thesis by simp
  qed
  have "f64_as_u64 (Finite (of_nat n / of_nat 2)) = of_nat (n div 2)"
    using g by (simp only: f64_as_u64.simps e if_False nat_int)
  moreover have "unat (of_nat (n div 2) :: u64) = n div 2" using n by (intro unat_of_nat_small) simp
  ultimately show ?thesis unfolding f n_def by simp
qed

lemma target_mono:
  assumes "0 \<le> p" "p \<le> q" "q \<le> 128"
  shows "unat (percentile_target w (Finite p)) \<le> unat (percentile_target w (Finite q))"
proof -
  have "unat w \<le> 2 ^ 64" using unsigned_less [of w, where 'a = nat] by simp
  then have "(of_nat (unat w) :: rat) \<le> of_nat (2 ^ 64)" by (simp only: of_nat_le_iff)
  then have w64: "(of_nat (unat w) :: rat) \<le> pow2 64" by (simp add: pow2_def)
  obtain n where n: "u64_as_f64 w = Finite n" "0 \<le> n" "n \<le> pow2 64"
    using round_f64_finite [OF of_nat_0_le_iff w64] by (auto simp: u64_as_f64_def)
  have p71: "pow2 71 = pow2 64 * 128" by (simp add: pow2_def)
  have le: "n * p \<le> n * q" "n * q \<le> pow2 71"
    unfolding p71 using n assms by (intro mult_left_mono mult_mono; simp)+
  have nn: "0 \<le> n * p" using n assms by simp
  obtain a where a: "round_f64 (n * p) = Finite a" "0 \<le> a" "a \<le> pow2 71"
    using round_f64_finite [of "n * p" 71] nn le by auto
  obtain b where b: "round_f64 (n * q) = Finite b" "0 \<le> b" "b \<le> pow2 71"
    using round_f64_finite [of "n * q" 71] nn le by auto
  have ab: "a \<le> b" using round_f64_mono(2) [OF nn le(1) a(1) b(1)] .
  have ab': "0 \<le> a / 100" "a / 100 \<le> b / 100" "a / 100 \<le> pow2 71" "b / 100 \<le> pow2 71"
    using a b ab by simp_all
  obtain c where c: "round_f64 (a / 100) = Finite c" using round_f64_finite [of "a / 100" 71] ab' by auto
  obtain d where d: "round_f64 (b / 100) = Finite d" using round_f64_finite [of "b / 100" 71] ab' by auto
  have "0 \<le> c" "c \<le> d" using round_f64_mono [OF ab'(1,2) c d] .
  then have "f64_as_u64 (Finite c) \<le> f64_as_u64 (Finite d)" by (rule f64_as_u64_mono)
  then show ?thesis using n a b c d by (simp add: percentile_target_def word_le_nat_alt)
qed

lemma p999_rank:
  obtains r where "round_f64 (999 / 10) = Finite r" "99 \<le> r" "r \<le> 3197 / 32"
proof -
  have "999 / 10 \<le> pow2 7" by (simp add: pow2_def)
  then obtain r where r: "round_f64 (999 / 10) = Finite r" using round_f64_finite [of "999 / 10" 7] by auto
  have lo: "round_f64 99 = Finite 99" by (rule small_exact [of 99 0]) auto
  have hi: "round_f64 (3197 / 32) = Finite (3197 / 32)"
    by (rule small_exact [of 3197 "- 5"]) (auto simp: pow2_def)
  have "99 \<le> r" by (rule round_f64_mono(2) [OF _ _ lo r]) auto
  moreover have "r \<le> 3197 / 32" by (rule round_f64_mono(2) [OF _ _ r hi]) auto
  ultimately show ?thesis using that r by blast
qed

lemma percentile_in_order:
  assumes obs: "observe_all xs LatencyHistogram_new = Some h" and len: "length xs < 2 ^ 64"
    and pq: "0 \<le> p" "p \<le> q" "q \<le> 128"
  shows "\<exists>a b. percentile (Finite p) h = Some (Finite a) \<and> percentile (Finite q) h = Some (Finite b) \<and> a \<le> b"
proof -
  have inv: "hist_inv xs h" using observe_all_new [OF len] obs by fastforce
  show ?thesis
  proof (cases "xs = []")
    case True
    then have "total h = 0" using inv by (simp add: hist_inv_def unat_eq_0)
    then show ?thesis by (simp add: percentile_def)
  next
    case False
    obtain i where i: "percentile (Finite p) h = Some (bucket_bound i)"
        "bound_index xs (unat (percentile_target (total h) (Finite p))) i"
      using percentile_index [OF inv False len] by blast
    obtain j where j: "percentile (Finite q) h = Some (bucket_bound j)"
        "bound_index xs (unat (percentile_target (total h) (Finite q))) j"
      using percentile_index [OF inv False len] by blast
    have "i \<le> j" using bound_index_mono [OF i(2) j(2) target_mono [OF pq]] .
    then have "f64_le (bucket_bound i) (bucket_bound j)" by (rule bound_mono) (simp add: bucket_bound_def)
    then show ?thesis using i j by (simp add: bucket_bound_def)
  qed
qed

lemma one_sample_target: "unat (percentile_target 1 (Finite (3197 / 32))) = 0"
proof -
  have one: "u64_as_f64 1 = Finite 1"
    using small_exact [of 1 0 1] by (simp add: u64_as_f64_def)
  have a: "round_f64 (3197 / 32) = Finite (3197 / 32)"
    by (rule small_exact [of 3197 "- 5"]) (simp_all add: pow2_def)
  have hi: "round_f64 (2047 / 2048) = Finite (2047 / 2048)"
    by (rule small_exact [of 2047 "- 11"]) (simp_all add: pow2_def)
  have "3197 / 32 / 100 \<le> pow2 0" by simp
  then obtain c where c: "round_f64 (3197 / 32 / 100) = Finite c"
    using round_f64_finite [of "3197 / 32 / 100" 0] by auto
  have "0 \<le> c" "c \<le> 2047 / 2048" by (rule round_f64_mono [OF _ _ c hi]; simp)+
  then have "\<lfloor>c\<rfloor> = 0" by (intro floor_unique) simp_all
  then have "f64_as_u64 (Finite c) = 0" using \<open>c \<le> 2047 / 2048\<close> by simp
  then show ?thesis using a c by (simp add: percentile_target_def one)
qed

lemma one_sample_percentile:
  assumes "observe x LatencyHistogram_new = Some h" "0 \<le> p" "p \<le> 3197 / 32"
  shows "percentile (Finite p) h = Some (round_f64 (1 / 10 ^ 6))"
proof -
  have inv: "hist_inv [x] h" using observe_inv [OF hist_inv_new, of x] assms(1) by auto
  then have "unat (total h) = unat (1 :: u64)" by (simp add: hist_inv_def)
  then have "total h = 1" by (simp only: word_unat_eq_iff)
  then have "unat (percentile_target (total h) (Finite p)) = 0"
    using target_mono [of p "3197 / 32" 1] one_sample_target assms(2,3) by simp
  then obtain i where i: "percentile (Finite p) h = Some (bucket_bound i)" "bound_index [x] 0 i"
    using percentile_index [OF inv, of "Finite p"] by auto
  then have "i = 0" unfolding bound_index_def by (cases i) auto
  with i(1) show ?thesis unfolding micro_bound by (simp add: bucket_bound_def)
qed

subsection \<open>Properties\<close>

text \<open>C25. After any run of observations the total is their number, the sum is the (wrapping) sum
  of their nanoseconds, and the buckets up to a bound hold exactly the latencies that are at most
  that bound; no observation panics.\<close>

theorem histogram_counts:
  assumes "length xs < 2 ^ 64"
  shows "\<exists>h. observe_all xs LatencyHistogram_new = Some h
    \<and> unat (total h) = length xs \<and> lat_sum h = sum_list (map nanos xs)
    \<and> bucket_bounds h = map bucket_bound [0..<25]
    \<and> (\<forall>i < 25. (\<Sum>j \<le> i. unat (buckets h ! j)) = count_le xs (bucket_bound i))"
proof -
  obtain h where h: "observe_all xs LatencyHistogram_new = Some h" and inv: "hist_inv xs h"
    using observe_all_new [OF assms] .
  have "(\<Sum>j \<le> i. unat (buckets h ! j)) = count_le xs (bucket_bound i)" if "i < 25" for i
  proof -
    have "(\<Sum>j \<le> i. unat (buckets h ! j)) = (\<Sum>j \<le> i. length (filter (in_bucket j) xs))"
      using inv that by (intro sum.cong) (simp_all add: hist_inv_def)
    with bucket_sum [OF that] show ?thesis by simp
  qed
  with h inv show ?thesis unfolding hist_inv_def by blast
qed

lemma histogram_counts_witness:
  "\<exists>h. observe_all [Finite 0, NaN, Finite 20] LatencyHistogram_new = Some h
    \<and> unat (total h) = 3 \<and> unat (buckets h ! 0) = 1"
proof -
  have len: "length [Finite 0, NaN, Finite 20] < 2 ^ 64" by simp
  obtain h where h: "observe_all [Finite 0, NaN, Finite 20] LatencyHistogram_new = Some h"
      "unat (total h) = length [Finite 0, NaN, Finite 20]"
      "\<forall>i < 25. (\<Sum>j \<le> i. unat (buckets h ! j)) = count_le [Finite 0, NaN, Finite 20] (bucket_bound i)"
    using histogram_counts [OF len] by blast
  have "(\<Sum>j \<le> 0. unat (buckets h ! j)) = count_le [Finite 0, NaN, Finite 20] (bucket_bound 0)"
    using h(3) by (metis zero_less_numeral)
  then have "unat (buckets h ! 0) = 1" by (simp add: count_le_def bucket_bound_def bound0_def)
  with h show ?thesis by auto
qed

text \<open>While fewer than \<open>2 ^ 47\<close> latencies were observed, p50 does not panic and is the first
  bound that at least half of the latencies (rounded down) do not exceed, or the last bound when
  none is.\<close>

theorem p50_rank:
  assumes "observe_all xs LatencyHistogram_new = Some h" "xs \<noteq> []" "length xs < 2 ^ 47"
  shows "\<exists>i < 25. p50 h = Some (bucket_bound i)
    \<and> (\<forall>j < i. count_le xs (bucket_bound j) < length xs div 2)
    \<and> (length xs div 2 \<le> count_le xs (bucket_bound i) \<or> i = 24)"
proof -
  have len: "length xs < 2 ^ 64" using assms(3) by simp
  have inv: "hist_inv xs h" using observe_all_new [OF len] assms(1) by fastforce
  then have n: "unat (total h) = length xs" by (simp add: hist_inv_def)
  then have "unat (percentile_target (total h) (Finite 50)) = length xs div 2"
    using p50_target [of "total h"] assms(2,3) by simp
  with percentile_index [OF inv assms(2) len, of "Finite 50"] show ?thesis
    by (auto simp: p50_def bound_index_def)
qed

lemma p50_rank_witness:
  "\<exists>h. observe_all [Finite 20, Finite 0, Finite 0] LatencyHistogram_new = Some h \<and> p50 h = Some (bucket_bound 0)"
proof -
  have len: "length [Finite 20, Finite 0, Finite 0] < 2 ^ 64" by simp
  obtain h where h: "observe_all [Finite 20, Finite 0, Finite 0] LatencyHistogram_new = Some h"
    using observe_all_new [OF len] .
  then obtain i where i: "p50 h = Some (bucket_bound i)"
      "\<forall>j < i. count_le [Finite 20, Finite 0, Finite 0] (bucket_bound j) < length [Finite 20, Finite 0, Finite 0] div 2"
    using p50_rank [OF h] by auto
  have "count_le [Finite 20, Finite 0, Finite 0] (bucket_bound 0) = 2"
    by (simp add: count_le_def bucket_bound_def bound0_def)
  with i(2) have "i = 0" by (cases i) auto
  with h i(1) show ?thesis by auto
qed

text \<open>C27. Whatever was observed, the five percentiles are finite and come in order.\<close>

theorem percentiles_ordered:
  assumes "observe_all xs LatencyHistogram_new = Some h" "length xs < 2 ^ 64"
  shows "\<exists>a b c d e. p50 h = Some (Finite a) \<and> p90 h = Some (Finite b) \<and> p95 h = Some (Finite c)
    \<and> p99 h = Some (Finite d) \<and> p999 h = Some (Finite e) \<and> a \<le> b \<and> b \<le> c \<and> c \<le> d \<and> d \<le> e"
proof -
  obtain r where r: "round_f64 (999 / 10) = Finite r" "99 \<le> r" "r \<le> 3197 / 32" using p999_rank .
  note ord = percentile_in_order [OF assms]
  obtain a b where ab: "p50 h = Some (Finite a)" "p90 h = Some (Finite b)" "a \<le> b"
    using ord [of 50 90] by (auto simp: p50_def p90_def)
  obtain c where c: "p95 h = Some (Finite c)" "b \<le> c"
    using ord [of 90 95] ab(2) by (auto simp: p90_def p95_def)
  obtain d where d: "p99 h = Some (Finite d)" "c \<le> d"
    using ord [of 95 99] c(1) by (auto simp: p95_def p99_def)
  obtain e where e: "p999 h = Some (Finite e)" "d \<le> e"
    using ord [of 99 r] d(1) r by (auto simp: p99_def p999_def)
  show ?thesis using ab c d e by blast
qed

lemma percentiles_ordered_witness:
  "\<exists>h a e. observe_all [Finite 1, PosInf] LatencyHistogram_new = Some h
    \<and> p50 h = Some (Finite a) \<and> p999 h = Some (Finite e) \<and> a \<le> e"
proof -
  have len: "length [Finite 1, PosInf] < 2 ^ 64" by simp
  obtain h where h: "observe_all [Finite 1, PosInf] LatencyHistogram_new = Some h"
    using observe_all_new [OF len] .
  with percentiles_ordered [OF h len] show ?thesis by (meson order_trans)
qed

text \<open>After one single observation every percentile reports the smallest bound, one
  microsecond, however long the request took: the rank is rounded down to zero, and the empty
  first bucket already reaches it.\<close>

theorem one_sample_percentiles:
  assumes "observe x LatencyHistogram_new = Some h"
  shows "p50 h = Some (round_f64 (1 / 10 ^ 6)) \<and> p90 h = Some (round_f64 (1 / 10 ^ 6))
    \<and> p95 h = Some (round_f64 (1 / 10 ^ 6)) \<and> p99 h = Some (round_f64 (1 / 10 ^ 6))
    \<and> p999 h = Some (round_f64 (1 / 10 ^ 6))"
proof -
  obtain r where r: "round_f64 (999 / 10) = Finite r" "99 \<le> r" "r \<le> 3197 / 32" using p999_rank .
  note one = one_sample_percentile [OF assms]
  have "p50 h = Some (round_f64 (1 / 10 ^ 6))" unfolding p50_def by (rule one) simp_all
  moreover have "p90 h = Some (round_f64 (1 / 10 ^ 6))" unfolding p90_def by (rule one) simp_all
  moreover have "p95 h = Some (round_f64 (1 / 10 ^ 6))" unfolding p95_def by (rule one) simp_all
  moreover have "p99 h = Some (round_f64 (1 / 10 ^ 6))" unfolding p99_def by (rule one) simp_all
  moreover have "p999 h = Some (round_f64 (1 / 10 ^ 6))" unfolding p999_def r(1) using r by (intro one) simp_all
  ultimately show ?thesis by blast
qed

lemma one_sample_percentiles_witness:
  "\<exists>h. observe (Finite 20) LatencyHistogram_new = Some h \<and> p99 h = Some (round_f64 (1 / 10 ^ 6))"
proof -
  obtain h where h: "observe (Finite 20) LatencyHistogram_new = Some h"
    using observe_inv [OF hist_inv_new, of "Finite 20"] by auto
  then show ?thesis using one_sample_percentiles [OF h] by blast
qed

end
