(* ===== verification/Metrics_Concurrent.thy ===== *)
theory Metrics_Concurrent
  imports Metrics_Properties "HOL-Library.Multiset"
begin

section \<open>Concurrent observers and readers of a histogram\<close>

text \<open>
  \<^verbatim>\<open>observe\<close> and \<^verbatim>\<open>percentile\<close> take a shared reference and no lock: several threads may run them at
  once. Here both are cut at their atomic accesses. A \<^verbatim>\<open>fetch_add\<close> acts on the latest value of its
  counter. A relaxed load may lag behind: it returns some value the counter has had, taken from
  \<open>past\<close>, the histogram after every addition so far, and two loads of one reader may lag differently.
\<close>

subsection \<open>The two operations, access by access\<close>

datatype observer = O_total f64 | O_sum f64 | O_bucket f64 | O_done f64 | O_panicked f64

definition observer_step :: "observer \<Rightarrow> LatencyHistogram \<Rightarrow> observer \<times> LatencyHistogram" where
  "observer_step ob h =
     (case ob of
        O_total x \<Rightarrow> (O_sum x, h\<lparr>total := total h + 1\<rparr>)
      | O_sum x \<Rightarrow> (O_bucket x, h\<lparr>lat_sum := lat_sum h + nanos x\<rparr>)
      | O_bucket x \<Rightarrow>
          (case first_le x (bucket_bounds h) 0 of
             None \<Rightarrow> (O_done x, h)
           | Some i \<Rightarrow>
               if i < length (buckets h) then (O_done x, h\<lparr>buckets := (buckets h)[i := buckets h ! i + 1]\<rparr>)
               else (O_panicked x, h))
      | O_done x \<Rightarrow> (O_done x, h)
      | O_panicked x \<Rightarrow> (O_panicked x, h))"

datatype percentile_reader = R_total f64 | R_scan u64 u64 nat | R_done f64 | R_panicked

text \<open>The bounds are no atomics; only the counters are loaded.\<close>

definition percentile_step :: "percentile_reader \<Rightarrow> LatencyHistogram \<Rightarrow> percentile_reader" where
  "percentile_step r h =
     (case r of
        R_total p \<Rightarrow> if total h = 0 then R_done (Finite 0) else R_scan (percentile_target (total h) p) 0 0
      | R_scan target cumulative i \<Rightarrow>
          if i < length (buckets h) then
            (let cumulative' = cumulative + buckets h ! i in
             if target \<le> cumulative'
             then (if i < length (bucket_bounds h) then R_done (bucket_bounds h ! i) else R_panicked)
             else R_scan target cumulative' (Suc i))
          else R_done (if bucket_bounds h = [] then Finite 0 else last (bucket_bounds h))
      | _ \<Rightarrow> r)"

subsection \<open>Any number of both\<close>

record live =
  hist :: LatencyHistogram
  past :: "LatencyHistogram list"
  observers :: "observer list"
  readers :: "percentile_reader list"

datatype live_action =
    Call_observe f64
  | Step_observer nat
  | Call_percentile f64
  | Step_reader nat nat

text \<open>\<open>Step_reader j n\<close> loads the value after \<open>n\<close> additions.\<close>

definition live_step :: "live_action \<Rightarrow> live \<Rightarrow> live option" where
  "live_step a s =
     (case a of
        Call_observe x \<Rightarrow> Some (s\<lparr>observers := observers s @ [O_total x]\<rparr>)
      | Step_observer j \<Rightarrow>
          (if j < length (observers s) then
             (let (ob, h) = observer_step (observers s ! j) (hist s) in
              Some (s\<lparr>hist := h, past := past s @ [h], observers := (observers s)[j := ob]\<rparr>))
           else None)
      | Call_percentile p \<Rightarrow> Some (s\<lparr>readers := readers s @ [R_total p]\<rparr>)
      | Step_reader j n \<Rightarrow>
          (if j < length (readers s) \<and> n < length (past s)
           then Some (s\<lparr>readers := (readers s)[j := percentile_step (readers s ! j) (past s ! n)]\<rparr>)
           else None))"

definition live_init :: live where
  "live_init = \<lparr>hist = LatencyHistogram_new, past = [LatencyHistogram_new], observers = [], readers = []\<rparr>"

inductive live_reach :: "live \<Rightarrow> bool" where
  live_start: "live_reach live_init"
| live_next: "live_reach s \<Longrightarrow> live_step a s = Some t \<Longrightarrow> live_reach t"

subsection \<open>Alone, the steps are the operations\<close>

lemma observer_steps_are_observe:
  "(case observe x h of
      Some h' \<Rightarrow> (O_done x, h')
    | None \<Rightarrow> (O_panicked x, h\<lparr>total := total h + 1, lat_sum := lat_sum h + nanos x\<rparr>))
   = (let (o1, h1) = observer_step (O_total x) h; (o2, h2) = observer_step o1 h1 in observer_step o2 h2)"
  by (auto simp: observer_step_def observe_def Let_def split: option.split)

lemma scan_steps_are_loop:
  assumes "i \<le> length (buckets h)" "length (buckets h) = i + n"
  shows "((\<lambda>r. percentile_step r h) ^^ Suc n) (R_scan target cumulative i) =
    (case percentile_loop target cumulative (drop i (buckets h)) i of
       Some j \<Rightarrow> if j < length (bucket_bounds h) then R_done (bucket_bounds h ! j) else R_panicked
     | None \<Rightarrow> R_done (if bucket_bounds h = [] then Finite 0 else last (bucket_bounds h)))"
  using assms
proof (induction n arbitrary: i cumulative)
  case 0
  then show ?case by (simp add: percentile_step_def)
next
  case (Suc n)
  have stays: "((\<lambda>r. percentile_step r h) ^^ m) (R_done v) = R_done v"
    "((\<lambda>r. percentile_step r h) ^^ m) R_panicked = R_panicked" for m v
    by (induction m) (simp_all add: percentile_step_def)
  have i: "i < length (buckets h)" using Suc.prems by simp
  then have d: "drop i (buckets h) = buckets h ! i # drop (Suc i) (buckets h)" by (rule Cons_nth_drop_Suc [symmetric])
  have "((\<lambda>r. percentile_step r h) ^^ Suc (Suc n)) (R_scan target cumulative i)
      = ((\<lambda>r. percentile_step r h) ^^ Suc n) (percentile_step (R_scan target cumulative i) h)"
    by (simp only: funpow_Suc_right comp_apply)
  also have "\<dots> = (case percentile_loop target cumulative (drop i (buckets h)) i of
       Some j \<Rightarrow> if j < length (bucket_bounds h) then R_done (bucket_bounds h ! j) else R_panicked
     | None \<Rightarrow> R_done (if bucket_bounds h = [] then Finite 0 else last (bucket_bounds h)))"
  proof (cases "target \<le> cumulative + buckets h ! i")
    case True
    then have "percentile_step (R_scan target cumulative i) h
        = (if i < length (bucket_bounds h) then R_done (bucket_bounds h ! i) else R_panicked)"
      using i by (simp add: percentile_step_def Let_def)
    moreover have "percentile_loop target cumulative (drop i (buckets h)) i = Some i"
      using True by (simp add: d)
    ultimately show ?thesis by (simp add: stays del: funpow.simps)
  next
    case False
    then have "percentile_step (R_scan target cumulative i) h = R_scan target (cumulative + buckets h ! i) (Suc i)"
      using i by (simp add: percentile_step_def Let_def)
    moreover have "Suc i \<le> length (buckets h)" "length (buckets h) = Suc i + n" using Suc.prems by simp_all
    note Suc.IH [OF this, of "cumulative + buckets h ! i"]
    ultimately show ?thesis using False by (simp only: d percentile_loop.simps Let_def if_False)
  qed
  finally show ?case .
qed

lemma reader_steps_are_percentile:
  "((\<lambda>r. percentile_step r h) ^^ Suc (Suc (length (buckets h)))) (R_total p)
    = (case percentile p h of Some v \<Rightarrow> R_done v | None \<Rightarrow> R_panicked)"
proof (cases "total h = 0")
  case True
  have "((\<lambda>r. percentile_step r h) ^^ m) (R_done v) = R_done v" for m v
    by (induction m) (simp_all add: percentile_step_def)
  with True show ?thesis by (simp add: funpow_Suc_right percentile_def percentile_step_def del: funpow.simps)
next
  case False
  then have "percentile_step (R_total p) h = R_scan (percentile_target (total h) p) 0 0" by (simp add: percentile_step_def)
  moreover note scan_steps_are_loop [of 0 h "length (buckets h)" "percentile_target (total h) p" 0]
  ultimately show ?thesis
    using False by (subst funpow_Suc_right) (simp add: percentile_def split: option.splits del: funpow.simps)
qed

subsection \<open>The invariant\<close>

text \<open>The histogram that has counted, summed up and filed given latencies, each in any order.\<close>

definition tally :: "f64 list \<Rightarrow> f64 list \<Rightarrow> f64 list \<Rightarrow> LatencyHistogram" where
  "tally counted summed filed =
     \<lparr>buckets = map (\<lambda>i. of_nat (length (filter (in_bucket i) filed))) [0..<25],
      bucket_bounds = map bucket_bound [0..<25],
      total = of_nat (length counted), lat_sum = sum_list (map nanos summed)\<rparr>"

lemma tally_new: "LatencyHistogram_new = tally [] [] []"
  unfolding LatencyHistogram_new_def bounds_eq Let_def by (simp add: tally_def del: upt.simps)

lemma tally_mset:
  assumes "mset counted = mset counted'" "mset summed = mset summed'" "mset filed = mset filed'"
  shows "tally counted summed filed = tally counted' summed' filed'"
proof -
  have "sum_list (map nanos summed) = sum_list (map nanos summed')"
    using assms(2) by (metis mset_map sum_mset_sum_list)
  moreover have "length (filter (in_bucket i) filed) = length (filter (in_bucket i) filed')" for i
    using assms(3) by (metis mset_filter size_mset)
  ultimately show ?thesis using mset_eq_length [OF assms(1)] by (simp add: tally_def)
qed

text \<open>Filing one more latency changes its bucket, if there is one.\<close>

lemma tally_file:
  "observer_step (O_bucket x) (tally cs ss fs) = (O_done x, tally cs ss (fs @ [x]))"
proof (cases "first_le x (map bucket_bound [0..<25]) 0")
  case None
  then have "\<not> in_bucket i x" for i by (simp add: in_bucket_def)
  with None show ?thesis by (simp add: observer_step_def tally_def del: upt.simps)
next
  case (Some i)
  then have i: "i < 25" using first_le_Some [OF Some] by simp
  have b: "in_bucket j x \<longleftrightarrow> j = i" for j using Some by (auto simp: in_bucket_def)
  have "(map (\<lambda>j. of_nat (length (filter (in_bucket j) fs))) [0..<25])
      [i := map (\<lambda>j. of_nat (length (filter (in_bucket j) fs))) [0..<25] ! i + 1]
    = map (\<lambda>j. of_nat (length (filter (in_bucket j) (fs @ [x]))) :: u64) [0..<25]"
    using i by (intro nth_equalityI) (auto simp: b nth_list_update simp del: upt.simps)
  with Some i show ?thesis by (simp add: observer_step_def tally_def del: upt.simps)
qed

lemma observe_tally: "observe x (tally xs xs xs) = Some (tally (xs @ [x]) (xs @ [x]) (xs @ [x]))"
proof -
  have 1: "observer_step (O_total x) (tally xs xs xs) = (O_sum x, tally (xs @ [x]) xs xs)"
    and 2: "observer_step (O_sum x) (tally (xs @ [x]) xs xs) = (O_bucket x, tally (xs @ [x]) (xs @ [x]) xs)"
    by (simp_all add: observer_step_def tally_def)
  show ?thesis
    using observer_steps_are_observe [of x "tally xs xs xs"]
    by (simp add: 1 2 tally_file split: option.splits)
qed

lemma observe_all_tally: "observe_all xs (tally ys ys ys) = Some (tally (ys @ xs) (ys @ xs) (ys @ xs))"
  by (induction xs arbitrary: ys) (simp_all add: observe_tally)

fun observed :: "observer \<Rightarrow> f64" where
  "observed (O_total x) = x"
| "observed (O_sum x) = x"
| "observed (O_bucket x) = x"
| "observed (O_done x) = x"
| "observed (O_panicked x) = x"

text \<open>Which of the three additions a thread has behind it.\<close>

definition has_counted :: "observer \<Rightarrow> bool" where
  "has_counted ob \<longleftrightarrow> (\<forall>x. ob \<noteq> O_total x)"

definition has_summed :: "observer \<Rightarrow> bool" where
  "has_summed ob \<longleftrightarrow> has_counted ob \<and> (\<forall>x. ob \<noteq> O_sum x)"

definition has_filed :: "observer \<Rightarrow> bool" where
  "has_filed ob \<longleftrightarrow> has_summed ob \<and> (\<forall>x. ob \<noteq> O_bucket x)"

definition behind :: "(observer \<Rightarrow> bool) \<Rightarrow> observer list \<Rightarrow> f64 list" where
  "behind P obs = map observed (filter P obs)"

lemma mset_behind_update:
  assumes "j < length obs" "observed ob = observed (obs ! j)"
  shows "\<not> P (obs ! j) \<Longrightarrow> P ob \<Longrightarrow> mset (behind P (obs[j := ob])) = mset (behind P obs @ [observed ob])"
    and "P ob = P (obs ! j) \<Longrightarrow> mset (behind P (obs[j := ob])) = mset (behind P obs)"
proof -
  have obs: "obs = take j obs @ obs ! j # drop (Suc j) obs" using assms(1) by (rule id_take_nth_drop)
  have upd: "obs[j := ob] = take j obs @ ob # drop (Suc j) obs" using assms(1) by (rule upd_conv_take_nth_drop)
  show "\<not> P (obs ! j) \<Longrightarrow> P ob \<Longrightarrow> mset (behind P (obs[j := ob])) = mset (behind P obs @ [observed ob])"
    by (subst (2) obs) (simp add: upd behind_def)
  show "P ob = P (obs ! j) \<Longrightarrow> mset (behind P (obs[j := ob])) = mset (behind P obs)"
    using assms(2) by (subst (2) obs) (simp add: upd behind_def)
qed

definition reader_ok :: "percentile_reader \<Rightarrow> bool" where
  "reader_ok r \<longleftrightarrow> (case r of
      R_done v \<Rightarrow> v = Finite 0 \<or> v \<in> bucket_bound ` {0..<25} | R_panicked \<Rightarrow> False | _ \<Rightarrow> True)"

definition live_inv :: "live \<Rightarrow> bool" where
  "live_inv s \<longleftrightarrow>
     hist s = tally (behind has_counted (observers s)) (behind has_summed (observers s)) (behind has_filed (observers s))
   \<and> (\<forall>ob \<in> set (observers s). \<forall>x. ob \<noteq> O_panicked x)
   \<and> (\<forall>h \<in> set (past s). length (buckets h) = 25 \<and> bucket_bounds h = map bucket_bound [0..<25])
   \<and> (\<forall>r \<in> set (readers s). reader_ok r)"

lemmas progress_defs = has_counted_def has_summed_def has_filed_def

lemma tally_lengths [simp]:
  "length (buckets (tally cs ss fs)) = 25" "bucket_bounds (tally cs ss fs) = map bucket_bound [0..<25]"
  by (simp_all add: tally_def del: upt.simps)

text \<open>One addition of one thread.\<close>

lemma observer_step_tally:
  assumes j: "j < length obs" and step: "observer_step (obs ! j) (tally (behind has_counted obs) (behind has_summed obs)
      (behind has_filed obs)) = (ob, h)" and fine: "\<forall>x. obs ! j \<noteq> O_panicked x"
  shows "h = tally (behind has_counted (obs[j := ob])) (behind has_summed (obs[j := ob])) (behind has_filed (obs[j := ob]))
    \<and> (\<forall>x. ob \<noteq> O_panicked x)"
proof (cases "obs ! j")
  case (O_total x)
  then have ob: "ob = O_sum x" "h = tally (behind has_counted obs @ [x]) (behind has_summed obs) (behind has_filed obs)"
    using step by (auto simp: observer_step_def tally_def add.commute)
  show ?thesis unfolding ob
    by (intro conjI tally_mset) (simp_all add: mset_behind_update [OF j] O_total progress_defs)
next
  case (O_sum x)
  then have ob: "ob = O_bucket x" "h = tally (behind has_counted obs) (behind has_summed obs @ [x]) (behind has_filed obs)"
    using step by (simp_all add: observer_step_def tally_def)
  show ?thesis unfolding ob
    by (intro conjI tally_mset) (simp_all add: mset_behind_update [OF j] O_sum progress_defs)
next
  case (O_bucket x)
  then have ob: "ob = O_done x" "h = tally (behind has_counted obs) (behind has_summed obs) (behind has_filed obs @ [x])"
    using step tally_file [of x] by simp_all
  show ?thesis unfolding ob
    by (intro conjI tally_mset) (simp_all add: mset_behind_update [OF j] O_bucket progress_defs)
next
  case (O_done x)
  then have "ob = obs ! j" "h = tally (behind has_counted obs) (behind has_summed obs) (behind has_filed obs)"
    using step by (simp_all add: observer_step_def)
  moreover from this have "obs[j := ob] = obs" by simp
  moreover have "\<forall>x. ob \<noteq> O_panicked x" using \<open>ob = obs ! j\<close> O_done by simp
  ultimately show ?thesis by (simp only:) simp
next
  case (O_panicked x)
  with fine show ?thesis by blast
qed

lemma percentile_step_ok:
  assumes "reader_ok r" "length (buckets h) = 25" "bucket_bounds h = map bucket_bound [0..<25]"
  shows "reader_ok (percentile_step r h)"
proof (cases r)
  case (R_scan target cumulative i)
  have "last (map bucket_bound [0..<25]) = bucket_bound 24" by (simp add: last_map)
  with R_scan assms(2,3) show ?thesis by (simp add: percentile_step_def reader_ok_def Let_def del: upt.simps)
qed (use assms in \<open>simp_all add: percentile_step_def reader_ok_def\<close>)

lemma live_step_inv:
  assumes inv: "live_inv s" and step: "live_step a s = Some t"
  shows "live_inv t"
proof (cases a)
  case (Call_observe x)
  with assms show ?thesis by (auto simp: live_step_def live_inv_def behind_def progress_defs)
next
  case (Step_observer j)
  obtain ob h where oh: "observer_step (observers s ! j) (hist s) = (ob, h)" by fastforce
  with step Step_observer have j: "j < length (observers s)"
    and t: "t = s\<lparr>hist := h, past := past s @ [h], observers := (observers s)[j := ob]\<rparr>"
    by (simp_all add: live_step_def split: if_splits)
  have fine: "\<forall>x. observers s ! j \<noteq> O_panicked x" using inv j by (simp add: live_inv_def)
  from inv oh have "observer_step (observers s ! j) (tally (behind has_counted (observers s))
      (behind has_summed (observers s)) (behind has_filed (observers s))) = (ob, h)"
    by (simp add: live_inv_def)
  from observer_step_tally [OF j this fine] inv show ?thesis
    by (auto simp: live_inv_def t dest!: set_update_subset_insert [THEN subsetD])
next
  case (Call_percentile p)
  with assms show ?thesis by (auto simp: live_step_def live_inv_def reader_ok_def)
next
  case (Step_reader j n)
  then have j: "j < length (readers s)" "n < length (past s)"
    and t: "t = s\<lparr>readers := (readers s)[j := percentile_step (readers s ! j) (past s ! n)]\<rparr>"
    using step by (simp_all add: live_step_def split: if_splits)
  have "reader_ok (percentile_step (readers s ! j) (past s ! n))"
    by (rule percentile_step_ok) (use inv j in \<open>simp_all add: live_inv_def\<close>)
  with inv show ?thesis by (auto simp: live_inv_def t dest!: set_update_subset_insert [THEN subsetD])
qed

lemma live_inv_init: "live_inv live_init"
  by (simp add: live_inv_def live_init_def behind_def tally_new)

lemma live_reach_inv: "live_reach s \<Longrightarrow> live_inv s"
  by (induction rule: live_reach.induct) (blast intro: live_inv_init live_step_inv)+

subsection \<open>Properties\<close>

text \<open>C26. Concurrent observers leave the histogram of a sequential run: whatever the interleaving of
  their additions, when every call of \<open>observe\<close> has returned, the histogram is the one the calls
  leave one after the other; no observer panics; and every percentile computed meanwhile, however
  far its loads lag behind, is zero or one of the twenty-five bounds.\<close>

theorem observers_any_order:
  assumes "live_reach s"
  shows "((\<forall>ob \<in> set (observers s). \<exists>x. ob = O_done x) \<longrightarrow>
      observe_all (map observed (observers s)) LatencyHistogram_new = Some (hist s))
    \<and> (\<forall>ob \<in> set (observers s). \<forall>x. ob \<noteq> O_panicked x)
    \<and> (\<forall>r \<in> set (readers s). case r of
        R_done v \<Rightarrow> v = Finite 0 \<or> v \<in> bucket_bound ` {0..<25} | R_panicked \<Rightarrow> False | _ \<Rightarrow> True)"
proof -
  have inv: "live_inv s" using assms by (rule live_reach_inv)
  have "observe_all (map observed (observers s)) LatencyHistogram_new = Some (hist s)"
    if fin: "\<forall>ob \<in> set (observers s). \<exists>x. ob = O_done x"
  proof -
    have "behind P (observers s) = map observed (observers s)" if "\<And>x. P (O_done x)" for P
      unfolding behind_def using fin that by (metis filter_True)
    then have "hist s = tally (map observed (observers s)) (map observed (observers s)) (map observed (observers s))"
      using inv by (simp add: live_inv_def progress_defs)
    then show ?thesis using observe_all_tally [of "map observed (observers s)" "[]"] by (simp add: tally_new)
  qed
  with inv show ?thesis by (auto simp: live_inv_def reader_ok_def)
qed

text \<open>Two observers, their additions interleaved.\<close>

fun live_run :: "live_action list \<Rightarrow> live \<Rightarrow> live option" where
  "live_run [] s = Some s"
| "live_run (a # as) s = Option.bind (live_step a s) (live_run as)"

lemma live_run_reach: "live_reach s \<Longrightarrow> live_run as s = Some t \<Longrightarrow> live_reach t"
  by (induction as arbitrary: s) (auto simp: bind_eq_Some_conv intro: live_next)

lemma observers_any_order_witness:
  "\<exists>s. live_reach s \<and> map observed (observers s) = [Finite 1, Finite 20]
    \<and> observe_all [Finite 1, Finite 20] LatencyHistogram_new = Some (hist s)"
proof -
  have "\<exists>s. live_run [Call_observe (Finite 1), Call_observe (Finite 20), Step_observer 1, Step_observer 0, Step_observer 0,
      Step_observer 1, Step_observer 1, Step_observer 0] live_init = Some s
    \<and> observers s = [O_done (Finite 1), O_done (Finite 20)]"
  proof -
    have t: "observer_step (O_total x) (tally a b c) = (O_sum x, tally (a @ [x]) b c)"
      "observer_step (O_sum x) (tally a b c) = (O_bucket x, tally a (b @ [x]) c)" for x a b c
      by (simp_all add: observer_step_def tally_def add.commute)
    show ?thesis by (simp add: live_step_def live_init_def tally_new t tally_file)
  qed
  then obtain s where s: "live_run [Call_observe (Finite 1), Call_observe (Finite 20), Step_observer 1, Step_observer 0,
      Step_observer 0, Step_observer 1, Step_observer 1, Step_observer 0] live_init = Some s"
    "observers s = [O_done (Finite 1), O_done (Finite 20)]" by blast
  have reach: "live_reach s" by (rule live_run_reach [OF live_start s(1)])
  from observers_any_order [OF reach] reach s(2) show ?thesis by (intro exI [of _ s]) simp
qed

end
