(* ===== verification/Echo_Stream.thy ===== *)
theory Echo_Stream
  imports Echo_Service "HOL-Library.Sublist"
begin

section \<open>The streaming method of the backend\<close>

text \<open>
  \<^verbatim>\<open>stream_echo\<close> of \<^verbatim>\<open>backend/src/main.rs\<close>: a spawned task reads the requests of a stream,
  sleeps for the delay and sends the responses into a channel of 128 places, from which the
  caller takes them. The stream is the list of the results its \<^verbatim>\<open>message\<close> will give (an error
  is a status); after the last one it gives none. A step is one turn of the task, one response
  taken, or the caller dropping the channel, in any order.
\<close>

subsection \<open>State\<close>

datatype stream_task = Reading | Delaying EchoRequest | Sending EchoResponse | Ended

text \<open>\<open>received\<close> records what the caller has taken.\<close>

record echo_stream =
  incoming :: "(string + EchoRequest) list"
  channel :: "EchoResponse list"
  rx_alive :: bool
  stream_task :: stream_task
  received :: "EchoResponse list"

definition channel_places :: nat where
  "channel_places = 128"

definition stream_echo :: "(string + EchoRequest) list \<Rightarrow> echo_stream" where
  "stream_echo items =
     \<lparr>incoming = items, channel = [], rx_alive = True, stream_task = Reading, received = []\<rparr>"

definition stream_response :: "duration \<Rightarrow> EchoRequest \<Rightarrow> EchoResponse" where
  "stream_response d req =
     \<lparr>resp_message = req_message req, resp_timestamp_ns = 0,
      resp_processing_time_us = as_micros_i64 d, resp_payload = req_payload req\<rparr>"

text \<open>One turn of the task; \<open>elapsed\<close> is the time it has slept. A send waits while the channel is
  full and fails once the caller has dropped it.\<close>

definition stream_turn :: "EchoServiceImpl \<Rightarrow> duration \<Rightarrow> echo_stream \<Rightarrow> echo_stream option" where
  "stream_turn svc elapsed s =
     (case stream_task s of
        Reading \<Rightarrow>
          (case incoming s of
             [] \<Rightarrow> Some (s\<lparr>stream_task := Ended\<rparr>)
           | Inl e # rest \<Rightarrow> Some (s\<lparr>incoming := rest, stream_task := Ended\<rparr>)
           | Inr req # rest \<Rightarrow>
               Some (s\<lparr>incoming := rest,
                 stream_task := (if 0 < svc_delay svc then Delaying req
                                 else Sending (stream_response (svc_delay svc) req))\<rparr>))
      | Delaying req \<Rightarrow>
          if elapsed < svc_delay svc then None
          else Some (s\<lparr>stream_task := Sending (stream_response (svc_delay svc) req)\<rparr>)
      | Sending resp \<Rightarrow>
          if \<not> rx_alive s then Some (s\<lparr>stream_task := Ended\<rparr>)
          else if length (channel s) < channel_places
          then Some (s\<lparr>channel := channel s @ [resp], stream_task := Reading\<rparr>) else None
      | Ended \<Rightarrow> None)"

text \<open>The caller's side of the channel.\<close>

definition stream_recv :: "echo_stream \<Rightarrow> echo_stream option" where
  "stream_recv s =
     (case channel s of
        [] \<Rightarrow> None
      | resp # rest \<Rightarrow> Some (s\<lparr>channel := rest, received := received s @ [resp]\<rparr>))"

definition stream_drop :: "echo_stream \<Rightarrow> echo_stream option" where
  "stream_drop s = (if rx_alive s then Some (s\<lparr>channel := [], rx_alive := False\<rparr>) else None)"

datatype stream_action = Turn duration | Recv | Drop

fun stream_step :: "EchoServiceImpl \<Rightarrow> stream_action \<Rightarrow> echo_stream \<Rightarrow> echo_stream option" where
  "stream_step svc (Turn d) s = stream_turn svc d s"
| "stream_step svc Recv s = stream_recv s"
| "stream_step svc Drop s = stream_drop s"

inductive stream_reach :: "EchoServiceImpl \<Rightarrow> (string + EchoRequest) list \<Rightarrow> echo_stream \<Rightarrow> bool"
  for svc items where
  stream_refl: "stream_reach svc items (stream_echo items)"
| stream_next: "stream_reach svc items s \<Longrightarrow> stream_step svc a s = Some t \<Longrightarrow> stream_reach svc items t"

inductive_cases stream_reachE: "stream_reach svc items s"

subsection \<open>What is delivered\<close>

text \<open>The requests before the end of the stream or its first error.\<close>

fun ok_requests :: "(string + EchoRequest) list \<Rightarrow> EchoRequest list" where
  "ok_requests (Inr req # items) = req # ok_requests items"
| "ok_requests _ = []"

definition stream_answers :: "EchoServiceImpl \<Rightarrow> (string + EchoRequest) list \<Rightarrow> EchoResponse list" where
  "stream_answers svc items = map (stream_response (svc_delay svc)) (ok_requests items)"

lemma stream_answers_simps [simp]:
  "stream_answers svc [] = []" "stream_answers svc (Inl e # items) = []"
  "stream_answers svc (Inr req # items) = stream_response (svc_delay svc) req # stream_answers svc items"
  by (simp_all add: stream_answers_def)

fun still_to_send :: "EchoServiceImpl \<Rightarrow> stream_task \<Rightarrow> (string + EchoRequest) list \<Rightarrow> EchoResponse list" where
  "still_to_send svc Reading items = stream_answers svc items"
| "still_to_send svc (Delaying req) items =
     stream_response (svc_delay svc) req # stream_answers svc items"
| "still_to_send svc (Sending resp) items = resp # stream_answers svc items"
| "still_to_send svc Ended items = []"

definition stream_inv :: "EchoServiceImpl \<Rightarrow> (string + EchoRequest) list \<Rightarrow> echo_stream \<Rightarrow> bool" where
  "stream_inv svc items s \<longleftrightarrow>
     length (channel s) \<le> channel_places
   \<and> prefix (received s) (stream_answers svc items)
   \<and> (rx_alive s \<longrightarrow>
        received s @ channel s @ still_to_send svc (stream_task s) (incoming s) = stream_answers svc items)
   \<and> (\<not> rx_alive s \<longrightarrow> channel s = [])"

lemma stream_inv_start: "stream_inv svc items (stream_echo items)"
  by (simp add: stream_inv_def stream_echo_def)

lemma stream_turn_inv:
  assumes inv: "stream_inv svc items s" and step: "stream_turn svc d s = Some t"
  shows "stream_inv svc items t"
proof (cases "stream_task s")
  case Reading
  show ?thesis
  proof (cases "incoming s")
    case Nil
    with Reading inv step show ?thesis by (auto simp: stream_inv_def stream_turn_def)
  next
    case (Cons x rest)
    with Reading inv step show ?thesis
      by (cases x) (auto simp: stream_inv_def stream_turn_def split: if_splits)
  qed
next
  case (Delaying req)
  with inv step show ?thesis by (auto simp: stream_inv_def stream_turn_def split: if_splits)
next
  case (Sending resp)
  with inv step show ?thesis by (auto simp: stream_inv_def stream_turn_def split: if_splits)
next
  case Ended
  with step show ?thesis by (simp add: stream_turn_def)
qed

lemma stream_recv_inv:
  assumes inv: "stream_inv svc items s" and step: "stream_recv s = Some t"
  shows "stream_inv svc items t"
proof -
  obtain resp rest where ch: "channel s = resp # rest" and t: "t = s\<lparr>channel := rest, received := received s @ [resp]\<rparr>"
    using step by (auto simp: stream_recv_def split: list.splits)
  have alive: "rx_alive s" using inv ch by (auto simp: stream_inv_def)
  then have eq: "received s @ (resp # rest) @ still_to_send svc (stream_task s) (incoming s) = stream_answers svc items"
    using inv ch by (simp add: stream_inv_def)
  then have "prefix (received s @ [resp]) (stream_answers svc items)"
    by (intro prefixI [of _ _ "rest @ still_to_send svc (stream_task s) (incoming s)"]) simp
  then show ?thesis using inv ch eq alive by (simp add: stream_inv_def t)
qed

lemma stream_step_inv:
  assumes "stream_inv svc items s" "stream_step svc a s = Some t"
  shows "stream_inv svc items t"
proof (cases a)
  case (Turn d)
  with assms stream_turn_inv show ?thesis by simp
next
  case Recv
  with assms stream_recv_inv show ?thesis by simp
next
  case Drop
  with assms show ?thesis by (auto simp: stream_inv_def stream_drop_def split: if_splits)
qed

lemma stream_reach_inv: "stream_reach svc items s \<Longrightarrow> stream_inv svc items s"
  by (induction rule: stream_reach.induct) (auto intro: stream_inv_start stream_step_inv)

subsection \<open>Runs end\<close>

fun task_weight :: "stream_task \<Rightarrow> nat" where
  "task_weight Ended = 0"
| "task_weight Reading = 1"
| "task_weight (Sending resp) = 3"
| "task_weight (Delaying req) = 4"

text \<open>An upper bound on the steps a stream has still to make.\<close>

definition stream_weight :: "echo_stream \<Rightarrow> nat" where
  "stream_weight s = 4 * length (incoming s) + task_weight (stream_task s) + length (channel s)
     + (if rx_alive s then 1 else 0)"

lemma stream_turn_weight:
  "stream_turn svc d s = Some t \<Longrightarrow> stream_weight t < stream_weight s"
  by (auto simp: stream_turn_def stream_weight_def split: stream_task.splits list.splits sum.splits if_splits)

lemma stream_step_weight:
  assumes "stream_step svc a s = Some t"
  shows "stream_weight t < stream_weight s"
proof (cases a)
  case (Turn d)
  with assms show ?thesis by (simp add: stream_turn_weight)
next
  case Recv
  with assms show ?thesis by (auto simp: stream_recv_def stream_weight_def split: list.splits)
next
  case Drop
  with assms show ?thesis by (auto simp: stream_drop_def stream_weight_def split: if_splits)
qed

lemma stream_reach_weight:
  "stream_reach svc items s \<Longrightarrow> stream_weight s \<le> 4 * length items + 2"
proof (induction rule: stream_reach.induct)
  case stream_refl
  then show ?case by (simp add: stream_weight_def stream_echo_def)
next
  case (stream_next s a t)
  then show ?case using stream_step_weight [of svc a s t] by simp
qed

text \<open>A stream whose caller is there and in which neither side can move.\<close>

definition stream_quiet :: "EchoServiceImpl \<Rightarrow> echo_stream \<Rightarrow> bool" where
  "stream_quiet svc s \<longleftrightarrow> channel s = [] \<and> stream_turn svc (svc_delay svc) s = None"

lemma stream_quiet_ended: "stream_quiet svc s \<Longrightarrow> stream_task s = Ended"
  by (auto simp: stream_quiet_def stream_turn_def channel_places_def
      split: stream_task.splits list.splits sum.splits if_splits)

end
