(* ===== verification/Echo_Properties.thy ===== *)
theory Echo_Properties
  imports Echo_Stream
begin

section \<open>What the backend service answers\<close>

text \<open>
  The response of \<open>compute\<close> is bounded for every request, and the streaming method answers the
  requests of its stream in order, up to the first error, in finitely many steps.
\<close>

text \<open>C28. Whatever number of iterations a request asks for, negative numbers included, \<open>compute\<close>
  runs between 1 and 10000 rounds, the requested number when it lies in that range, its loop is
  the fold of its round over the round numbers, and for a finite input the result is finite and
  at most 101 in magnitude.\<close>

theorem compute_bounded:
  assumes "float_laws ops" "input_value req = Finite q"
  shows "\<exists>k r. k = nat (min (max (sint (iterations req)) 1) 10000) \<and> 1 \<le> k \<and> k \<le> 10000
    \<and> result (fst (compute ops d1 d2 d3 req))
        = foldl (\<lambda>r i. compute_round ops (of_nat i) r) (Finite q) [0..<k]
    \<and> result (fst (compute ops d1 d2 d3 req)) = Finite r \<and> \<bar>r\<bar> \<le> 101"
proof -
  let ?n = "compute_iteration_count (iterations req)"
  have n: "sint ?n = min (max (sint (iterations req)) 1) 10000" by (rule compute_iteration_count_sint)
  then have pos: "0 < sint ?n" by (simp add: min_def max_def)
  have res: "result (fst (compute ops d1 d2 d3 req)) = compute_loop ops 0 ?n (Finite q)"
    using assms(2) by (simp add: compute_def)
  have "compute_loop ops 0 ?n (Finite q)
      = foldl (\<lambda>r i. compute_round ops (of_nat i) r) (Finite q) [0..<nat (sint ?n)]"
    using compute_loop_fold [of 0 ops ?n "Finite q"] by simp
  moreover obtain r where "compute_loop ops 0 ?n (Finite q) = Finite r" "\<bar>r\<bar> \<le> 101"
    using compute_loop_bounded [OF assms(1), of 0 ?n q] pos n by auto
  ultimately show ?thesis using res n pos by (intro exI [of _ "nat (sint ?n)"] exI [of _ r]) auto
qed

lemma compute_bounded_witness:
  "\<exists>r. result (fst (compute ref_floats 1 2 3
      \<lparr>iterations = - 5, input_value = Finite 7, creq_timestamp_ns = 0\<rparr>)) = Finite r \<and> \<bar>r\<bar> \<le> 101"
proof -
  have "input_value \<lparr>iterations = - 5, input_value = Finite 7, creq_timestamp_ns = 0\<rparr> = Finite 7" by simp
  from compute_bounded [OF ref_floats_laws this, of 1 2 3] show ?thesis by blast
qed

text \<open>C23. At every moment what the caller of the streaming method has received is a prefix of the
  answers to the requests before the first error, each echoing its request in order; while the
  caller keeps the channel nothing of them is lost: what it has, what the channel holds and what
  the task has still to send make up the whole; and the channel never holds more than 128.\<close>

theorem stream_echo_in_order:
  assumes "stream_reach svc items s"
  shows "prefix (received s) (stream_answers svc items)
    \<and> list_all2 echoes (ok_requests items) (stream_answers svc items)
    \<and> (rx_alive s \<longrightarrow> received s @ channel s @ still_to_send svc (stream_task s) (incoming s)
          = stream_answers svc items)
    \<and> length (channel s) \<le> 128"
proof -
  have "list_all2 echoes (ok_requests items) (stream_answers svc items)"
    by (simp add: stream_answers_def list_all2_map2 list_all2_same echoes_def stream_response_def)
  then show ?thesis using stream_reach_inv [OF assms] by (simp add: stream_inv_def channel_places_def)
qed

text \<open>A request, a second one behind an error, and the caller that takes the first answer.\<close>

definition demo_items :: "(string + EchoRequest) list" where
  "demo_items = [Inr \<lparr>req_message = [104, 105], req_timestamp_ns = 5, req_payload = []\<rparr>,
     Inl ''reset'', Inr \<lparr>req_message = [], req_timestamp_ns = 6, req_payload = [1]\<rparr>]"

definition demo_service :: EchoServiceImpl where
  "demo_service = EchoServiceImpl_new 1000 100"

definition demo_end :: echo_stream where
  "demo_end = \<lparr>incoming = drop 2 demo_items, channel = [], rx_alive = True, stream_task = Ended,
     received = [stream_response 1000 \<lparr>req_message = [104, 105], req_timestamp_ns = 5, req_payload = []\<rparr>]\<rparr>"

lemma demo_reach: "stream_reach demo_service demo_items demo_end"
proof -
  let ?req = "\<lparr>req_message = [104, 105], req_timestamp_ns = 5, req_payload = []\<rparr>"
  have "stream_reach demo_service demo_items (stream_echo demo_items)" by (rule stream_refl)
  then have "stream_reach demo_service demo_items
      ((stream_echo demo_items)\<lparr>incoming := drop 1 demo_items, stream_task := Delaying ?req\<rparr>)"
    by (rule stream_next [where a = "Turn 0"])
      (simp add: stream_turn_def stream_echo_def demo_items_def demo_service_def EchoServiceImpl_new_def)
  then have "stream_reach demo_service demo_items
      ((stream_echo demo_items)\<lparr>incoming := drop 1 demo_items, stream_task := Sending (stream_response 1000 ?req)\<rparr>)"
    by (rule stream_next [where a = "Turn 1000"])
      (simp add: stream_turn_def stream_echo_def demo_service_def EchoServiceImpl_new_def)
  then have "stream_reach demo_service demo_items
      ((stream_echo demo_items)\<lparr>incoming := drop 1 demo_items, channel := [stream_response 1000 ?req]\<rparr>)"
    by (rule stream_next [where a = "Turn 0"])
      (simp add: stream_turn_def stream_echo_def channel_places_def)
  then have "stream_reach demo_service demo_items
      ((stream_echo demo_items)\<lparr>incoming := drop 1 demo_items, received := [stream_response 1000 ?req]\<rparr>)"
    by (rule stream_next [where a = Recv]) (simp add: stream_recv_def stream_echo_def)
  then show ?thesis
    by (rule stream_next [where a = "Turn 0"])
      (simp add: stream_turn_def stream_echo_def demo_items_def demo_end_def)
qed

lemma stream_echo_in_order_witness:
  "stream_reach demo_service demo_items demo_end \<and> length (received demo_end) = 1
     \<and> prefix (received demo_end) (stream_answers demo_service demo_items)"
proof -
  have "length (received demo_end) = 1" by (simp add: demo_end_def)
  with stream_echo_in_order [OF demo_reach] demo_reach show ?thesis by blast
qed

text \<open>C24. Every run of the streaming method ends: each step of the task, of the caller or of the
  network lowers a bound that starts at four steps for each item and two more; and when neither
  side can move while the caller keeps the channel, the task has ended and the caller has received
  every answer.\<close>

theorem stream_echo_completes:
  assumes "stream_reach svc items s"
  shows "stream_weight s \<le> 4 * length items + 2
    \<and> (\<forall>a t. stream_step svc a s = Some t \<longrightarrow> stream_weight t < stream_weight s)
    \<and> (rx_alive s \<and> stream_quiet svc s \<longrightarrow>
          stream_task s = Ended \<and> received s = stream_answers svc items)"
proof -
  have "received s = stream_answers svc items" if "rx_alive s" "stream_quiet svc s"
  proof -
    have "stream_task s = Ended" "channel s = []"
      using that stream_quiet_ended by (auto simp: stream_quiet_def)
    then show ?thesis using stream_reach_inv [OF assms] that(1) by (simp add: stream_inv_def)
  qed
  then show ?thesis using stream_reach_weight [OF assms] stream_step_weight stream_quiet_ended by blast
qed

lemma stream_echo_completes_witness:
  "rx_alive demo_end \<and> stream_quiet demo_service demo_end
     \<and> received demo_end = stream_answers demo_service demo_items"
proof -
  have "rx_alive demo_end" "stream_quiet demo_service demo_end"
    by (simp_all add: demo_end_def stream_quiet_def stream_turn_def)
  with stream_echo_completes [OF demo_reach] show ?thesis by blast
qed

end
