(* ===== verification/Connection_Pool.thy ===== *)
theory Connection_Pool
  imports Prelude
begin

section \<open>The connection pool and the load balancer\<close>

text \<open>
  \<^verbatim>\<open>ConnectionPool\<close> and \<^verbatim>\<open>LoadBalancer\<close> of \<^verbatim>\<open>gateway/src/transport.rs\<close>. Both pick the next
  element round robin with an atomic counter, which wraps; on an empty vector the remainder
  panics (\<open>None\<close>), after the counter has been advanced. One atomic addition is the only access
  to shared state, so the calls of several threads are a sequence. The locale states what both
  promise; its lemmas hold for both.
\<close>

subsection \<open>Operations\<close>

record 'a ConnectionPool =
  pool_connections :: "'a list"
  pool_current :: usize

definition ConnectionPool_new :: "'a list \<Rightarrow> 'a ConnectionPool" where
  "ConnectionPool_new xs = \<lparr>pool_connections = xs, pool_current = 0\<rparr>"

definition pool_get :: "'a ConnectionPool \<Rightarrow> 'a option \<times> 'a ConnectionPool" where
  "pool_get p =
     (let p' = p\<lparr>pool_current := pool_current p + 1\<rparr> in
      if len_usize (pool_connections p) = 0 then (None, p')
      else let idx = pool_current p mod len_usize (pool_connections p) in
        (if unat idx < length (pool_connections p)
         then Some (pool_connections p ! unat idx) else None, p'))"

record LoadBalancer =
  backends :: "string list"
  lb_current :: usize

definition LoadBalancer_new :: "string list \<Rightarrow> LoadBalancer" where
  "LoadBalancer_new bs = \<lparr>backends = bs, lb_current = 0\<rparr>"

definition next_backend :: "LoadBalancer \<Rightarrow> string option \<times> LoadBalancer" where
  "next_backend lb =
     (let lb' = lb\<lparr>lb_current := lb_current lb + 1\<rparr> in
      if len_usize (backends lb) = 0 then (None, lb')
      else let idx = lb_current lb mod len_usize (backends lb) in
        (if unat idx < length (backends lb) then Some (backends lb ! unat idx) else None, lb'))"

subsection \<open>The contract\<close>

fun picks :: "('s \<Rightarrow> 'a option \<times> 's) \<Rightarrow> nat \<Rightarrow> 's \<Rightarrow> 'a option list" where
  "picks pick 0 s = []"
| "picks pick (Suc n) s = fst (pick s) # picks pick n (snd (pick s))"

locale round_robin =
  fixes pick :: "'s \<Rightarrow> 'a option \<times> 's" and items :: "'s \<Rightarrow> 'a list" and counter :: "'s \<Rightarrow> usize"
  assumes pick_items: "items (snd (pick s)) = items s"
    and pick_counter: "counter (snd (pick s)) = counter s + 1"
    and pick_empty: "items s = [] \<Longrightarrow> fst (pick s) = None"
    and pick_some: "items s \<noteq> [] \<Longrightarrow> length (items s) \<le> isize_max \<Longrightarrow>
          fst (pick s) = Some (items s ! (unat (counter s) mod length (items s)))"
begin

lemma picks_items:
  "length (items s) \<le> isize_max \<Longrightarrow> items s \<noteq> [] \<Longrightarrow>
     picks pick n s = map (\<lambda>k. Some (items s ! ((unat (counter s) + k) mod 2 ^ 64 mod length (items s)))) [0..<n]"
proof (induction n arbitrary: s)
  case (Suc n)
  have c: "(unat (counter s + 1) + k) mod 2 ^ 64 = (unat (counter s) + Suc k) mod 2 ^ 64" for k
  proof -
    have "unat (counter s + 1) = (unat (counter s) + 1) mod 2 ^ 64" by (simp add: unat_word_ariths)
    then show ?thesis by (simp add: mod_add_left_eq)
  qed
  have "unat (counter s) < 2 ^ 64" using unsigned_less [of "counter s", where 'a = nat] by simp
  then have hd: "fst (pick s) = Some (items s ! ((unat (counter s) + 0) mod 2 ^ 64 mod length (items s)))"
    using pick_some [of s] Suc.prems by simp
  have tl: "picks pick n (snd (pick s))
      = map (\<lambda>k. Some (items s ! ((unat (counter s) + Suc k) mod 2 ^ 64 mod length (items s)))) [0..<n]"
    by (rule Suc.IH [of "snd (pick s)", unfolded pick_items pick_counter c, OF Suc.prems])
  have "[0..<Suc n] = 0 # map Suc [0..<n]" by (simp add: map_Suc_upt upt_conv_Cons del: upt_Suc)
  then show ?case using hd tl by (simp only: picks.simps list.map map_map comp_def)
qed simp

text \<open>Every full round gives each element once, in order.\<close>

lemma picks_round:
  assumes "length (items s) \<le> isize_max" "items s \<noteq> []" "length (items s) dvd unat (counter s)"
    and "unat (counter s) + length (items s) \<le> 2 ^ 64"
  shows "picks pick (length (items s)) s = map Some (items s)"
proof -
  have "(unat (counter s) + k) mod 2 ^ 64 mod length (items s) = k" if "k < length (items s)" for k
    using assms that by (auto elim!: dvdE)
  then have "picks pick (length (items s)) s = map (\<lambda>k. Some (items s ! k)) [0..<length (items s)]"
    unfolding picks_items [OF assms(1,2)] by (intro map_cong) auto
  then show ?thesis by (simp add: map_nth [of "items s", THEN arg_cong [where f = "map Some"], simplified, symmetric] comp_def)
qed

end

lemma len_usize_zero: "length xs \<le> isize_max \<Longrightarrow> len_usize xs = 0 \<longleftrightarrow> xs = []"
  using unat_len_usize [of xs] by (auto simp: len_usize_def unat_eq_0)

lemma index_in_range:
  assumes "xs \<noteq> []" "length xs \<le> isize_max"
  shows "unat (c mod len_usize xs) = unat c mod length xs" "unat (c mod len_usize xs) < length xs"
  using assms by (simp_all add: unat_mod_distrib)

interpretation pool: round_robin pool_get pool_connections pool_current
proof unfold_locales
  fix p :: "'a ConnectionPool"
  show "pool_connections (snd (pool_get p)) = pool_connections p"
    "pool_current (snd (pool_get p)) = pool_current p + 1"
    by (simp_all add: pool_get_def Let_def)
  show "pool_connections p = [] \<Longrightarrow> fst (pool_get p) = None"
    by (simp add: pool_get_def Let_def len_usize_def)
  show "pool_connections p \<noteq> [] \<Longrightarrow> length (pool_connections p) \<le> isize_max \<Longrightarrow> fst (pool_get p)
      = Some (pool_connections p ! (unat (pool_current p) mod length (pool_connections p)))"
    by (simp add: pool_get_def Let_def len_usize_zero index_in_range)
qed

interpretation balancer: round_robin next_backend backends lb_current
proof unfold_locales
  fix lb :: LoadBalancer
  show "backends (snd (next_backend lb)) = backends lb"
    "lb_current (snd (next_backend lb)) = lb_current lb + 1"
    by (simp_all add: next_backend_def Let_def)
  show "backends lb = [] \<Longrightarrow> fst (next_backend lb) = None"
    by (simp add: next_backend_def Let_def len_usize_def)
  show "backends lb \<noteq> [] \<Longrightarrow> length (backends lb) \<le> isize_max \<Longrightarrow> fst (next_backend lb)
      = Some (backends lb ! (unat (lb_current lb) mod length (backends lb)))"
    by (simp add: next_backend_def Let_def len_usize_zero index_in_range)
qed

subsection \<open>Property\<close>

text \<open>C40. A fresh pool and a fresh load balancer hand out their elements in order and start again
  after the last one; only where the counter wraps, after \<open>2 ^ 64\<close> calls, does the order jump back
  to the first. On an empty vector every call panics.\<close>

theorem pool_round_robin:
  fixes xs :: "'a list"
  assumes "xs \<noteq> []" "length xs \<le> isize_max" "bs \<noteq> []" "length bs \<le> isize_max"
  shows "picks pool_get n (ConnectionPool_new xs) = map (\<lambda>k. Some (xs ! (k mod 2 ^ 64 mod length xs))) [0..<n]
    \<and> picks next_backend n (LoadBalancer_new bs) = map (\<lambda>k. Some (bs ! (k mod 2 ^ 64 mod length bs))) [0..<n]
    \<and> fst (pool_get (ConnectionPool_new ([] :: 'a list))) = None \<and> fst (next_backend (LoadBalancer_new [])) = None"
proof -
  have p: "pool_connections (ConnectionPool_new ys) = ys" "pool_current (ConnectionPool_new ys) = 0" for ys :: "'a list"
    by (simp_all add: ConnectionPool_new_def)
  have b: "backends (LoadBalancer_new bs) = bs" "lb_current (LoadBalancer_new bs) = 0" for bs
    by (simp_all add: LoadBalancer_new_def)
  have z: "unat (0 :: usize) + k = k" for k by simp
  have "picks pool_get n (ConnectionPool_new xs) = map (\<lambda>k. Some (xs ! (k mod 2 ^ 64 mod length xs))) [0..<n]"
    by (rule pool.picks_items [of "ConnectionPool_new xs" n, unfolded p z, OF assms(2,1)])
  moreover have "picks next_backend n (LoadBalancer_new bs) = map (\<lambda>k. Some (bs ! (k mod 2 ^ 64 mod length bs))) [0..<n]"
    by (rule balancer.picks_items [of "LoadBalancer_new bs" n, unfolded b z, OF assms(4,3)])
  moreover have "fst (pool_get (ConnectionPool_new ([] :: 'a list))) = None"
    by (rule pool.pick_empty) (rule p)
  moreover have "fst (next_backend (LoadBalancer_new [])) = None" by (rule balancer.pick_empty) (rule b)
  ultimately show ?thesis by blast
qed

lemma pool_round_robin_witness:
  "picks pool_get 4 (ConnectionPool_new [''a'', ''b'', ''c'']) = [Some ''a'', Some ''b'', Some ''c'', Some ''a'']
   \<and> picks next_backend 4 (LoadBalancer_new [''x'', ''y'', ''z'']) = [Some ''x'', Some ''y'', Some ''z'', Some ''x'']"
proof -
  have u: "[0..<4] = [0, 1, 2, 3 :: nat]" by (simp add: upt_rec)
  show ?thesis
    using pool_round_robin [of "[''a'', ''b'', ''c'']" "[''x'', ''y'', ''z'']" 4] by (simp add: isize_max_def u)
qed

end
