(* ===== verification/Spec2Isabelle.thy ===== *)
theory Spec2Isabelle
  imports Ring_Threads Deployment Http_Grpc Uds_Restart Descriptors Metrics_Concurrent Echo_Properties Connection_Pool
begin

text \<open>
  A model of Gateway-gRPC: an HTTP gateway that forwards every request to a backend over one of
  five transports (gRPC over TCP, gRPC over a Unix socket, and three over shared memory), and the
  backend that echoes it. This library translates the Rust sources under \<^verbatim>\<open>src/\<close> and proves what
  they guarantee, and, where they do not, the runs that show it.

  \<^bold>\<open>The program.\<close> \<^verbatim>\<open>shared-memory\<close> has the ring buffer (\<^verbatim>\<open>shm.rs\<close>), an eventfd wrapper
  (\<^verbatim>\<open>eventfd.rs\<close>) and their errors and configuration (\<^verbatim>\<open>lib.rs\<close>). \<^verbatim>\<open>gateway\<close> has the HTTP handler,
  the command line and \<^verbatim>\<open>main\<close> (\<^verbatim>\<open>main.rs\<close>), the transports (\<^verbatim>\<open>transport.rs\<close>,
  \<^verbatim>\<open>shm_transport_uds.rs\<close>, \<^verbatim>\<open>shm_transport_eventfd.rs\<close>) and the latency metrics
  (\<^verbatim>\<open>metrics.rs\<close>). \<^verbatim>\<open>backend\<close> has the gRPC service, the command line and the polling server
  (\<^verbatim>\<open>main.rs\<close>) and the two notified servers (\<^verbatim>\<open>shm_server_uds.rs\<close>,
  \<^verbatim>\<open>shm_server_eventfd.rs\<close>). A request travels through \<open>gateway_receive\<close>, a call of the transport
  (serialise, write to the request ring, notify), the server loop and a worker, the response ring,
  the response listener, the mailbox of the call, and \<open>gateway_answer\<close>.

  \<^bold>\<open>The theories.\<close>
  \<^item> \<open>Prelude\<close>: machine types, little-endian encodings, raw memory with bounds, outcomes
    (\<open>Ok\<close>, \<open>Err\<close>, \<open>Fault\<close> for undefined behaviour and panics), lists read modulo a capacity.
  \<^item> \<open>Shm_Lib\<close>, \<open>Ring_Buffer\<close>: \<^verbatim>\<open>lib.rs\<close> and \<^verbatim>\<open>shm.rs\<close>; the state is the header and the mapped
    bytes, positions are 64-bit words. \<open>Ring_Queue\<close> relates a ring to the list of messages it
    holds (\<open>ring_rep\<close>), \<open>Message_Queue\<close> is the locale of bounded queues the transports use, with
    the ring as its instance. \<open>Ring_Straddle\<close> is the defect of a length prefix at the end of the
    area, \<open>Ring_Lifecycle\<close> the laws of POSIX shared memory with create and open,
    \<open>Ring_Properties\<close> the properties, \<open>Ring_Concurrent\<close> the writer and the reader process with
    their shared accesses interleaved, \<open>Ring_Threads\<close> any number of threads on each end under the
    mutexes of the handle.
  \<^item> \<open>Event_Fd\<close>: \<^verbatim>\<open>eventfd.rs\<close> over the documented system calls; descriptors refer to files, the counters
    belong to the files.
  \<^item> \<open>Messages\<close>: \<^verbatim>\<open>echo.proto\<close> and the codecs as a parameter with laws and a reference instance.
  \<^item> \<open>Rpc\<close>, \<open>Rpc_Invariant\<close>, \<open>Rpc_Examples\<close>: what the two notified transports share: calls,
    pending map, listener, server, workers, and the invariant that every request under way is in
    one place. \<open>Shm_Uds\<close>, \<open>Uds_Properties\<close> and \<open>Shm_Eventfd\<close>, \<open>Eventfd_Properties\<close> add the
    notifications by socket and by eventfd; their steps are one step of one task, their runs the
    inductive relations \<open>uds_reach\<close> and \<open>efd_reach\<close>. \<open>Uds_Restart\<close>: a backend with the state of its
    \<^verbatim>\<open>run\<close> and any number of gateways over the same two objects (\<open>hub\<close>, \<open>hub_step\<close>, \<open>hub_move\<close>), whose
    runs with one gateway are those of \<open>Shm_Uds\<close> (\<open>uds_reach_hub\<close>).
  \<^item> \<open>Shm_Polling\<close>: the polling transport and \<^verbatim>\<open>run_shm_server\<close>.
  \<^item> \<open>F64\<close>, \<open>Metrics\<close>, \<open>Metrics_Properties\<close>: binary64 arithmetic with its rounding, and
    \<^verbatim>\<open>metrics.rs\<close> on top of it; \<open>Metrics_Concurrent\<close>: several observers and readers at once.
  \<^item> \<open>Echo_Service\<close>, \<open>Echo_Stream\<close>, \<open>Echo_Properties\<close>: the gRPC service, with the stream and its
    channel as a state machine.
  \<^item> \<open>Utf8\<close>, \<open>Gateway\<close>: lossy decoding and \<^verbatim>\<open>handle_request\<close>. \<open>Transports\<close>: the gRPC transports,
    \<^verbatim>\<open>TransportEnum\<close>, and the locale \<open>echo_transport\<close> of transports that answer every call with an
    echo of its own request, which the socket and the eventfd transport satisfy.
  \<^item> \<open>Http_Server\<close>: \<^verbatim>\<open>Gateway\<close> and \<^verbatim>\<open>run_http_server\<close>, with connections, handlers, transport and
    backend as one system (\<open>http_step\<close>, \<open>http_reach\<close>). \<open>Http_Invariant\<close>: what all runs keep (own
    answers, exact counters, every call has an owner or was dropped). \<open>Http_Runs\<close>: runs built from
    the runs of the transports. \<open>Http_Properties\<close>: the properties. \<open>Http_Grpc\<close>: the server over the
    gRPC transports together with the backend's service.
  \<^item> \<open>Connection_Pool\<close>: the pool and the load balancer, both instances of the locale \<open>round_robin\<close>.
  \<^item> \<open>Startup\<close>, \<open>Startup_Properties\<close>: the constructors of transports and servers and the wait for the
    objects. \<open>Descriptors\<close>: the passing of the eventfds over the control socket. \<open>Mains\<close>: command lines and the two \<^verbatim>\<open>main\<close>
    functions. \<open>Deployment\<close>: from the two command lines to the answers of the HTTP server. This
    theory: the other properties that span components.

  \<^bold>\<open>What is shown.\<close> The ring refines a bounded first-in first-out queue as long as no length prefix
  straddles its end, also when writer and reader, and any number of threads under the two mutexes,
  interleave at every shared access; where a prefix straddles, messages are lost. Over the notified transports every call that returns a response
  returns its own, every written request is in exactly one place, and when nothing can move every
  call has ended except those whose response the worker could not deliver. The polling transport
  hands responses out in order, not to their owners, so clients can be crossed. A gateway gets the
  rings of its backend or an error; a backend cannot be started twice; with default names the two
  never meet. The stream answers in order and ends; \<open>compute\<close> is bounded; the histogram counts and
  its percentiles come in order, and concurrent observers leave the histogram of a sequential run; the handler forwards well-formed text. For the running HTTP server:
  every client of a notified transport gets its own answer, the Prometheus counters are exact, over
  eventfds no client is forgotten when others disconnect, and over the socket a disconnect at the
  wrong moment strands another client. The same holds of own answers over the gRPC transports, and
  from the command lines of a backend and a gateway on. A backend over the
  socket serves one gateway in its life: the calls of any other, also of one that is restarted, end in
  an error or wait for ever, and its requests can leave a call of the accepted gateway waiting.
  The descriptors a gateway receives name the files of its backend, in their roles, with counters at
  zero, which is where the runs over eventfds start.

  \<^bold>\<open>Bounds and fuel.\<close> \<open>successors\<close> unfolds an iterator at most 64 times; it yields 25 elements
  (\<open>bounds_eq\<close>). The other loops terminate by their own measures (\<open>wait_attempts\<close>: 51 attempts;
  \<open>compute_loop\<close>: the distance to the bound; \<open>from_utf8_lossy\<close>: the length) or are the steps of
  tasks. \<open>recv_eventfd\<close> may wait for ever, so it is a partial function. The runs of the transports
  are restricted to states whose next prefix does not straddle (\<open>rings_fit\<close>); the theorems on
  straddling say what happens beyond. The runs of a hub are not restricted: there the stores of
  several processes, each with a mutex of its own, may leave anything in the rings (\<open>move_race\<close>).

  \<^bold>\<open>Parameters.\<close> System calls, sockets, the serialisation libraries, \<^verbatim>\<open>tonic\<close>, the JSON library,
  clocks, and the platform's \<^verbatim>\<open>sin\<close>, \<^verbatim>\<open>cos\<close> and \<^verbatim>\<open>sqrt\<close> are arguments; what the code relies on is a
  named law, each with an instance that satisfies it (\<open>ref_sys\<close>, \<open>ref_efd\<close>, \<open>ref_sock\<close>,
  \<open>ref_codec\<close>, \<open>ref_json\<close>, \<open>ref_js\<close>, \<open>ref_floats\<close>, \<open>ref_net\<close>, \<open>world_net\<close>). The channels of \<^verbatim>\<open>tokio\<close> (the oneshot
  of a call, the bounded channel of the stream) are modelled by their documented behaviour.

  \<^bold>\<open>Not modelled.\<close> Log output; the registration and export of the Prometheus statics (the calls made to
  them are returned as events); what \<^verbatim>\<open>hyper\<close> and \<^verbatim>\<open>tonic\<close> do on the wire: of \<^verbatim>\<open>hyper\<close> the model has
  that it calls the handler for each request of an open connection and drops the handlers of a
  connection that ends, of the gRPC server its methods; generated code and the build script; shell
  scripts. The relaxed accesses of a report are interleaved for one percentile, not for a whole
  report. A mutex is taken and given back in one step each, in no particular order. The start of the
  eventfd transport ends where its runs begin (\<open>descriptors_match\<close>, \<open>eventfds_ready\<close>); for the socket the
  two ends are named, not numbered, so \<open>link_ready\<close> assumes them connected. What a process does to its
  other descriptors is left out, and so is the end of a process, except that in a hub a connection may
  break at any moment and the tasks of the backend end with its \<^verbatim>\<open>run\<close>.
\<close>

section \<open>Properties that span components\<close>

text \<open>C31. Over the polling transport the same handler leaks: for two requests of different messages
  there is a run in which the second client is answered with 200 and the message of the first,
  while the first still waits.\<close>

theorem http_polling_crosses_clients:
  assumes "json_laws c" "ring_rep rq []" "ring_rep rp []" "delay \<le> d2"
    and "req0 = echo_request js path0 e0 b0" "req1 = echo_request js path1 e1 b1"
    and "json_enc_request c req0 = Inr m0" "length m0 \<le> 65536" "json_enc_request c req1 = Inr m1"
    and "json_enc_response c (poll_response d1 d2 req0) = Inr p" "length p \<le> 65536"
    and "ring_wp rq + length m0 + length m1 + 12 \<le> ring_cap rq" "ring_wp rp + length p + 8 \<le> ring_cap rp"
    and "req_message req0 \<noteq> req_message req1"
  shows "\<exists>t r us ns. poll_reach c delay (poll_boot rq rp) t
    \<and> transport_request (Shm t :: ('n, 'k) TransportEnum) 0 = Some req0
    \<and> transport_call (Shm t :: ('n, 'k) TransportEnum) 0 = None
    \<and> transport_request (Shm t :: ('n, 'k) TransportEnum) 1 = Some req1
    \<and> transport_call (Shm t :: ('n, 'k) TransportEnum) 1 = Some r
    \<and> fst (gateway_answer js display g h r)
        = \<lparr>status = 200, response_headers = [(''Content-Type'', ''application/json'')],
           response_body = js_reply js (req_message req0) us ns\<rparr>"
proof -
  obtain t where t: "poll_reach c delay (poll_boot rq rp) t" "length (pcalls t) = 2"
    "pcall_req (pcalls t ! 0) = req0" "pcall_phase (pcalls t ! 0) = PPolling" "pcall_req (pcalls t ! 1) = req1"
    "pcall_phase (pcalls t ! 1) = PFinished (Ok (poll_response d1 d2 req0))"
    using poll_two_run [OF assms(1-3,7-13,4), of PPolling] by blast
  show ?thesis
    by (rule exI [of _ t], rule exI [of _ "Inr (poll_response d1 d2 req0)"],
        rule exI [of _ "as_micros_i64 d2"], rule exI [of _ "as_nanos_i64 d1"])
      (use t in \<open>simp add: poll_request_def poll_result_def gateway_answer_def poll_response_def\<close>)
qed

lemma http_polling_crosses_clients_witness:
  "\<exists>t r us ns. poll_reach ref_json 1000 (poll_boot ring_default ring_default) t
    \<and> transport_request (Shm t :: (unit, unit) TransportEnum) 1 = Some req_bye
    \<and> transport_call (Shm t :: (unit, unit) TransportEnum) 1 = Some r
    \<and> fst (gateway_answer ref_js (\<lambda>_. []) 1 2 r)
        = \<lparr>status = 200, response_headers = [(''Content-Type'', ''application/json'')],
           response_body = js_reply ref_js (req_message req_hi) us ns\<rparr>"
proof -
  have "\<exists>t r us ns. poll_reach ref_json 1000 (poll_boot ring_default ring_default) t
    \<and> transport_request (Shm t :: (unit, unit) TransportEnum) 0 = Some req_hi
    \<and> transport_call (Shm t :: (unit, unit) TransportEnum) 0 = None
    \<and> transport_request (Shm t :: (unit, unit) TransportEnum) 1 = Some req_bye
    \<and> transport_call (Shm t :: (unit, unit) TransportEnum) 1 = Some r
    \<and> fst (gateway_answer ref_js (\<lambda>_. []) 1 2 r)
        = \<lparr>status = 200, response_headers = [(''Content-Type'', ''application/json'')],
           response_body = js_reply ref_js (req_message req_hi) us ns\<rparr>"
    by (rule http_polling_crosses_clients [OF ref_json_laws ring_default_nat(1) ring_default_nat(1) _
          req_hi_from_http req_bye_from_http ref_json_hi(1) _ ref_json_hi(2) ref_json_hi(3) [of 900 1000]])
      (simp_all add: ref_json_hi ring_default_nat hi_not_bye)
  then show ?thesis by blast
qed

text \<open>C33. With their default names the two programs never meet: a gateway started with one of the
  shared-memory transports, and otherwise the default arguments, beside a backend started
  likewise, always ends with the timeout for an object that the backend does not create.\<close>

theorem defaults_never_meet:
  assumes "posix_shm sys obj bound" "net_keeps obj net efds" "\<forall>n. keeps_objects obj (env n)"
    and "ty \<in> {Type_Shm, Type_ShmUds, Type_ShmEventfd}" "obj os ''gateway_shm_req_buf'' = None"
    and "obj os2 = obj (snd (backend_main sys efds net parse_addr (backend_args_default\<lparr>backend_transport := ty\<rparr>) os))"
  shows "\<exists>os3. gateway_main sys net tonic env parse_addr' tcp_bind (gateway_args_default\<lparr>gateway_transport := ty\<rparr>) os2
    = Some (Err (Timeout_waiting_for ''gateway_shm_req_buf''), os3)"
proof -
  have name: "req_buf_name ''gateway_shm'' = ''gateway_shm_req_buf''" by (simp add: req_buf_name_def)
  have args: "backend_shm_name (backend_args_default\<lparr>backend_transport := ty\<rparr>) = ''backend''"
    "gateway_shm_name (gateway_args_default\<lparr>gateway_transport := ty\<rparr>) = ''gateway_shm''"
    by (simp_all add: backend_args_default_def gateway_args_default_def)
  have "obj (snd (backend_main sys efds net parse_addr (backend_args_default\<lparr>backend_transport := ty\<rparr>) os))
      ''gateway_shm_req_buf'' = obj os ''gateway_shm_req_buf''"
    by (rule backend_shm_objects [OF assms(1,2)])
      (use assms(4) in \<open>simp_all add: args req_buf_name_def resp_buf_name_def\<close>)
  then have none: "obj os2 (req_buf_name ''gateway_shm'') = None" using assms(5,6) name by simp
  have keeps: "keeps_objects obj (env (req_buf_name ''gateway_shm''))" using assms(3) by blast
  have "fst (wait_for_shm sys (env (req_buf_name ''gateway_shm'')) (req_buf_name ''gateway_shm'')
      ShmConfig_default os2) = Err (Timeout_waiting_for (req_buf_name ''gateway_shm''))"
    by (rule wait_for_shm_missing [of sys obj bound, OF assms(1) keeps none])
  then obtain os3 where "wait_for_shm sys (env (req_buf_name ''gateway_shm'')) (req_buf_name ''gateway_shm'')
      ShmConfig_default os2 = (Err (Timeout_waiting_for ''gateway_shm_req_buf''), os3)"
    unfolding name by (metis prod.collapse)
  then have "shm_transport_new sys env ''gateway_shm'' os2 = (Err (Timeout_waiting_for ''gateway_shm_req_buf''), os3)"
    by (simp add: shm_transport_new_def)
  then have "gateway_link_new sys net tonic env (gateway_args_default\<lparr>gateway_transport := ty\<rparr>) os2
      = Some (Err (Timeout_waiting_for ''gateway_shm_req_buf''), os3)"
    using assms(4) by (auto simp: gateway_link_new_def gateway_args_default_def uds_transport_new_unfold efd_transport_new_unfold)
  then show ?thesis by (simp add: gateway_main_def)
qed

lemma defaults_never_meet_witness:
  "\<exists>os2 os3. (\<exists>l. backend_main ref_sys ref_no_efd ref_net_ok (\<lambda>_. None :: unit option)
        (backend_args_default\<lparr>backend_transport := Type_ShmUds\<rparr>) ref_os = (Ok l, os2))
    \<and> gateway_main ref_sys ref_net_ok \<lparr>tonic_endpoint = (\<lambda>_. None), tonic_connect = (\<lambda>_ os. (Inr (), os)),
          tonic_connect_path = (\<lambda>_ _ os. (Inr (), os))\<rparr> (\<lambda>_ _ os. os) (\<lambda>_. Some ()) (\<lambda>_ os. (Inr 7, os))
        (gateway_args_default\<lparr>gateway_transport := Type_ShmUds\<rparr>) os2
      = Some (Err (Timeout_waiting_for ''gateway_shm_req_buf''), os3)"
proof -
  obtain os' rq rp where "create_buffers ref_sys ''backend'' ref_os = (Ok (rq, rp), os')"
    using ref_create_buffers by metis
  then have b: "backend_main ref_sys ref_no_efd ref_net_ok (\<lambda>_. None :: unit option)
      (backend_args_default\<lparr>backend_transport := Type_ShmUds\<rparr>) ref_os = (Ok (Serve_ShmUds rq rp 8), os')"
    by (simp add: backend_main_def backend_args_default_def uds_server_new_def ref_net_ok_def ref_net_def)
  have "\<forall>n :: string. keeps_objects objs (\<lambda>(_ :: nat) os. os)" by (simp add: keeps_objects_def)
  moreover have "objs os' = objs (snd (backend_main ref_sys ref_no_efd ref_net_ok (\<lambda>_. None :: unit option)
      (backend_args_default\<lparr>backend_transport := Type_ShmUds\<rparr>) ref_os))" using b by simp
  ultimately have "\<exists>os3. gateway_main ref_sys ref_net_ok \<lparr>tonic_endpoint = (\<lambda>_. None), tonic_connect = (\<lambda>_ os. (Inr (), os)),
          tonic_connect_path = (\<lambda>_ _ os. (Inr (), os))\<rparr> (\<lambda>_ _ os. os) (\<lambda>_. Some ()) (\<lambda>_ os. (Inr 7, os))
        (gateway_args_default\<lparr>gateway_transport := Type_ShmUds\<rparr>) os'
      = Some (Err (Timeout_waiting_for ''gateway_shm_req_buf''), os3)"
    using defaults_never_meet [OF ref_sys_posix ref_net_keeps(2), of "\<lambda>_ _ os. os" Type_ShmUds ref_os os' "\<lambda>_. None :: unit option"]
    by (simp add: ref_os_def)
  with b show ?thesis by blast
qed

end
